theory Spec2Isabelle
  imports Main "HOL-Library.Monad_Syntax"
begin

section \<open>Hopscotch hash map: the embedding of hash_map.hpp\<close>

text \<open>
  The class \<open>HashMap<KeyType, ValueType, Hash>\<close> keeps its entries in a \<open>std::list\<close>
  (\<open>objects\<close>) and a table of \<open>Bucket\<close> records in a \<open>std::vector\<close> (\<open>buckets\<close>).
  The embedding follows the source member by member.

  \<^item> \<open>SizeType\<close> is \<open>size_t\<close>: a natural number below \<open>2 ^ 64\<close>; every addition and
    subtraction the source performs on such values (and on pointers into the table,
    which are modelled by their index) is written with the wrap-around modulo
    \<open>2 ^ 64\<close> (\<open>sz_add\<close>, \<open>sz_sub\<close>, \<open>sz_mul\<close>).
  \<^item> A \<open>BucketIterator\<close> is the index of the bucket; \<open>buckets.end()\<close> is the length
    of the table.
  \<^item> A list iterator is \<open>Node h\<close> for the list node with identity \<open>h\<close>, \<open>End\<close> for
    \<open>objects.end()\<close> and \<open>Singular\<close> for a default-constructed iterator. The two
    iterator fields of a bucket, the mutable and the constant one, are always written
    together and are the one field \<open>object_it\<close> here.
  \<^item> Member names are those of the source without the trailing underscore.
  \<^item> Functions return \<open>option\<close>: \<open>None\<close> stands for an execution without a defined
    result (a bucket access outside the table, a dereference of an iterator that
    designates no node, or a loop that does not end).
  \<^item> Exceptions are values of type \<open>error\<close>.
\<close>

subsection \<open>Sizes\<close>

definition word_range :: nat where
  "word_range = 2 ^ 64"

definition SIZE_MAX :: nat where
  "SIZE_MAX = word_range - 1"

definition NULL_DELTA :: nat where
  "NULL_DELTA = SIZE_MAX"

definition EMPTY_BUCKET :: nat where
  "EMPTY_BUCKET = SIZE_MAX"

definition size_modifier :: nat where
  "size_modifier = 3"

definition neighbourhood_modifier :: nat where
  "neighbourhood_modifier = 3"

definition min_neighbourhood_size :: nat where
  "min_neighbourhood_size = 4"

definition sz_add :: "nat \<Rightarrow> nat \<Rightarrow> nat" where
  "sz_add a b = (a + b) mod word_range"

definition sz_sub :: "nat \<Rightarrow> nat \<Rightarrow> nat" where
  "sz_sub a b = (a + (word_range - b mod word_range)) mod word_range"

definition sz_mul :: "nat \<Rightarrow> nat \<Rightarrow> nat" where
  "sz_mul a b = (a * b) mod word_range"

text \<open>
  \<open>std::vector<Bucket>::max_size()\<close>: a \<open>Bucket\<close> holds two list iterators and four
  \<open>size_t\<close> fields (48 bytes on an LP64 platform) and the vector cannot hold more than
  \<open>PTRDIFF_MAX\<close> bytes. \<open>buckets_.assign\<close> with a larger count throws. Allocation
  within this bound is taken to succeed.
\<close>

definition max_size :: nat where
  "max_size = (2 ^ 63 - 1) div 48"

subsection \<open>Data\<close>

datatype error = NotFound | OutOfMemory

datatype iterator = Singular | Node nat | End

record Bucket =
  object_it :: iterator
  first_delta :: nat
  next_delta :: nat
  prev_delta :: nat
  object_bucket :: nat

definition empty_Bucket :: Bucket where
  "empty_Bucket = \<lparr>object_it = Singular, first_delta = NULL_DELTA, next_delta = NULL_DELTA,
     prev_delta = NULL_DELTA, object_bucket = EMPTY_BUCKET\<rparr>"

record ('k, 'v) HashMap =
  objects :: "(nat \<times> 'k \<times> 'v) list"
  buckets :: "Bucket list"
  neighbourhood_size :: nat
  hasher :: "'k \<Rightarrow> nat"

text \<open>Dereferencing a list iterator: the key and value of the node it designates.\<close>

definition deref :: "('k, 'v) HashMap \<Rightarrow> iterator \<Rightarrow> ('k \<times> 'v) option" where
  "deref s it = (case it of Node h \<Rightarrow> map_of (objects s) h | _ \<Rightarrow> None)"

text \<open>\<open>objects_.push_front\<close> allocates a node whose identity differs from every live node.\<close>

definition fresh_node :: "(nat \<times> 'k \<times> 'v) list \<Rightarrow> nat" where
  "fresh_node objs = Suc (fold max (map fst objs) 0)"

text \<open>A write to the bucket at index \<open>i\<close>.\<close>

definition upd :: "Bucket list \<Rightarrow> nat \<Rightarrow> (Bucket \<Rightarrow> Bucket) \<Rightarrow> Bucket list" where
  "upd bs i f = bs[i := f (bs ! i)]"

subsection \<open>The constructor, size and clear\<close>

definition HashMap_new :: "('k \<Rightarrow> nat) \<Rightarrow> ('k, 'v) HashMap" where
  "HashMap_new hash_fn = \<lparr>objects = [], buckets = replicate min_neighbourhood_size empty_Bucket,
     neighbourhood_size = min_neighbourhood_size, hasher = hash_fn\<rparr>"

definition size_hm :: "('k, 'v) HashMap \<Rightarrow> nat" where
  "size_hm s = length (objects s)"

definition capacity :: "('k, 'v) HashMap \<Rightarrow> nat" where
  "capacity s = length (buckets s)"

definition clear :: "('k, 'v) HashMap \<Rightarrow> ('k, 'v) HashMap" where
  "clear s = s\<lparr>neighbourhood_size := min_neighbourhood_size, objects := [],
     buckets := replicate min_neighbourhood_size empty_Bucket\<rparr>"

subsection \<open>GetStartBucket and FindObject\<close>

definition GetStartBucket :: "('k, 'v) HashMap \<Rightarrow> 'k \<Rightarrow> nat" where
  "GetStartBucket s key = hasher s key mod length (buckets s)"

text \<open>
  The loop of \<open>FindObject\<close>: \<open>walk s key i\<close> is the bucket at which the loop stops when
  it is entered at bucket \<open>i\<close>.
\<close>

partial_function (option) walk :: "('k, 'v) HashMap \<Rightarrow> 'k \<Rightarrow> nat \<Rightarrow> nat option" where
  "walk s key i =
     (if i < length (buckets s) then
        (case deref s (object_it (buckets s ! i)) of
           None \<Rightarrow> None
         | Some kv \<Rightarrow>
             if fst kv \<noteq> key \<and> next_delta (buckets s ! i) \<noteq> NULL_DELTA
             then walk s key (sz_add i (next_delta (buckets s ! i)))
             else Some i)
      else None)"

declare walk.simps [code]

definition FindObject :: "('k, 'v) HashMap \<Rightarrow> 'k \<Rightarrow> nat option" where
  "FindObject s key =
     (let start_bucket = GetStartBucket s key in
      if start_bucket < length (buckets s) then
        if first_delta (buckets s ! start_bucket) = NULL_DELTA then Some (length (buckets s))
        else
          (case walk s key (sz_add start_bucket (first_delta (buckets s ! start_bucket))) of
             None \<Rightarrow> None
           | Some i \<Rightarrow>
               (case deref s (object_it (buckets s ! i)) of
                  None \<Rightarrow> None
                | Some kv \<Rightarrow> if fst kv \<noteq> key then Some (length (buckets s)) else Some i))
      else None)"

subsection \<open>InsertObject\<close>

text \<open>Lines 245-247: the linear probe for an empty bucket, from the home bucket on.\<close>

function probe :: "Bucket list \<Rightarrow> nat \<Rightarrow> nat" where
  "probe bs free_bucket =
     (if free_bucket < length bs \<and> object_bucket (bs ! free_bucket) \<noteq> EMPTY_BUCKET
      then probe bs (Suc free_bucket) else free_bucket)"
  by pat_completeness auto
termination
  by (relation "measure (\<lambda>(bs, i). length bs - i)") auto

declare probe.simps [simp del]

text \<open>
  Lines 253-260: the search for the occupant to displace. \<open>fit_bucket\<close> starts at
  \<open>free_bucket\<close> and moves down; the bucket tested is \<open>fit_bucket - 1\<close>.
\<close>

function find_fit :: "Bucket list \<Rightarrow> nat \<Rightarrow> nat \<Rightarrow> nat \<Rightarrow> nat" where
  "find_fit bs H free_bucket fit_bucket =
     (if fit_bucket \<noteq> 0 \<and> H > sz_add (sz_sub free_bucket fit_bucket) 1 then
        if H > sz_sub free_bucket (object_bucket (bs ! (fit_bucket - 1))) then fit_bucket
        else find_fit bs H free_bucket (fit_bucket - 1)
      else fit_bucket)"
  by pat_completeness auto
termination
  by (relation "measure (\<lambda>(bs, H, f, i). i)") auto

declare find_fit.simps [simp del]

text \<open>Lines 266-270: the predecessor in the chain is pointed at the free bucket.\<close>

definition relink_prev :: "Bucket list \<Rightarrow> nat \<Rightarrow> nat \<Rightarrow> Bucket list option" where
  "relink_prev bs fit_bucket free_bucket =
     (if prev_delta (bs ! fit_bucket) \<noteq> NULL_DELTA then
        (let p = sz_sub fit_bucket (prev_delta (bs ! fit_bucket)) in
         if p < length bs then
           (let d = sz_sub free_bucket fit_bucket;
                bs1 = upd bs p (\<lambda>b. b\<lparr>next_delta := sz_add (next_delta b) d\<rparr>);
                bs2 = upd bs1 fit_bucket (\<lambda>b. b\<lparr>prev_delta := sz_add (prev_delta b) d\<rparr>);
                x = prev_delta (bs2 ! fit_bucket);
                y = prev_delta (bs2 ! free_bucket);
                bs3 = upd bs2 fit_bucket (\<lambda>b. b\<lparr>prev_delta := y\<rparr>)
            in Some (upd bs3 free_bucket (\<lambda>b. b\<lparr>prev_delta := x\<rparr>)))
         else None)
      else Some bs)"

text \<open>Lines 271-275: the successor in the chain is pointed back at the free bucket.\<close>

definition relink_next :: "Bucket list \<Rightarrow> nat \<Rightarrow> nat \<Rightarrow> Bucket list option" where
  "relink_next bs fit_bucket free_bucket =
     (if next_delta (bs ! fit_bucket) \<noteq> NULL_DELTA then
        (let n = sz_add fit_bucket (next_delta (bs ! fit_bucket)) in
         if n < length bs then
           (let d = sz_sub free_bucket fit_bucket;
                bs1 = upd bs n (\<lambda>b. b\<lparr>prev_delta := sz_sub (prev_delta b) d\<rparr>);
                bs2 = upd bs1 fit_bucket (\<lambda>b. b\<lparr>next_delta := sz_sub (next_delta b) d\<rparr>);
                x = next_delta (bs2 ! fit_bucket);
                y = next_delta (bs2 ! free_bucket);
                bs3 = upd bs2 fit_bucket (\<lambda>b. b\<lparr>next_delta := y\<rparr>)
            in Some (upd bs3 free_bucket (\<lambda>b. b\<lparr>next_delta := x\<rparr>)))
         else None)
      else Some bs)"

text \<open>Lines 276-280: when the displaced occupant heads its chain, the home bucket follows it.\<close>

definition relink_first :: "Bucket list \<Rightarrow> nat \<Rightarrow> nat \<Rightarrow> Bucket list option" where
  "relink_first bs fit_bucket free_bucket =
     (let home = object_bucket (bs ! fit_bucket) in
      if home < length bs then
        if fit_bucket = sz_add home (first_delta (bs ! home))
        then Some (upd bs home (\<lambda>b. b\<lparr>first_delta := sz_sub free_bucket home\<rparr>))
        else Some bs
      else None)"

text \<open>Lines 281-283: the occupant changes bucket.\<close>

definition swap_object :: "Bucket list \<Rightarrow> nat \<Rightarrow> nat \<Rightarrow> Bucket list" where
  "swap_object bs fit_bucket free_bucket =
     (let x = bs ! fit_bucket; y = bs ! free_bucket;
          bs1 = upd bs fit_bucket (\<lambda>b. b\<lparr>object_it := object_it y, object_bucket := object_bucket y\<rparr>)
      in upd bs1 free_bucket (\<lambda>b. b\<lparr>object_it := object_it x, object_bucket := object_bucket x\<rparr>))"

definition displace :: "Bucket list \<Rightarrow> nat \<Rightarrow> nat \<Rightarrow> Bucket list option" where
  "displace bs fit_bucket free_bucket =
     (if fit_bucket < length bs \<and> free_bucket < length bs then
        do {
          bs1 \<leftarrow> relink_prev bs fit_bucket free_bucket;
          bs2 \<leftarrow> relink_next bs1 fit_bucket free_bucket;
          bs3 \<leftarrow> relink_first bs2 fit_bucket free_bucket;
          Some (swap_object bs3 fit_bucket free_bucket)
        }
      else None)"

lemma find_fit_le: "find_fit bs H free_bucket fit_bucket \<le> fit_bucket"
  by (induction bs H free_bucket fit_bucket rule: find_fit.induct)
     (subst find_fit.simps, auto)

text \<open>
  Lines 251-285: the hop loop. The result is the table and the free bucket reached;
  \<open>None\<close> in the second component is the early \<open>return buckets_.end()\<close>.
\<close>

function hop :: "Bucket list \<Rightarrow> nat \<Rightarrow> nat \<Rightarrow> nat \<Rightarrow> (Bucket list \<times> nat option) option" where
  "hop bs H start_bucket free_bucket =
     (if H \<le> sz_sub free_bucket start_bucket then
        (let fit_bucket = find_fit bs H free_bucket free_bucket in
         if fit_bucket = 0 \<or> sz_add (sz_sub free_bucket fit_bucket) 1 \<ge> H then Some (bs, None)
         else
           (case displace bs (fit_bucket - 1) free_bucket of
              None \<Rightarrow> None
            | Some bs' \<Rightarrow> hop bs' H start_bucket (fit_bucket - 1)))
      else Some (bs, Some free_bucket))"
  by pat_completeness auto
termination
proof (relation "measure (\<lambda>(bs, H, s, f). f)", goal_cases)
  case 1
  show ?case by simp
next
  case (2 bs H start_bucket free_bucket fit bs')
  have "find_fit bs H free_bucket free_bucket \<le> free_bucket"
    by (rule find_fit_le)
  with 2 show ?case by auto
qed

declare hop.simps [simp del]

text \<open>Lines 292-296: the nearest bucket below the free one that holds the same home.\<close>

function find_previous :: "Bucket list \<Rightarrow> nat \<Rightarrow> nat \<Rightarrow> nat \<Rightarrow> nat" where
  "find_previous bs start_bucket free_bucket previous_bucket =
     (if start_bucket < previous_bucket \<and>
         object_bucket (bs ! (previous_bucket - 1)) \<noteq> object_bucket (bs ! free_bucket)
      then find_previous bs start_bucket free_bucket (previous_bucket - 1)
      else previous_bucket)"
  by pat_completeness auto
termination
  by (relation "measure (\<lambda>(bs, s, f, p). p)") auto

declare find_previous.simps [simp del]

text \<open>
  Lines 289-313: the entry is written into the free bucket and the bucket is linked into
  the chain of its home. Line 286 has ensured \<open>start_bucket \<le> free_bucket\<close>, so the
  loop test \<open>previous_bucket != start_bucket\<close> is \<open>start_bucket < previous_bucket\<close>.
\<close>

definition link_after :: "Bucket list \<Rightarrow> nat \<Rightarrow> nat \<Rightarrow> Bucket list option" where
  "link_after bs next_bucket free_bucket =
     (if next_bucket < length bs then
        Some (upd (upd bs next_bucket (\<lambda>b. b\<lparr>prev_delta := sz_sub next_bucket free_bucket\<rparr>))
                free_bucket (\<lambda>b. b\<lparr>next_delta := sz_sub next_bucket free_bucket\<rparr>))
      else None)"

definition install :: "Bucket list \<Rightarrow> nat \<Rightarrow> nat \<Rightarrow> iterator \<Rightarrow> Bucket list option" where
  "install bs start_bucket free_bucket obj_it =
     (if start_bucket \<le> free_bucket \<and> free_bucket < length bs then
        (let bs0 = upd bs free_bucket (\<lambda>b. b\<lparr>object_it := obj_it, object_bucket := start_bucket\<rparr>);
             previous_bucket = find_previous bs0 start_bucket free_bucket free_bucket
         in
         if previous_bucket \<noteq> start_bucket then
           (let previous_bucket = previous_bucket - 1 in
            do {
              bs1 \<leftarrow> (if next_delta (bs0 ! previous_bucket) \<noteq> NULL_DELTA
                      then link_after bs0 (sz_add previous_bucket (next_delta (bs0 ! previous_bucket))) free_bucket
                      else Some bs0);
              Some (upd (upd bs1 previous_bucket (\<lambda>b. b\<lparr>next_delta := sz_sub free_bucket previous_bucket\<rparr>))
                      free_bucket (\<lambda>b. b\<lparr>prev_delta := sz_sub free_bucket previous_bucket\<rparr>))
            })
         else
           do {
             bs1 \<leftarrow> (if first_delta (bs0 ! start_bucket) \<noteq> NULL_DELTA
                     then link_after bs0 (sz_add start_bucket (first_delta (bs0 ! start_bucket))) free_bucket
                     else Some bs0);
             Some (upd bs1 start_bucket (\<lambda>b. b\<lparr>first_delta := sz_sub free_bucket start_bucket\<rparr>))
           })
      else None)"

text \<open>
  \<open>InsertObject\<close> returns the bucket iterator and the map. The result
  \<open>length (buckets s)\<close> is \<open>buckets.end()\<close>: the entry was not placed.
\<close>

definition InsertObject :: "('k, 'v) HashMap \<Rightarrow> iterator \<Rightarrow> (nat \<times> ('k, 'v) HashMap) option" where
  "InsertObject s obj_it =
     (case deref s obj_it of
        None \<Rightarrow> None
      | Some kv \<Rightarrow>
         (let start_bucket = GetStartBucket s (fst kv) in
          if start_bucket < length (buckets s) then
            (let free_bucket = probe (buckets s) start_bucket in
             if free_bucket = length (buckets s) then Some (length (buckets s), s)
             else
               (case hop (buckets s) (neighbourhood_size s) start_bucket free_bucket of
                  None \<Rightarrow> None
                | Some (bs, None) \<Rightarrow> Some (length bs, s\<lparr>buckets := bs\<rparr>)
                | Some (bs, Some free_bucket) \<Rightarrow>
                    if free_bucket < start_bucket then Some (length bs, s\<lparr>buckets := bs\<rparr>)
                    else
                      (case install bs start_bucket free_bucket obj_it of
                         None \<Rightarrow> None
                       | Some bs' \<Rightarrow> Some (free_bucket, s\<lparr>buckets := bs'\<rparr>))))
          else None))"

subsection \<open>EraseObject\<close>

definition EraseObject :: "Bucket list \<Rightarrow> nat \<Rightarrow> Bucket list option" where
  "EraseObject bs bucket_it =
     (if bucket_it < length bs then
        do {
          bs1 \<leftarrow>
            (if prev_delta (bs ! bucket_it) \<noteq> NULL_DELTA then
               (let previous_bucket = sz_sub bucket_it (prev_delta (bs ! bucket_it)) in
                if previous_bucket < length bs then
                  if next_delta (bs ! bucket_it) \<noteq> NULL_DELTA then
                    (let next_bucket = sz_add bucket_it (next_delta (bs ! bucket_it)) in
                     if next_bucket < length bs then
                       Some (upd (upd bs previous_bucket
                                    (\<lambda>b. b\<lparr>next_delta := sz_sub next_bucket previous_bucket\<rparr>))
                               next_bucket (\<lambda>b. b\<lparr>prev_delta := sz_sub next_bucket previous_bucket\<rparr>))
                     else None)
                  else Some (upd bs previous_bucket (\<lambda>b. b\<lparr>next_delta := NULL_DELTA\<rparr>))
                else None)
             else
               (let start_bucket = object_bucket (bs ! bucket_it) in
                if start_bucket < length bs then
                  if next_delta (bs ! bucket_it) \<noteq> NULL_DELTA then
                    (let next_bucket = sz_add bucket_it (next_delta (bs ! bucket_it)) in
                     if next_bucket < length bs then
                       Some (upd (upd bs start_bucket
                                    (\<lambda>b. b\<lparr>first_delta := sz_sub next_bucket start_bucket\<rparr>))
                               next_bucket (\<lambda>b. b\<lparr>prev_delta := NULL_DELTA\<rparr>))
                     else None)
                  else Some (upd bs start_bucket (\<lambda>b. b\<lparr>first_delta := NULL_DELTA\<rparr>))
                else None));
          Some (upd bs1 bucket_it
                  (\<lambda>b. b\<lparr>next_delta := NULL_DELTA, prev_delta := NULL_DELTA,
                          object_bucket := EMPTY_BUCKET\<rparr>))
        }
      else None)"

subsection \<open>Reallocate and HandleCollision\<close>

text \<open>Lines 223-231: every entry of the list is placed again, front to back.\<close>

fun reinsert :: "('k, 'v) HashMap \<Rightarrow> nat list \<Rightarrow> (bool \<times> ('k, 'v) HashMap) option" where
  "reinsert s [] = Some (True, s)"
| "reinsert s (h # hs) =
     (case InsertObject s (Node h) of
        None \<Rightarrow> None
      | Some (bucket_it, s') \<Rightarrow>
          if bucket_it = length (buckets s') then Some (False, s') else reinsert s' hs)"

definition Reallocate ::
  "('k, 'v) HashMap \<Rightarrow> nat \<Rightarrow> nat \<Rightarrow> (error + bool \<times> ('k, 'v) HashMap) option" where
  "Reallocate s new_capacity new_neighbourhood_size =
     (if new_capacity \<le> length (buckets s) \<and> new_neighbourhood_size \<le> neighbourhood_size s
      then Some (Inr (False, s))
      else if max_size < new_capacity then Some (Inl OutOfMemory)
      else
        (let s' = s\<lparr>buckets := replicate new_capacity empty_Bucket,
                     neighbourhood_size := new_neighbourhood_size\<rparr>
         in map_option Inr (reinsert s' (map fst (objects s')))))"

text \<open>Lines 201-207: the retry loop of \<open>HandleCollision\<close>.\<close>

definition grow_capacity :: "('k, 'v) HashMap \<Rightarrow> nat" where
  "grow_capacity s =
     (if sz_mul (neighbourhood_size s) neighbourhood_modifier \<ge> length (buckets s) \<or>
         length (objects s) \<ge> length (buckets s)
      then sz_mul (length (buckets s)) size_modifier
      else length (buckets s))"

partial_function (option) HandleCollision_loop ::
  "('k, 'v) HashMap \<Rightarrow> (error + ('k, 'v) HashMap) option" where
  "HandleCollision_loop s =
     (case Reallocate s (grow_capacity s) (sz_mul (neighbourhood_size s) neighbourhood_modifier) of
        None \<Rightarrow> None
      | Some (Inl e) \<Rightarrow> Some (Inl e)
      | Some (Inr (handle, s')) \<Rightarrow> if handle then Some (Inr s') else HandleCollision_loop s')"

declare HandleCollision_loop.simps [code]

definition HandleCollision :: "('k, 'v) HashMap \<Rightarrow> (error + ('k, 'v) HashMap) option" where
  "HandleCollision s =
     (if length (objects s) \<ge> length (buckets s) then
        (case Reallocate s (sz_mul (length (buckets s)) size_modifier) (neighbourhood_size s) of
           None \<Rightarrow> None
         | Some (Inl e) \<Rightarrow> Some (Inl e)
         | Some (Inr (handle, s')) \<Rightarrow> if handle then Some (Inr s') else HandleCollision_loop s')
      else HandleCollision_loop s)"

subsection \<open>The public operations\<close>

text \<open>
  \<open>insert\<close> returns the list iterator of the entry for the key and the map;
  \<open>Inl OutOfMemory\<close> is the exception that leaves \<open>HandleCollision\<close>.
\<close>

definition insert_hm ::
  "('k, 'v) HashMap \<Rightarrow> 'k \<times> 'v \<Rightarrow> (error + iterator \<times> ('k, 'v) HashMap) option" where
  "insert_hm s val =
     (case FindObject s (fst val) of
        None \<Rightarrow> None
      | Some it \<Rightarrow>
          if it \<noteq> length (buckets s) then Some (Inr (object_it (buckets s ! it), s))
          else
            (let h = fresh_node (objects s);
                 s1 = s\<lparr>objects := (h, val) # objects s\<rparr>
             in
             case InsertObject s1 (Node h) of
               None \<Rightarrow> None
             | Some (it, s2) \<Rightarrow>
                 if it = length (buckets s2) then
                   (case HandleCollision s2 of
                      None \<Rightarrow> None
                    | Some (Inl e) \<Rightarrow> Some (Inl e)
                    | Some (Inr s3) \<Rightarrow>
                        (case FindObject s3 (fst val) of
                           None \<Rightarrow> None
                         | Some it \<Rightarrow>
                             if it < length (buckets s3)
                             then Some (Inr (object_it (buckets s3 ! it), s3))
                             else None))
                 else Some (Inr (object_it (buckets s2 ! it), s2))))"

definition erase :: "('k, 'v) HashMap \<Rightarrow> 'k \<Rightarrow> ('k, 'v) HashMap option" where
  "erase s key =
     (case FindObject s key of
        None \<Rightarrow> None
      | Some it \<Rightarrow>
          if it = length (buckets s) then Some s
          else
            (case object_it (buckets s ! it) of
               Node h \<Rightarrow>
                 if h \<in> fst ` set (objects s) then
                   (case EraseObject (buckets s) it of
                      None \<Rightarrow> None
                    | Some bs \<Rightarrow>
                        Some (s\<lparr>objects := filter (\<lambda>e. fst e \<noteq> h) (objects s), buckets := bs\<rparr>))
                 else None
             | _ \<Rightarrow> None))"

definition find_hm :: "('k, 'v) HashMap \<Rightarrow> 'k \<Rightarrow> iterator option" where
  "find_hm s key =
     (case FindObject s key of
        None \<Rightarrow> None
      | Some it \<Rightarrow> if it = length (buckets s) then Some End else Some (object_it (buckets s ! it)))"

definition at :: "('k, 'v) HashMap \<Rightarrow> 'k \<Rightarrow> (error + 'v) option" where
  "at s key =
     (case FindObject s key of
        None \<Rightarrow> None
      | Some it \<Rightarrow>
          if it = length (buckets s) then Some (Inl NotFound)
          else map_option (\<lambda>kv. Inr (snd kv)) (deref s (object_it (buckets s ! it))))"

text \<open>
  \<open>operator[]\<close> inserts the key with the value-initialised \<open>ValueType{}\<close>, here the
  argument \<open>dflt\<close>, and returns a reference to the stored value: here the iterator of the
  entry, together with the map.
\<close>

definition subscript ::
  "'v \<Rightarrow> ('k, 'v) HashMap \<Rightarrow> 'k \<Rightarrow> (error + iterator \<times> ('k, 'v) HashMap) option" where
  "subscript dflt s key = insert_hm s (key, dflt)"

section \<open>Invariants and auxiliary definitions\<close>

text \<open>
  The table is seen as four functions of the bucket index: \<open>hm\<close> is \<open>object_bucket\<close>, the
  home of the occupant or \<open>EMPTY_BUCKET\<close>, and \<open>nx\<close>, \<open>pv\<close>, \<open>fd\<close> are \<open>next_delta\<close>,
  \<open>prev_delta\<close> and \<open>first_delta\<close>. \<open>chains H n hm nx pv fd\<close> is the structure that the operations
  maintain in a table of \<open>n\<close> buckets with neighbourhood size \<open>H\<close>: an empty bucket has no
  links; an occupant is at most \<open>H - 1\<close> buckets above its home; an occupant without
  predecessor is the one \<open>first_delta\<close> of its home leads to; \<open>prev_delta\<close> and \<open>next_delta\<close>
  lead to buckets of the same home and invert each other; \<open>next_delta\<close> leads to the
  nearest bucket above with the same home; the home of an occupant has a \<open>first_delta\<close>,
  which leads to an occupant of this home that has no predecessor and is not above any
  other.
\<close>

definition chains ::
  "nat \<Rightarrow> nat \<Rightarrow> (nat \<Rightarrow> nat) \<Rightarrow> (nat \<Rightarrow> nat) \<Rightarrow> (nat \<Rightarrow> nat) \<Rightarrow> (nat \<Rightarrow> nat) \<Rightarrow> bool" where
  "chains H n hm nx pv fd \<longleftrightarrow>
     n \<le> EMPTY_BUCKET \<and> n \<le> NULL_DELTA \<and>
     (\<forall>i<n. hm i = EMPTY_BUCKET \<longrightarrow> nx i = NULL_DELTA \<and> pv i = NULL_DELTA) \<and>
     (\<forall>i<n. hm i \<noteq> EMPTY_BUCKET \<longrightarrow> hm i \<le> i \<and> i < hm i + H) \<and>
     (\<forall>i<n. hm i \<noteq> EMPTY_BUCKET \<longrightarrow> pv i = NULL_DELTA \<longrightarrow> hm i + fd (hm i) = i) \<and>
     (\<forall>i<n. hm i \<noteq> EMPTY_BUCKET \<longrightarrow> pv i \<noteq> NULL_DELTA \<longrightarrow>
        0 < pv i \<and> pv i \<le> i \<and> hm (i - pv i) = hm i \<and> nx (i - pv i) = pv i) \<and>
     (\<forall>i<n. hm i \<noteq> EMPTY_BUCKET \<longrightarrow> nx i \<noteq> NULL_DELTA \<longrightarrow>
        0 < nx i \<and> i + nx i < n \<and> hm (i + nx i) = hm i \<and> pv (i + nx i) = nx i) \<and>
     (\<forall>i<n. \<forall>j<n. hm i \<noteq> EMPTY_BUCKET \<longrightarrow> hm j = hm i \<longrightarrow> i < j \<longrightarrow>
        nx i \<noteq> NULL_DELTA \<and> i + nx i \<le> j) \<and>
     (\<forall>i<n. hm i \<noteq> EMPTY_BUCKET \<longrightarrow> fd (hm i) \<noteq> NULL_DELTA \<and> hm i + fd (hm i) \<le> i) \<and>
     (\<forall>h<n. fd h \<noteq> NULL_DELTA \<longrightarrow>
        h + fd h < n \<and> hm (h + fd h) = h \<and> pv (h + fd h) = NULL_DELTA)"

text \<open>
  One step of the hop loop: the occupant of bucket \<open>s\<close> moves to the free bucket \<open>f\<close>.
  \<open>disp_pre\<close> is the situation in which the loop performs the step; \<open>disp_hm\<close>, \<open>disp_nx\<close>,
  \<open>disp_pv\<close> and \<open>disp_fd\<close> are the four functions after it.
\<close>

definition disp_pre where
  "disp_pre H n hm nx pv fd s f \<longleftrightarrow> chains H n hm nx pv fd \<and> s < f \<and> f < n \<and>
     hm s \<noteq> EMPTY_BUCKET \<and> hm f = EMPTY_BUCKET \<and> f < hm s + H \<and> (\<forall>j. s < j \<and> j < f \<longrightarrow> hm j \<noteq> hm s)"

definition disp_hm :: "(nat \<Rightarrow> nat) \<Rightarrow> nat \<Rightarrow> nat \<Rightarrow> nat \<Rightarrow> nat" where
  "disp_hm hm s f = (\<lambda>i. if i = f then hm s else if i = s then EMPTY_BUCKET else hm i)"

definition disp_nx :: "(nat \<Rightarrow> nat) \<Rightarrow> (nat \<Rightarrow> nat) \<Rightarrow> nat \<Rightarrow> nat \<Rightarrow> nat \<Rightarrow> nat" where
  "disp_nx nx pv s f = (\<lambda>i. if i = f then (if nx s = NULL_DELTA then NULL_DELTA else nx s - (f - s))
      else if i = s then NULL_DELTA
      else if pv s \<noteq> NULL_DELTA \<and> i = s - pv s then nx i + (f - s) else nx i)"

definition disp_pv :: "(nat \<Rightarrow> nat) \<Rightarrow> (nat \<Rightarrow> nat) \<Rightarrow> nat \<Rightarrow> nat \<Rightarrow> nat \<Rightarrow> nat" where
  "disp_pv nx pv s f = (\<lambda>i. if i = f then (if pv s = NULL_DELTA then NULL_DELTA else pv s + (f - s))
      else if i = s then NULL_DELTA
      else if nx s \<noteq> NULL_DELTA \<and> i = s + nx s then pv i - (f - s) else pv i)"

definition disp_fd :: "(nat \<Rightarrow> nat) \<Rightarrow> (nat \<Rightarrow> nat) \<Rightarrow> nat \<Rightarrow> nat \<Rightarrow> nat \<Rightarrow> nat" where
  "disp_fd hm fd s f = (\<lambda>i. if i = hm s \<and> s = hm s + fd (hm s) then f - hm s else fd i)"

text \<open>
  The new entry, with home \<open>st\<close>, is written into the free bucket \<open>f\<close> and linked into the
  chain of \<open>st\<close>: behind the bucket \<open>p\<close> (\<open>insA\<close>), or as the new first bucket of the chain
  (\<open>insB\<close>).
\<close>

definition ins_hm :: "(nat \<Rightarrow> nat) \<Rightarrow> nat \<Rightarrow> nat \<Rightarrow> nat \<Rightarrow> nat" where
  "ins_hm hm st f = (\<lambda>i. if i = f then st else hm i)"

definition insA_nx :: "(nat \<Rightarrow> nat) \<Rightarrow> nat \<Rightarrow> nat \<Rightarrow> nat \<Rightarrow> nat" where
  "insA_nx nx p f = (\<lambda>i. if i = f then (if nx p = NULL_DELTA then NULL_DELTA else p + nx p - f)
      else if i = p then f - p else nx i)"

definition insA_pv :: "(nat \<Rightarrow> nat) \<Rightarrow> (nat \<Rightarrow> nat) \<Rightarrow> nat \<Rightarrow> nat \<Rightarrow> nat \<Rightarrow> nat" where
  "insA_pv nx pv p f = (\<lambda>i. if i = f then f - p
      else if nx p \<noteq> NULL_DELTA \<and> i = p + nx p then i - f else pv i)"

definition insA_pre where
  "insA_pre H n hm nx pv fd st p f \<longleftrightarrow> chains H n hm nx pv fd \<and> st \<le> p \<and> p < f \<and> f < n \<and>
     f < st + H \<and> hm f = EMPTY_BUCKET \<and> hm p = st \<and> (\<forall>j. p < j \<and> j < f \<longrightarrow> hm j \<noteq> st)"

definition insB_nx :: "(nat \<Rightarrow> nat) \<Rightarrow> (nat \<Rightarrow> nat) \<Rightarrow> nat \<Rightarrow> nat \<Rightarrow> nat \<Rightarrow> nat" where
  "insB_nx nx fd st f = (\<lambda>i. if i = f then (if fd st = NULL_DELTA then NULL_DELTA else st + fd st - f) else nx i)"

definition insB_pv :: "(nat \<Rightarrow> nat) \<Rightarrow> (nat \<Rightarrow> nat) \<Rightarrow> nat \<Rightarrow> nat \<Rightarrow> nat \<Rightarrow> nat" where
  "insB_pv pv fd st f = (\<lambda>i. if fd st \<noteq> NULL_DELTA \<and> i = st + fd st then i - f else pv i)"

definition insB_fd :: "(nat \<Rightarrow> nat) \<Rightarrow> nat \<Rightarrow> nat \<Rightarrow> nat \<Rightarrow> nat" where
  "insB_fd fd st f = (\<lambda>i. if i = st then f - st else fd i)"

definition insB_pre where
  "insB_pre H n hm nx pv fd st f \<longleftrightarrow> chains H n hm nx pv fd \<and> st \<le> f \<and> f < n \<and>
     f < st + H \<and> hm f = EMPTY_BUCKET \<and> (\<forall>j. st \<le> j \<and> j < f \<longrightarrow> hm j \<noteq> st)"

text \<open>The occupant of bucket \<open>b\<close> is removed and its chain closed over it.\<close>

definition era_hm :: "(nat \<Rightarrow> nat) \<Rightarrow> nat \<Rightarrow> nat \<Rightarrow> nat" where
  "era_hm hm b = (\<lambda>i. if i = b then EMPTY_BUCKET else hm i)"

definition era_nx :: "(nat \<Rightarrow> nat) \<Rightarrow> (nat \<Rightarrow> nat) \<Rightarrow> nat \<Rightarrow> nat \<Rightarrow> nat" where
  "era_nx nx pv b = (\<lambda>i. if i = b then NULL_DELTA
      else if pv b \<noteq> NULL_DELTA \<and> i = b - pv b
           then (if nx b \<noteq> NULL_DELTA then b + nx b - i else NULL_DELTA)
      else nx i)"

definition era_pv :: "(nat \<Rightarrow> nat) \<Rightarrow> (nat \<Rightarrow> nat) \<Rightarrow> nat \<Rightarrow> nat \<Rightarrow> nat" where
  "era_pv nx pv b = (\<lambda>i. if i = b then NULL_DELTA
      else if nx b \<noteq> NULL_DELTA \<and> i = b + nx b
           then (if pv b \<noteq> NULL_DELTA then i - (b - pv b) else NULL_DELTA)
      else pv i)"

definition era_fd :: "(nat \<Rightarrow> nat) \<Rightarrow> (nat \<Rightarrow> nat) \<Rightarrow> (nat \<Rightarrow> nat) \<Rightarrow> (nat \<Rightarrow> nat) \<Rightarrow> nat \<Rightarrow> nat \<Rightarrow> nat" where
  "era_fd hm nx pv fd b = (\<lambda>i. if pv b = NULL_DELTA \<and> i = hm b
      then (if nx b \<noteq> NULL_DELTA then b + nx b - hm b else NULL_DELTA)
      else fd i)"

definition era_pre where
  "era_pre H n hm nx pv fd b \<longleftrightarrow> chains H n hm nx pv fd \<and> b < n \<and> hm b \<noteq> EMPTY_BUCKET"

text \<open>The four functions, and the list iterators, of a table.\<close>

definition hm_of :: "Bucket list \<Rightarrow> nat \<Rightarrow> nat" where "hm_of bs = (\<lambda>i. object_bucket (bs ! i))"

definition nx_of :: "Bucket list \<Rightarrow> nat \<Rightarrow> nat" where "nx_of bs = (\<lambda>i. next_delta (bs ! i))"

definition pv_of :: "Bucket list \<Rightarrow> nat \<Rightarrow> nat" where "pv_of bs = (\<lambda>i. prev_delta (bs ! i))"

definition fd_of :: "Bucket list \<Rightarrow> nat \<Rightarrow> nat" where "fd_of bs = (\<lambda>i. first_delta (bs ! i))"

definition it_of :: "Bucket list \<Rightarrow> nat \<Rightarrow> iterator" where "it_of bs = (\<lambda>i. object_it (bs ! i))"

text \<open>A table that can be allocated and has the chain structure.\<close>

definition tab_ok :: "nat \<Rightarrow> Bucket list \<Rightarrow> bool" where
  "tab_ok H bs \<longleftrightarrow> length bs \<le> max_size \<and>
     chains H (length bs) (hm_of bs) (nx_of bs) (pv_of bs) (fd_of bs)"

text \<open>The buckets an entry can be found in: the occupied ones, with what they hold.\<close>

definition slots :: "Bucket list \<Rightarrow> (iterator \<times> nat) set" where
  "slots bs = {(it_of bs i, hm_of bs i) | i. i < length bs \<and> hm_of bs i \<noteq> EMPTY_BUCKET}"

text \<open>No two occupied buckets designate the same list node.\<close>

definition its_inj :: "Bucket list \<Rightarrow> bool" where
  "its_inj bs \<longleftrightarrow> (\<forall>i<length bs. \<forall>j<length bs. hm_of bs i \<noteq> EMPTY_BUCKET \<longrightarrow>
     hm_of bs j \<noteq> EMPTY_BUCKET \<longrightarrow> it_of bs i = it_of bs j \<longrightarrow> i = j)"

text \<open>What holds whenever the hop loop is at its head.\<close>

definition hop_inv :: "nat \<Rightarrow> Bucket list \<Rightarrow> nat \<Rightarrow> nat \<Rightarrow> bool" where
  "hop_inv H bs start f \<longleftrightarrow> tab_ok H bs \<and> start \<le> f \<and> f < length bs \<and>
     hm_of bs f = EMPTY_BUCKET \<and> (\<forall>j. start \<le> j \<and> j < f \<longrightarrow> hm_of bs j \<noteq> EMPTY_BUCKET)"

text \<open>The two branches of lines 297-313, after the entry has been written.\<close>

definition link_previous :: "Bucket list \<Rightarrow> nat \<Rightarrow> nat \<Rightarrow> Bucket list option" where
  "link_previous bs previous_bucket free_bucket =
     do {
       bs1 \<leftarrow> (if next_delta (bs ! previous_bucket) \<noteq> NULL_DELTA
               then link_after bs (sz_add previous_bucket (next_delta (bs ! previous_bucket))) free_bucket
               else Some bs);
       Some (upd (upd bs1 previous_bucket (\<lambda>b. b\<lparr>next_delta := sz_sub free_bucket previous_bucket\<rparr>))
               free_bucket (\<lambda>b. b\<lparr>prev_delta := sz_sub free_bucket previous_bucket\<rparr>))
     }"

definition link_start :: "Bucket list \<Rightarrow> nat \<Rightarrow> nat \<Rightarrow> Bucket list option" where
  "link_start bs start_bucket free_bucket =
     do {
       bs1 \<leftarrow> (if first_delta (bs ! start_bucket) \<noteq> NULL_DELTA
               then link_after bs (sz_add start_bucket (first_delta (bs ! start_bucket))) free_bucket
               else Some bs);
       Some (upd bs1 start_bucket (\<lambda>b. b\<lparr>first_delta := sz_sub free_bucket start_bucket\<rparr>))
     }"

text \<open>
  The map as a whole. \<open>placed\<close> are the list nodes that some occupied bucket designates.
  In \<open>entries_ok\<close> the nodes of the list have distinct identities and distinct keys. In
  \<open>slots_ok\<close> every occupied bucket designates a node of the list and records the home of
  its key. \<open>table_inv\<close> holds also between the steps of \<open>insert\<close> and \<open>Reallocate\<close>, when
  an entry of the list may not yet be in the table; \<open>inv\<close> holds between the public
  operations.
\<close>

definition placed :: "('k, 'v) HashMap \<Rightarrow> nat set" where
  "placed s = {nd. \<exists>h. (Node nd, h) \<in> slots (buckets s)}"

definition entries_ok :: "('k, 'v) HashMap \<Rightarrow> bool" where
  "entries_ok s \<longleftrightarrow> distinct (map fst (objects s)) \<and> distinct (map (\<lambda>e. fst (snd e)) (objects s))"

definition slots_ok :: "('k, 'v) HashMap \<Rightarrow> bool" where
  "slots_ok s \<longleftrightarrow> (\<forall>x \<in> slots (buckets s). \<exists>nd k v. fst x = Node nd \<and> (nd, k, v) \<in> set (objects s) \<and>
      snd x = hasher s k mod length (buckets s))"

definition table_inv :: "('k, 'v) HashMap \<Rightarrow> bool" where
  "table_inv s \<longleftrightarrow> tab_ok (neighbourhood_size s) (buckets s) \<and> its_inj (buckets s) \<and>
     0 < neighbourhood_size s \<and> neighbourhood_size s \<le> length (buckets s) \<and>
     entries_ok s \<and> slots_ok s"

definition inv :: "('k, 'v) HashMap \<Rightarrow> bool" where
  "inv s \<longleftrightarrow> table_inv s \<and> fst ` set (objects s) \<subseteq> placed s"

text \<open>Bucket \<open>i\<close> is occupied by the entry of the key.\<close>

definition holds :: "('k, 'v) HashMap \<Rightarrow> nat \<Rightarrow> 'k \<Rightarrow> bool" where
  "holds s i key \<longleftrightarrow> i < length (buckets s) \<and> hm_of (buckets s) i \<noteq> EMPTY_BUCKET \<and>
     (\<exists>v. deref s (it_of (buckets s) i) = Some (key, v))"

text \<open>A map whose table can be rebuilt: the entry list is sound and the sizes are in range.\<close>

definition growable :: "('k, 'v) HashMap \<Rightarrow> bool" where
  "growable s \<longleftrightarrow> entries_ok s \<and> 0 < neighbourhood_size s \<and>
     neighbourhood_size s \<le> length (buckets s) \<and> length (buckets s) \<le> max_size"

text \<open>The value the entry list holds for a key.\<close>

definition lookup :: "('k, 'v) HashMap \<Rightarrow> 'k \<Rightarrow> 'v option" where
  "lookup s key = map_of (map snd (objects s)) key"

text \<open>
  The maps a program can hold: built by the constructor (line 25), the copy constructor
  (line 42, which sizes the table of an empty map with \<open>Reallocate\<close> before it inserts)
  and the public operations. The constructors from a range insert into the map of the
  first constructor; the move constructor and the assignments exchange whole maps.
\<close>

inductive reachable :: "('k, 'v) HashMap \<Rightarrow> bool" where
  init: "reachable (HashMap_new h)"
| cpy: "reachable other \<Longrightarrow>
        Reallocate (HashMap_new (hasher other)) (capacity other) (neighbourhood_size other) =
          Some (Inr (handle, s')) \<Longrightarrow> reachable s'"
| ins: "reachable s \<Longrightarrow> insert_hm s kv = Some (Inr (it, s')) \<Longrightarrow> reachable s'"
| era: "reachable s \<Longrightarrow> erase s k = Some s' \<Longrightarrow> reachable s'"
| clr: "reachable s \<Longrightarrow> reachable (clear s)"
| sub: "reachable s \<Longrightarrow> subscript dflt s k = Some (Inr (it, s')) \<Longrightarrow> reachable s'"

text \<open>An example: the map with the identity hasher in which \<open>3\<close> has been given the value \<open>5\<close>.\<close>

definition ex_s1 :: "(nat, nat) HashMap" where
  "ex_s1 = \<lparr>objects = [(1, 3, 5)],
     buckets = [empty_Bucket, empty_Bucket, empty_Bucket,
       \<lparr>object_it = Node 1, first_delta = 0, next_delta = NULL_DELTA, prev_delta = NULL_DELTA, object_bucket = 3\<rparr>],
     neighbourhood_size = 4, hasher = (\<lambda>k. k)\<rparr>"

text \<open>
  A run with a collision. The hasher is the identity. The keys 0, 1, 2 and 3 fill the
  four buckets of a new map (\<open>ex_t1\<close> to \<open>ex_t4\<close>). The insertion of key 12 then finds no
  free bucket from its home 0 on: \<open>HandleCollision\<close> is called on \<open>ex_s2\<close>, which calls
  \<open>Reallocate(12, 4)\<close>; this empties the table (\<open>ex_sA\<close>) and places the five entries
  again, from the front of the list. When the entries of 12, 3, 2 and 1 are placed
  (\<open>ex_sB\<close>, with the table \<open>ex_table\<close>), the entry of key 0 finds the free bucket 4, four
  buckets above its home, and the occupant of bucket 3 hops to bucket 4. The result is
  \<open>ex_t5\<close>.
\<close>

definition bk :: "nat \<Rightarrow> nat \<Rightarrow> nat \<Rightarrow> nat \<Rightarrow> nat \<Rightarrow> Bucket" where
  "bk nd fd nx pv home = \<lparr>object_it = Node nd, first_delta = fd, next_delta = nx,
     prev_delta = pv, object_bucket = home\<rparr>"

definition ex_t1 :: "(nat, nat) HashMap" where
  "ex_t1 = \<lparr>objects = [(1, 0, 10)],
     buckets = [bk 1 0 NULL_DELTA NULL_DELTA 0, empty_Bucket, empty_Bucket, empty_Bucket],
     neighbourhood_size = 4, hasher = (\<lambda>k. k)\<rparr>"

definition ex_t2 :: "(nat, nat) HashMap" where
  "ex_t2 = \<lparr>objects = [(2, 1, 11), (1, 0, 10)],
     buckets = [bk 1 0 NULL_DELTA NULL_DELTA 0, bk 2 0 NULL_DELTA NULL_DELTA 1,
       empty_Bucket, empty_Bucket],
     neighbourhood_size = 4, hasher = (\<lambda>k. k)\<rparr>"

definition ex_t3 :: "(nat, nat) HashMap" where
  "ex_t3 = \<lparr>objects = [(3, 2, 12), (2, 1, 11), (1, 0, 10)],
     buckets = [bk 1 0 NULL_DELTA NULL_DELTA 0, bk 2 0 NULL_DELTA NULL_DELTA 1,
       bk 3 0 NULL_DELTA NULL_DELTA 2, empty_Bucket],
     neighbourhood_size = 4, hasher = (\<lambda>k. k)\<rparr>"

definition ex_t4 :: "(nat, nat) HashMap" where
  "ex_t4 = \<lparr>objects = [(4, 3, 13), (3, 2, 12), (2, 1, 11), (1, 0, 10)],
     buckets = [bk 1 0 NULL_DELTA NULL_DELTA 0, bk 2 0 NULL_DELTA NULL_DELTA 1,
       bk 3 0 NULL_DELTA NULL_DELTA 2, bk 4 0 NULL_DELTA NULL_DELTA 3],
     neighbourhood_size = 4, hasher = (\<lambda>k. k)\<rparr>"

definition ex_s2 :: "(nat, nat) HashMap" where
  "ex_s2 = \<lparr>objects = [(5, 12, 14), (4, 3, 13), (3, 2, 12), (2, 1, 11), (1, 0, 10)],
     buckets = [bk 1 0 NULL_DELTA NULL_DELTA 0, bk 2 0 NULL_DELTA NULL_DELTA 1,
       bk 3 0 NULL_DELTA NULL_DELTA 2, bk 4 0 NULL_DELTA NULL_DELTA 3],
     neighbourhood_size = 4, hasher = (\<lambda>k. k)\<rparr>"

definition ex_sA :: "(nat, nat) HashMap" where
  "ex_sA = \<lparr>objects = [(5, 12, 14), (4, 3, 13), (3, 2, 12), (2, 1, 11), (1, 0, 10)],
     buckets = replicate 12 empty_Bucket,
     neighbourhood_size = 4, hasher = (\<lambda>k. k)\<rparr>"

definition ex_table :: "Bucket list" where
  "ex_table = [bk 5 0 NULL_DELTA NULL_DELTA 0, bk 2 0 NULL_DELTA NULL_DELTA 1,
     bk 3 0 NULL_DELTA NULL_DELTA 2, bk 4 0 NULL_DELTA NULL_DELTA 3,
     empty_Bucket, empty_Bucket, empty_Bucket, empty_Bucket,
     empty_Bucket, empty_Bucket, empty_Bucket, empty_Bucket]"

definition ex_sB :: "(nat, nat) HashMap" where
  "ex_sB = \<lparr>objects = [(5, 12, 14), (4, 3, 13), (3, 2, 12), (2, 1, 11), (1, 0, 10)],
     buckets = ex_table, neighbourhood_size = 4, hasher = (\<lambda>k. k)\<rparr>"

definition ex_t5 :: "(nat, nat) HashMap" where
  "ex_t5 = \<lparr>objects = [(5, 12, 14), (4, 3, 13), (3, 2, 12), (2, 1, 11), (1, 0, 10)],
     buckets = [bk 5 0 3 NULL_DELTA 0, bk 2 0 NULL_DELTA NULL_DELTA 1,
       bk 3 0 NULL_DELTA NULL_DELTA 2, bk 1 1 NULL_DELTA 3 0,
       bk 4 NULL_DELTA NULL_DELTA NULL_DELTA 3, empty_Bucket, empty_Bucket, empty_Bucket,
       empty_Bucket, empty_Bucket, empty_Bucket, empty_Bucket],
     neighbourhood_size = 4, hasher = (\<lambda>k. k)\<rparr>"

text \<open>A second run: key 2 is inserted into a new map and its entry placed in its home bucket.\<close>

definition ex_u1 :: "(nat, nat) HashMap" where
  "ex_u1 = \<lparr>objects = [(1, 2, 7)],
     buckets = [empty_Bucket, empty_Bucket, bk 1 0 NULL_DELTA NULL_DELTA 2, empty_Bucket],
     neighbourhood_size = 4, hasher = (\<lambda>k. k)\<rparr>"

text \<open>
  The traversal of the chain of a home bucket, in the words of the specification: follow
  \<open>first_delta\<close> from the home bucket, then \<open>next_delta\<close> from bucket to bucket until it is
  \<open>NULL_DELTA\<close>; the result is the list of the buckets visited, in the order of the visit.
  \<open>follow\<close> visits at most \<open>fuel\<close> buckets and is \<open>None\<close> when it leaves the table or
  needs more.
\<close>

fun follow :: "Bucket list \<Rightarrow> nat \<Rightarrow> nat \<Rightarrow> nat list option" where
  "follow bs 0 i = None"
| "follow bs (Suc fuel) i =
     (if i < length bs then
        if next_delta (bs ! i) = NULL_DELTA then Some [i]
        else map_option (Cons i) (follow bs fuel (sz_add i (next_delta (bs ! i))))
      else None)"

definition chain_of :: "Bucket list \<Rightarrow> nat \<Rightarrow> nat list option" where
  "chain_of bs h =
     (if first_delta (bs ! h) = NULL_DELTA then Some []
      else follow bs (length bs) (sz_add h (first_delta (bs ! h))))"

text \<open>
  The growth policy in the words of the specification: the new capacity and the new
  neighbourhood size of one rehash, from the entry count, the capacity and the
  neighbourhood size at that moment.
\<close>

definition rehash_policy :: "('k, 'v) HashMap \<Rightarrow> nat \<times> nat" where
  "rehash_policy s =
     (if size_hm s \<ge> capacity s then (capacity s * 3, neighbourhood_size s)
      else if neighbourhood_size s * 3 \<ge> capacity s then (capacity s * 3, neighbourhood_size s * 3)
      else (capacity s, neighbourhood_size s * 3))"

text \<open>
  Collision handling in the words of the specification: the table is rebuilt with the sizes
  of the policy, again and again until every entry has been placed.
\<close>

partial_function (option) rehash :: "('k, 'v) HashMap \<Rightarrow> (error + ('k, 'v) HashMap) option" where
  "rehash s =
     (case Reallocate s (fst (rehash_policy s)) (snd (rehash_policy s)) of
        None \<Rightarrow> None
      | Some (Inl e) \<Rightarrow> Some (Inl e)
      | Some (Inr (handle, s')) \<Rightarrow> if handle then Some (Inr s') else rehash s')"

declare rehash.simps [code]

text \<open>
  Lines 252-264: the occupant the hop loop displaces. \<open>None\<close> is the early
  \<open>return buckets_.end()\<close>; \<open>Some j\<close> is the bucket \<open>fit_bucket\<close> after line 264.
\<close>

definition choose_fit :: "Bucket list \<Rightarrow> nat \<Rightarrow> nat \<Rightarrow> nat option" where
  "choose_fit bs H free_bucket =
     (let fit_bucket = find_fit bs H free_bucket free_bucket in
      if fit_bucket = 0 \<or> sz_add (sz_sub free_bucket fit_bucket) 1 \<ge> H then None
      else Some (fit_bucket - 1))"

text \<open>
  In the words of the specification: the occupant of bucket \<open>j\<close> can move to the free
  bucket \<open>f\<close> without violating the neighbourhood bound of its home.
\<close>

definition can_move :: "Bucket list \<Rightarrow> nat \<Rightarrow> nat \<Rightarrow> nat \<Rightarrow> bool" where
  "can_move bs H f j \<longleftrightarrow> f < object_bucket (bs ! j) + H"

text \<open>
  Lines 253-260 once more, with the bucket indices the loop reads, as integers and in the
  order of the reads, beside its result.
\<close>

function find_fit_trace :: "Bucket list \<Rightarrow> nat \<Rightarrow> nat \<Rightarrow> nat \<Rightarrow> int list \<times> nat" where
  "find_fit_trace bs H free_bucket fit_bucket =
     (if fit_bucket \<noteq> 0 \<and> H > sz_add (sz_sub free_bucket fit_bucket) 1 then
        if H > sz_sub free_bucket (object_bucket (bs ! (fit_bucket - 1)))
        then ([int fit_bucket - 1], fit_bucket)
        else (let r = find_fit_trace bs H free_bucket (fit_bucket - 1)
              in ((int fit_bucket - 1) # fst r, snd r))
      else ([], fit_bucket))"
  by pat_completeness auto

termination
  by (relation "measure (\<lambda>(bs, H, f, i). i)") auto

declare find_fit_trace.simps [simp del]

section \<open>Lemmas\<close>

subsection \<open>The chain structure is kept by displacement, placement and removal\<close>

lemma chains_bound: "chains H n hm nx pv fd \<Longrightarrow> n \<le> EMPTY_BUCKET \<and> n \<le> NULL_DELTA"
  by (simp add: chains_def)

lemma chains_empty: "chains H n hm nx pv fd \<Longrightarrow> i < n \<Longrightarrow> hm i = EMPTY_BUCKET \<Longrightarrow> nx i = NULL_DELTA \<and> pv i = NULL_DELTA"
  by (simp add: chains_def)

lemma chains_near: "chains H n hm nx pv fd \<Longrightarrow> i < n \<Longrightarrow> hm i \<noteq> EMPTY_BUCKET \<Longrightarrow> hm i \<le> i \<and> i < hm i + H"
  by (simp add: chains_def)

lemma chains_head: "chains H n hm nx pv fd \<Longrightarrow> i < n \<Longrightarrow> hm i \<noteq> EMPTY_BUCKET \<Longrightarrow> pv i = NULL_DELTA \<Longrightarrow> hm i + fd (hm i) = i"
  by (simp add: chains_def)

lemma chains_prev: "chains H n hm nx pv fd \<Longrightarrow> i < n \<Longrightarrow> hm i \<noteq> EMPTY_BUCKET \<Longrightarrow> pv i \<noteq> NULL_DELTA \<Longrightarrow>
   0 < pv i \<and> pv i \<le> i \<and> hm (i - pv i) = hm i \<and> nx (i - pv i) = pv i"
  by (simp add: chains_def)

lemma chains_next: "chains H n hm nx pv fd \<Longrightarrow> i < n \<Longrightarrow> hm i \<noteq> EMPTY_BUCKET \<Longrightarrow> nx i \<noteq> NULL_DELTA \<Longrightarrow>
   0 < nx i \<and> i + nx i < n \<and> hm (i + nx i) = hm i \<and> pv (i + nx i) = nx i"
  by (simp add: chains_def)

lemma chains_succ: "chains H n hm nx pv fd \<Longrightarrow> i < n \<Longrightarrow> j < n \<Longrightarrow> hm i \<noteq> EMPTY_BUCKET \<Longrightarrow> hm j = hm i \<Longrightarrow> i < j \<Longrightarrow>
   nx i \<noteq> NULL_DELTA \<and> i + nx i \<le> j"
  by (simp add: chains_def)

lemma chains_first: "chains H n hm nx pv fd \<Longrightarrow> i < n \<Longrightarrow> hm i \<noteq> EMPTY_BUCKET \<Longrightarrow> fd (hm i) \<noteq> NULL_DELTA \<and> hm i + fd (hm i) \<le> i"
  by (simp add: chains_def)

lemma chains_home: "chains H n hm nx pv fd \<Longrightarrow> h < n \<Longrightarrow> fd h \<noteq> NULL_DELTA \<Longrightarrow>
   h + fd h < n \<and> hm (h + fd h) = h \<and> pv (h + fd h) = NULL_DELTA"
  by (simp add: chains_def)

lemma disp_facts:
  assumes "disp_pre H n hm nx pv fd s f"
  shows "s < n" "nx f = NULL_DELTA" "pv f = NULL_DELTA" "hm s \<le> s" "hm s < n" "hm s \<noteq> EMPTY_BUCKET"
    "fd (hm s) \<noteq> NULL_DELTA" "hm s + fd (hm s) \<le> s"
    "pv s = NULL_DELTA \<longleftrightarrow> s = hm s + fd (hm s)"
    "pv s \<noteq> NULL_DELTA \<Longrightarrow> 0 < pv s \<and> pv s \<le> s \<and> hm (s - pv s) = hm s \<and> nx (s - pv s) = pv s"
    "nx s \<noteq> NULL_DELTA \<Longrightarrow> f < s + nx s \<and> s + nx s < n \<and> hm (s + nx s) = hm s \<and> pv (s + nx s) = nx s"
proof -
  from assms have c: "chains H n hm nx pv fd" and sf: "s < f" "f < n" and
    occ: "hm s \<noteq> EMPTY_BUCKET" and emp: "hm f = EMPTY_BUCKET" and
    gap: "\<forall>j. s < j \<and> j < f \<longrightarrow> hm j \<noteq> hm s"
    by (auto simp: disp_pre_def)
  show sn: "s < n" using sf by simp
  show "nx f = NULL_DELTA" "pv f = NULL_DELTA" using chains_empty[OF c sf(2) emp] by auto
  show "hm s \<le> s" using chains_near[OF c sn occ] by simp
  then show hn: "hm s < n" using sn by simp
  show "hm s \<noteq> EMPTY_BUCKET" by fact
  show f0: "fd (hm s) \<noteq> NULL_DELTA" "hm s + fd (hm s) \<le> s" using chains_first[OF c sn occ] by auto
  show "pv s = NULL_DELTA \<longleftrightarrow> s = hm s + fd (hm s)"
    using chains_head[OF c sn occ] chains_home[OF c hn f0(1)] by auto
  show "pv s \<noteq> NULL_DELTA \<Longrightarrow> 0 < pv s \<and> pv s \<le> s \<and> hm (s - pv s) = hm s \<and> nx (s - pv s) = pv s"
    using chains_prev[OF c sn occ] by simp
  show "nx s \<noteq> NULL_DELTA \<Longrightarrow> f < s + nx s \<and> s + nx s < n \<and> hm (s + nx s) = hm s \<and> pv (s + nx s) = nx s"
  proof -
    assume a: "nx s \<noteq> NULL_DELTA"
    note x = chains_next[OF c sn occ a]
    have "s + nx s \<noteq> f" using x emp occ by auto
    moreover have "\<not> (s < s + nx s \<and> s + nx s < f)" using gap x by auto
    ultimately show ?thesis using x by auto
  qed
qed

lemma disp_hm_simps:
  "disp_hm hm s f f = hm s"
  "s \<noteq> f \<Longrightarrow> disp_hm hm s f s = EMPTY_BUCKET"
  "i \<noteq> f \<Longrightarrow> i \<noteq> s \<Longrightarrow> disp_hm hm s f i = hm i"
  by (auto simp: disp_hm_def)

lemma disp_nx_simps:
  "disp_nx nx pv s f f = (if nx s = NULL_DELTA then NULL_DELTA else nx s - (f - s))"
  "s \<noteq> f \<Longrightarrow> disp_nx nx pv s f s = NULL_DELTA"
  "i \<noteq> f \<Longrightarrow> i \<noteq> s \<Longrightarrow> pv s \<noteq> NULL_DELTA \<Longrightarrow> i = s - pv s \<Longrightarrow> disp_nx nx pv s f i = nx i + (f - s)"
  "i \<noteq> f \<Longrightarrow> i \<noteq> s \<Longrightarrow> pv s = NULL_DELTA \<or> i \<noteq> s - pv s \<Longrightarrow> disp_nx nx pv s f i = nx i"
  by (auto simp: disp_nx_def)

lemma disp_pv_simps:
  "disp_pv nx pv s f f = (if pv s = NULL_DELTA then NULL_DELTA else pv s + (f - s))"
  "s \<noteq> f \<Longrightarrow> disp_pv nx pv s f s = NULL_DELTA"
  "i \<noteq> f \<Longrightarrow> i \<noteq> s \<Longrightarrow> nx s \<noteq> NULL_DELTA \<Longrightarrow> i = s + nx s \<Longrightarrow> disp_pv nx pv s f i = pv i - (f - s)"
  "i \<noteq> f \<Longrightarrow> i \<noteq> s \<Longrightarrow> nx s = NULL_DELTA \<or> i \<noteq> s + nx s \<Longrightarrow> disp_pv nx pv s f i = pv i"
  by (auto simp: disp_pv_def)

lemma disp_fd_simps:
  "s = hm s + fd (hm s) \<Longrightarrow> disp_fd hm fd s f (hm s) = f - hm s"
  "s \<noteq> hm s + fd (hm s) \<or> i \<noteq> hm s \<Longrightarrow> disp_fd hm fd s f i = fd i"
  by (auto simp: disp_fd_def)

lemma disp_P1:
  assumes pre: "disp_pre H n hm nx pv fd s f" and i: "i < n"
    and o: "disp_hm hm s f i \<noteq> EMPTY_BUCKET" and p: "disp_pv nx pv s f i \<noteq> NULL_DELTA"
  shows "0 < disp_pv nx pv s f i \<and> disp_pv nx pv s f i \<le> i \<and>
         disp_hm hm s f (i - disp_pv nx pv s f i) = disp_hm hm s f i \<and>
         disp_nx nx pv s f (i - disp_pv nx pv s f i) = disp_pv nx pv s f i"
proof -
  from pre have c: "chains H n hm nx pv fd" and sf: "s < f" "f < n" and
    occ: "hm s \<noteq> EMPTY_BUCKET" and emp: "hm f = EMPTY_BUCKET" and near: "f < hm s + H" and
    gap: "\<And>j. s < j \<Longrightarrow> j < f \<Longrightarrow> hm j \<noteq> hm s"
    by (auto simp: disp_pre_def)
  note F = disp_facts[OF pre]
  note B = chains_bound[OF c]
  consider (f) "i = f" | (s) "i = s" | (q) "i \<noteq> f" "i \<noteq> s" "nx s \<noteq> NULL_DELTA" "i = s + nx s"
    | (other) "i \<noteq> f" "i \<noteq> s" "nx s = NULL_DELTA \<or> i \<noteq> s + nx s" by blast
  then show ?thesis
  proof cases
    case f
    with p have ps: "pv s \<noteq> NULL_DELTA" by (auto simp: disp_pv_simps split: if_splits)
    note Fp = F(10)[OF ps]
    have 1: "disp_pv nx pv s f f = pv s + (f - s)" using ps by (simp add: disp_pv_simps)
    have 2: "f - (pv s + (f - s)) = s - pv s" using Fp sf by arith
    have 3: "s - pv s \<noteq> f" "s - pv s \<noteq> s" using Fp sf by arith+
    show ?thesis unfolding f 1 2 using Fp sf 3 ps
      by (auto simp: disp_hm_simps disp_nx_simps)
  next
    case s
    with o sf show ?thesis by (simp add: disp_hm_simps)
  next
    case q
    note Fn = F(11)[OF q(3)]
    have 1: "disp_pv nx pv s f i = nx s - (f - s)" using q Fn by (simp add: disp_pv_simps)
    have 2: "i - (nx s - (f - s)) = f" using Fn sf q by arith
    show ?thesis unfolding 1 2 using Fn sf q
      by (auto simp: disp_hm_simps disp_nx_simps)
  next
    case other
    have 1: "disp_pv nx pv s f i = pv i" "disp_hm hm s f i = hm i" using other by (simp_all add: disp_pv_simps disp_hm_simps)
    from o p have oi: "hm i \<noteq> EMPTY_BUCKET" "pv i \<noteq> NULL_DELTA" unfolding 1 by auto
    note P = chains_prev[OF c i oi]
    have nf: "i - pv i \<noteq> f" using P emp oi by auto
    have ns: "i - pv i \<noteq> s" using P other B i by auto
    have np: "pv s = NULL_DELTA \<or> i - pv i \<noteq> s - pv s"
      by (metis F(10) P eq_diff_iff other(2))
    show ?thesis unfolding 1 using P nf ns np
      by (auto simp: disp_hm_simps disp_nx_simps)
  qed
qed

lemma disp_X1:
  assumes pre: "disp_pre H n hm nx pv fd s f" and i: "i < n"
    and o: "disp_hm hm s f i \<noteq> EMPTY_BUCKET" and p: "disp_nx nx pv s f i \<noteq> NULL_DELTA"
  shows "0 < disp_nx nx pv s f i \<and> i + disp_nx nx pv s f i < n \<and>
         disp_hm hm s f (i + disp_nx nx pv s f i) = disp_hm hm s f i \<and>
         disp_pv nx pv s f (i + disp_nx nx pv s f i) = disp_nx nx pv s f i"
proof -
  from pre have c: "chains H n hm nx pv fd" and sf: "s < f" "f < n" and
    occ: "hm s \<noteq> EMPTY_BUCKET" and emp: "hm f = EMPTY_BUCKET" and near: "f < hm s + H" and
    gap: "\<And>j. s < j \<Longrightarrow> j < f \<Longrightarrow> hm j \<noteq> hm s"
    by (auto simp: disp_pre_def)
  note F = disp_facts[OF pre]
  note B = chains_bound[OF c]
  consider (f) "i = f" | (s) "i = s" | (p) "i \<noteq> f" "i \<noteq> s" "pv s \<noteq> NULL_DELTA" "i = s - pv s"
    | (other) "i \<noteq> f" "i \<noteq> s" "pv s = NULL_DELTA \<or> i \<noteq> s - pv s" by blast
  then show ?thesis
  proof cases
    case f
    with p have ns: "nx s \<noteq> NULL_DELTA" by (auto simp: disp_nx_simps split: if_splits)
    note Fn = F(11)[OF ns]
    have 1: "disp_nx nx pv s f f = nx s - (f - s)" using ns by (simp add: disp_nx_simps)
    have 2: "f + (nx s - (f - s)) = s + nx s" using Fn sf by arith
    have 3: "s + nx s \<noteq> f" "s + nx s \<noteq> s" using Fn sf by arith+
    show ?thesis unfolding f 1 2 using Fn sf 3 ns
      by (auto simp: disp_hm_simps disp_pv_simps)
  next
    case s
    with o sf show ?thesis by (simp add: disp_hm_simps)
  next
    case p
    note Fp = F(10)[OF p(3)]
    have 1: "disp_nx nx pv s f i = pv s + (f - s)" using p Fp by (simp add: disp_nx_simps)
    have 2: "i + (pv s + (f - s)) = f" using Fp sf p by arith
    show ?thesis unfolding 1 2 using Fp sf p
      by (auto simp: disp_hm_simps disp_pv_simps)
  next
    case other
    have 1: "disp_nx nx pv s f i = nx i" "disp_hm hm s f i = hm i" using other by (simp_all add: disp_nx_simps disp_hm_simps)
    from o p have oi: "hm i \<noteq> EMPTY_BUCKET" "nx i \<noteq> NULL_DELTA" unfolding 1 by auto
    note X = chains_next[OF c i oi]
    have nf: "i + nx i \<noteq> f" using X emp oi by auto
    have ns: "i + nx i \<noteq> s" using X other oi by auto
    have np: "nx s = NULL_DELTA \<or> i + nx i \<noteq> s + nx s"
      using F(11) X other by auto
    show ?thesis unfolding 1 using X nf ns np
      by (auto simp: disp_hm_simps disp_pv_simps)
  qed
qed

lemma disp_X2:
  assumes pre: "disp_pre H n hm nx pv fd s f" and i: "i < n" and j: "j < n"
    and o: "disp_hm hm s f i \<noteq> EMPTY_BUCKET" and e: "disp_hm hm s f j = disp_hm hm s f i" and ij: "i < j"
  shows "disp_nx nx pv s f i \<noteq> NULL_DELTA \<and> i + disp_nx nx pv s f i \<le> j"
proof -
  from pre have c: "chains H n hm nx pv fd" and sf: "s < f" "f < n" and
    occ: "hm s \<noteq> EMPTY_BUCKET" and emp: "hm f = EMPTY_BUCKET" and near: "f < hm s + H" and
    gap: "\<And>j. s < j \<Longrightarrow> j < f \<Longrightarrow> hm j \<noteq> hm s"
    by (auto simp: disp_pre_def)
  note F = disp_facts[OF pre]
  note B = chains_bound[OF c]
  have js: "j \<noteq> s" using o e sf by (auto simp: disp_hm_simps)
  consider (f) "i = f" | (s) "i = s" | (p) "i \<noteq> f" "i \<noteq> s" "pv s \<noteq> NULL_DELTA" "i = s - pv s"
    | (other) "i \<noteq> f" "i \<noteq> s" "pv s = NULL_DELTA \<or> i \<noteq> s - pv s" by blast
  then show ?thesis
  proof cases
    case f
    then have jf: "j \<noteq> f" using ij by simp
    have hj: "hm j = hm s" using e f jf js by (simp add: disp_hm_simps)
    have sj: "s < j" using f ij sf by simp
    note S = chains_succ[OF c F(1) j occ hj sj]
    note Fn = F(11)[OF conjunct1[OF S]]
    show ?thesis using S Fn sf f j B by (auto simp: disp_nx_simps)
  next
    case s
    with o sf show ?thesis by (simp add: disp_hm_simps)
  next
    case p
    note Fp = F(10)[OF p(3)]
    have 1: "disp_nx nx pv s f i = pv s + (f - s)" using p Fp by (simp add: disp_nx_simps)
    have hi: "disp_hm hm s f i = hm s" using p Fp by (simp add: disp_hm_simps)
    have fj: "f \<le> j"
    proof (cases "j = f")
      case True then show ?thesis by simp
    next
      case False
      then have hj: "hm j = hm s" using e hi js by (simp add: disp_hm_simps)
      have "i < n" by fact
      have oi: "hm i \<noteq> EMPTY_BUCKET" "hm j = hm i" using p Fp occ hj by auto
      from chains_succ[OF c i j oi ij] have "s \<le> j" using p Fp by auto
      with js have "s < j" by simp
      with gap[of j] hj False show ?thesis by force
    qed
    show ?thesis unfolding 1 using Fp sf p fj B by auto
  next
    case other
    have 1: "disp_nx nx pv s f i = nx i" "disp_hm hm s f i = hm i" using other by (simp_all add: disp_nx_simps disp_hm_simps)
    from o have oi: "hm i \<noteq> EMPTY_BUCKET" unfolding 1 by auto
    show ?thesis
    proof (cases "j = f")
      case True
      then have hi: "hm s = hm i" using e 1 by (simp add: disp_hm_simps)
      have "i < s" using gap[of i] hi ij True other by force
      from chains_succ[OF c i F(1) oi hi this] show ?thesis unfolding 1 using sf True by auto
    next
      case False
      then have "hm j = hm i" using e js 1 by (simp add: disp_hm_simps)
      from chains_succ[OF c i j oi this ij] show ?thesis unfolding 1 .
    qed
  qed
qed

lemma disp_F0:
  assumes pre: "disp_pre H n hm nx pv fd s f" and i: "i < n"
    and o: "disp_hm hm s f i \<noteq> EMPTY_BUCKET"
  shows "disp_fd hm fd s f (disp_hm hm s f i) \<noteq> NULL_DELTA \<and>
         disp_hm hm s f i + disp_fd hm fd s f (disp_hm hm s f i) \<le> i"
proof -
  from pre have c: "chains H n hm nx pv fd" and sf: "s < f" "f < n" and
    occ: "hm s \<noteq> EMPTY_BUCKET" and emp: "hm f = EMPTY_BUCKET" and near: "f < hm s + H" and
    gap: "\<And>j. s < j \<Longrightarrow> j < f \<Longrightarrow> hm j \<noteq> hm s"
    by (auto simp: disp_pre_def)
  note F = disp_facts[OF pre]
  note B = chains_bound[OF c]
  have nis: "i \<noteq> s" using o sf by (auto simp: disp_hm_simps)
  show ?thesis
  proof (cases "i = f")
    case True
    show ?thesis unfolding True using F sf B by (auto simp: disp_hm_simps disp_fd_def)
  next
    case False
    have 1: "disp_hm hm s f i = hm i" using False nis by (simp add: disp_hm_simps)
    from o have oi: "hm i \<noteq> EMPTY_BUCKET" unfolding 1 .
    note Fi = chains_first[OF c i oi]
    show ?thesis
    proof (cases "hm i = hm s \<and> s = hm s + fd (hm s)")
      case True
      then have "s < i" using Fi nis by auto
      with gap[of i] True False have "f < i" by force
      then show ?thesis unfolding 1 using True F sf B i by (auto simp: disp_fd_def)
    next
      case False
      then show ?thesis unfolding 1 using Fi by (auto simp: disp_fd_def)
    qed
  qed
qed

lemma disp_F1:
  assumes pre: "disp_pre H n hm nx pv fd s f" and h: "h < n"
    and o: "disp_fd hm fd s f h \<noteq> NULL_DELTA"
  shows "h + disp_fd hm fd s f h < n \<and> disp_hm hm s f (h + disp_fd hm fd s f h) = h \<and>
         disp_pv nx pv s f (h + disp_fd hm fd s f h) = NULL_DELTA"
proof -
  from pre have c: "chains H n hm nx pv fd" and sf: "s < f" "f < n" and
    occ: "hm s \<noteq> EMPTY_BUCKET" and emp: "hm f = EMPTY_BUCKET" and near: "f < hm s + H" and
    gap: "\<And>j. s < j \<Longrightarrow> j < f \<Longrightarrow> hm j \<noteq> hm s"
    by (auto simp: disp_pre_def)
  note F = disp_facts[OF pre]
  note B = chains_bound[OF c]
  show ?thesis
  proof (cases "h = hm s \<and> s = hm s + fd (hm s)")
    case True
    then have 1: "disp_fd hm fd s f h = f - hm s" "h + (f - hm s) = f" using F sf by (auto simp: disp_fd_def)
    show ?thesis unfolding 1 using True F sf by (auto simp: disp_hm_simps disp_pv_simps)
  next
    case False
    then have 1: "disp_fd hm fd s f h = fd h" by (auto simp: disp_fd_def)
    from o have oh: "fd h \<noteq> NULL_DELTA" unfolding 1 .
    note Fh = chains_home[OF c h oh]
    have nf: "h + fd h \<noteq> f" using Fh emp h B by auto
    have ns: "h + fd h \<noteq> s" using Fh False by auto
    have nq: "nx s = NULL_DELTA \<or> h + fd h \<noteq> s + nx s" using Fh F(11) by auto
    show ?thesis unfolding 1 using Fh nf ns nq by (auto simp: disp_hm_simps disp_pv_simps)
  qed
qed

lemma chains_displace:
  assumes pre: "disp_pre H n hm nx pv fd s f"
  shows "chains H n (disp_hm hm s f) (disp_nx nx pv s f) (disp_pv nx pv s f) (disp_fd hm fd s f)"
proof -
  from pre have c: "chains H n hm nx pv fd" and sf: "s < f" "f < n" and
    occ: "hm s \<noteq> EMPTY_BUCKET" and emp: "hm f = EMPTY_BUCKET" and near: "f < hm s + H" and
    gap: "\<And>j. s < j \<Longrightarrow> j < f \<Longrightarrow> hm j \<noteq> hm s"
    by (auto simp: disp_pre_def)
  note F = disp_facts[OF pre]
  note B = chains_bound[OF c]
  let ?hm = "disp_hm hm s f" and ?nx = "disp_nx nx pv s f" and ?pv = "disp_pv nx pv s f" and ?fd = "disp_fd hm fd s f"
  have E: "?hm i = EMPTY_BUCKET \<longrightarrow> ?nx i = NULL_DELTA \<and> ?pv i = NULL_DELTA" if "i < n" for i
    using that F chains_empty[OF c that]
    by (auto simp: disp_hm_def disp_nx_def disp_pv_def)
  have N: "?hm i \<noteq> EMPTY_BUCKET \<longrightarrow> ?hm i \<le> i \<and> i < ?hm i + H" if "i < n" for i
    using that F chains_near[OF c that] near sf
    by (auto simp: disp_hm_def)
  have P0: "?hm i \<noteq> EMPTY_BUCKET \<longrightarrow> ?pv i = NULL_DELTA \<longrightarrow> ?hm i + ?fd (?hm i) = i" if "i < n" for i
    using that F chains_head[OF c that] sf B chains_prev[OF c that]
    by (auto simp: disp_hm_def disp_pv_def disp_fd_def)
  show ?thesis
    unfolding chains_def
    using B E N P0 disp_P1[OF pre] disp_X1[OF pre] disp_X2[OF pre] disp_F0[OF pre] disp_F1[OF pre]
    by (intro conjI allI impI) blast+
qed

lemma ins_hm_simps:
  "ins_hm hm st f f = st"
  "i \<noteq> f \<Longrightarrow> ins_hm hm st f i = hm i"
  by (auto simp: ins_hm_def)

lemma insA_nx_simps:
  "insA_nx nx p f f = (if nx p = NULL_DELTA then NULL_DELTA else p + nx p - f)"
  "p \<noteq> f \<Longrightarrow> insA_nx nx p f p = f - p"
  "i \<noteq> f \<Longrightarrow> i \<noteq> p \<Longrightarrow> insA_nx nx p f i = nx i"
  by (auto simp: insA_nx_def)

lemma insA_pv_simps:
  "insA_pv nx pv p f f = f - p"
  "i \<noteq> f \<Longrightarrow> nx p \<noteq> NULL_DELTA \<Longrightarrow> i = p + nx p \<Longrightarrow> insA_pv nx pv p f i = i - f"
  "i \<noteq> f \<Longrightarrow> nx p = NULL_DELTA \<or> i \<noteq> p + nx p \<Longrightarrow> insA_pv nx pv p f i = pv i"
  by (auto simp: insA_pv_def)

lemma insA_facts:
  assumes "insA_pre H n hm nx pv fd st p f"
  shows "p < n" "st < n" "st \<noteq> EMPTY_BUCKET" "hm p \<noteq> EMPTY_BUCKET" "nx f = NULL_DELTA" "pv f = NULL_DELTA"
    "f - p < NULL_DELTA" "0 < f - p"
    "nx p \<noteq> NULL_DELTA \<Longrightarrow> f < p + nx p \<and> p + nx p < n \<and> hm (p + nx p) = st \<and> pv (p + nx p) = nx p"
proof -
  from assms have c: "chains H n hm nx pv fd" and o: "st \<le> p" "p < f" "f < n" and
    emp: "hm f = EMPTY_BUCKET" and hp: "hm p = st" and
    gap: "\<forall>j. p < j \<and> j < f \<longrightarrow> hm j \<noteq> st"
    by (auto simp: insA_pre_def)
  note B = chains_bound[OF c]
  show pn: "p < n" using o by simp
  show "st < n" using o by simp
  show se: "st \<noteq> EMPTY_BUCKET" using o B by simp
  show pe: "hm p \<noteq> EMPTY_BUCKET" using hp se by simp
  show "nx f = NULL_DELTA" "pv f = NULL_DELTA" using chains_empty[OF c o(3) emp] by auto
  show "f - p < NULL_DELTA" "0 < f - p" using o B by auto
  show "nx p \<noteq> NULL_DELTA \<Longrightarrow> f < p + nx p \<and> p + nx p < n \<and> hm (p + nx p) = st \<and> pv (p + nx p) = nx p"
  proof -
    assume a: "nx p \<noteq> NULL_DELTA"
    note x = chains_next[OF c pn pe a]
    have "p + nx p \<noteq> f" using x emp pe by auto
    moreover have "\<not> (p < p + nx p \<and> p + nx p < f)" using gap x hp by auto
    ultimately show ?thesis using x hp by auto
  qed
qed

lemma chains_installA:
  assumes pre: "insA_pre H n hm nx pv fd st p f"
  shows "chains H n (ins_hm hm st f) (insA_nx nx p f) (insA_pv nx pv p f) fd"
proof -
  from pre have c: "chains H n hm nx pv fd" and o: "st \<le> p" "p < f" "f < n" and near: "f < st + H" and
    emp: "hm f = EMPTY_BUCKET" and hp: "hm p = st" and
    gap: "\<And>j. p < j \<Longrightarrow> j < f \<Longrightarrow> hm j \<noteq> st"
    by (auto simp: insA_pre_def)
  note F = insA_facts[OF pre]
  note B = chains_bound[OF c]
  let ?hm = "ins_hm hm st f" and ?nx = "insA_nx nx p f" and ?pv = "insA_pv nx pv p f"
  have E: "?nx i = NULL_DELTA \<and> ?pv i = NULL_DELTA" if "i < n" "?hm i = EMPTY_BUCKET" for i
  proof -
    have "i \<noteq> f" using that F by (auto simp: ins_hm_simps)
    then have hi: "hm i = EMPTY_BUCKET" using that by (simp add: ins_hm_simps)
    then have "i \<noteq> p" using F by auto
    moreover have "nx p = NULL_DELTA \<or> i \<noteq> p + nx p" using F(9) hi F(3) by auto
    ultimately show ?thesis using chains_empty[OF c that(1) hi] \<open>i \<noteq> f\<close>
      by (simp add: insA_nx_simps insA_pv_simps)
  qed
  have N: "?hm i \<le> i \<and> i < ?hm i + H" if "i < n" "?hm i \<noteq> EMPTY_BUCKET" for i
    using that chains_near[OF c that(1)] near o by (cases "i = f") (auto simp: ins_hm_simps)
  have P0: "?hm i + fd (?hm i) = i" if "i < n" "?hm i \<noteq> EMPTY_BUCKET" "?pv i = NULL_DELTA" for i
  proof -
    have nf: "i \<noteq> f" using that F by (auto simp: insA_pv_simps)
    have nq: "nx p = NULL_DELTA \<or> i \<noteq> p + nx p"
    proof (rule ccontr)
      assume "\<not> ?thesis"
      then have "?pv i = i - f" "i - f < NULL_DELTA" using nf that(1) B by (auto simp: insA_pv_simps)
      with that show False by simp
    qed
    show ?thesis using that nf nq chains_head[OF c that(1)] by (simp add: ins_hm_simps insA_pv_simps)
  qed
  have P1: "0 < ?pv i \<and> ?pv i \<le> i \<and> ?hm (i - ?pv i) = ?hm i \<and> ?nx (i - ?pv i) = ?pv i"
    if "i < n" "?hm i \<noteq> EMPTY_BUCKET" "?pv i \<noteq> NULL_DELTA" for i
  proof -
    consider (f) "i = f" | (q) "i \<noteq> f" "nx p \<noteq> NULL_DELTA" "i = p + nx p"
      | (other) "i \<noteq> f" "nx p = NULL_DELTA \<or> i \<noteq> p + nx p" by blast
    then show ?thesis
    proof cases
      case f
      have 1: "f - (f - p) = p" using o by arith
      show ?thesis unfolding f using o hp F 1 by (auto simp: ins_hm_simps insA_pv_simps insA_nx_simps)
    next
      case q
      note Fq = F(9)[OF q(2)]
      have 1: "?pv i = i - f" using q by (simp add: insA_pv_simps)
      have 2: "i - (i - f) = f" using q Fq by arith
      show ?thesis unfolding 1 2 using q Fq by (auto simp: ins_hm_simps insA_nx_simps)
    next
      case other
      have 1: "?pv i = pv i" "?hm i = hm i" using other by (simp_all add: insA_pv_simps ins_hm_simps)
      from that have oi: "hm i \<noteq> EMPTY_BUCKET" "pv i \<noteq> NULL_DELTA" unfolding 1 by auto
      note P = chains_prev[OF c that(1) oi]
      have nf: "i - pv i \<noteq> f" using P emp oi by auto
      have np: "i - pv i \<noteq> p" using P other oi by auto
      show ?thesis unfolding 1 using P nf np by (auto simp: ins_hm_simps insA_nx_simps)
    qed
  qed
  have X1: "0 < ?nx i \<and> i + ?nx i < n \<and> ?hm (i + ?nx i) = ?hm i \<and> ?pv (i + ?nx i) = ?nx i"
    if "i < n" "?hm i \<noteq> EMPTY_BUCKET" "?nx i \<noteq> NULL_DELTA" for i
  proof -
    consider (f) "i = f" | (p) "i = p" | (other) "i \<noteq> f" "i \<noteq> p" by blast
    then show ?thesis
    proof cases
      case f
      with that have ns: "nx p \<noteq> NULL_DELTA" by (auto simp: insA_nx_simps split: if_splits)
      note Fq = F(9)[OF ns]
      have 1: "?nx f = p + nx p - f" using ns by (simp add: insA_nx_simps)
      have 2: "f + (p + nx p - f) = p + nx p" using Fq by arith
      show ?thesis unfolding f 1 2 using Fq ns by (auto simp: ins_hm_simps insA_pv_simps)
    next
      case p
      have 1: "?nx p = f - p" "p + (f - p) = f" using o by (auto simp: insA_nx_simps)
      show ?thesis unfolding p 1 using o hp by (auto simp: ins_hm_simps insA_pv_simps)
    next
      case other
      have 1: "?nx i = nx i" "?hm i = hm i" using other by (simp_all add: insA_nx_simps ins_hm_simps)
      from that have oi: "hm i \<noteq> EMPTY_BUCKET" "nx i \<noteq> NULL_DELTA" unfolding 1 by auto
      note X = chains_next[OF c that(1) oi]
      have nf: "i + nx i \<noteq> f" using X emp oi by auto
      have nq: "nx p = NULL_DELTA \<or> i + nx i \<noteq> p + nx p" using F(9) X other by auto
      show ?thesis unfolding 1 using X nf nq by (auto simp: ins_hm_simps insA_pv_simps)
    qed
  qed
  have X2: "?nx i \<noteq> NULL_DELTA \<and> i + ?nx i \<le> j"
    if "i < n" "j < n" "?hm i \<noteq> EMPTY_BUCKET" "?hm j = ?hm i" "i < j" for i j
  proof -
    consider (f) "i = f" | (p) "i = p" | (other) "i \<noteq> f" "i \<noteq> p" by blast
    then show ?thesis
    proof cases
      case f
      then have hj: "hm j = hm p" using that hp by (auto simp: ins_hm_simps)
      have pj: "p < j" using f that o by simp
      note S = chains_succ[OF c F(1) that(2) F(4) hj pj]
      note Fq = F(9)[OF conjunct1[OF S]]
      show ?thesis unfolding f using S Fq B by (auto simp: insA_nx_simps)
    next
      case p
      have 1: "?nx p = f - p" using o by (auto simp: insA_nx_simps)
      have "f \<le> j"
      proof (cases "j = f")
        case False
        then have "hm j = st" using that p hp o by (auto simp: ins_hm_simps)
        with gap[of j] that p False show ?thesis by force
      qed simp
      then show ?thesis unfolding p 1 using o F by auto
    next
      case other
      have 1: "?nx i = nx i" "?hm i = hm i" using other by (simp_all add: insA_nx_simps ins_hm_simps)
      from that have oi: "hm i \<noteq> EMPTY_BUCKET" unfolding 1 by auto
      show ?thesis
      proof (cases "j = f")
        case True
        then have hi: "hm p = hm i" using that 1 hp by (simp add: ins_hm_simps)
        have "i < p" using gap[of i] hi hp that True other by force
        from chains_succ[OF c that(1) F(1) oi hi this] show ?thesis unfolding 1 using o True by auto
      next
        case False
        then have "hm j = hm i" using that 1 by (simp add: ins_hm_simps)
        from chains_succ[OF c that(1,2) oi this that(5)] show ?thesis unfolding 1 .
      qed
    qed
  qed
  have F0: "fd (?hm i) \<noteq> NULL_DELTA \<and> ?hm i + fd (?hm i) \<le> i" if "i < n" "?hm i \<noteq> EMPTY_BUCKET" for i
  proof (cases "i = f")
    case True
    show ?thesis unfolding True using chains_first[OF c F(1) F(4)] hp o by (auto simp: ins_hm_simps)
  next
    case False
    then show ?thesis using that chains_first[OF c that(1)] by (simp add: ins_hm_simps)
  qed
  have F1: "h + fd h < n \<and> ?hm (h + fd h) = h \<and> ?pv (h + fd h) = NULL_DELTA" if "h < n" "fd h \<noteq> NULL_DELTA" for h
  proof -
    note Fh = chains_home[OF c that]
    have nf: "h + fd h \<noteq> f" using Fh emp that B by auto
    have nq: "nx p = NULL_DELTA \<or> h + fd h \<noteq> p + nx p" using Fh F(9) by auto
    show ?thesis using Fh nf nq by (auto simp: ins_hm_simps insA_pv_simps)
  qed
  show ?thesis
    unfolding chains_def
    using B E N P0 P1 X1 X2 F0 F1
    by (intro conjI allI impI) blast+
qed

lemma insB_nx_simps:
  "insB_nx nx fd st f f = (if fd st = NULL_DELTA then NULL_DELTA else st + fd st - f)"
  "i \<noteq> f \<Longrightarrow> insB_nx nx fd st f i = nx i"
  by (auto simp: insB_nx_def)

lemma insB_pv_simps:
  "fd st \<noteq> NULL_DELTA \<Longrightarrow> i = st + fd st \<Longrightarrow> insB_pv pv fd st f i = i - f"
  "fd st = NULL_DELTA \<or> i \<noteq> st + fd st \<Longrightarrow> insB_pv pv fd st f i = pv i"
  by (auto simp: insB_pv_def)

lemma insB_fd_simps:
  "insB_fd fd st f st = f - st"
  "i \<noteq> st \<Longrightarrow> insB_fd fd st f i = fd i"
  by (auto simp: insB_fd_def)

lemma insB_facts:
  assumes "insB_pre H n hm nx pv fd st f"
  shows "st < n" "st \<noteq> EMPTY_BUCKET" "nx f = NULL_DELTA" "pv f = NULL_DELTA"
    "f - st < NULL_DELTA"
    "fd st \<noteq> NULL_DELTA \<Longrightarrow> f < st + fd st \<and> st + fd st < n \<and> hm (st + fd st) = st \<and> pv (st + fd st) = NULL_DELTA"
    "\<And>i. i < n \<Longrightarrow> hm i = st \<Longrightarrow> fd st \<noteq> NULL_DELTA \<and> st + fd st \<le> i \<and> f < i"
proof -
  from assms have c: "chains H n hm nx pv fd" and o: "st \<le> f" "f < n" and
    emp: "hm f = EMPTY_BUCKET" and
    gap: "\<forall>j. st \<le> j \<and> j < f \<longrightarrow> hm j \<noteq> st"
    by (auto simp: insB_pre_def)
  note B = chains_bound[OF c]
  show sn: "st < n" using o by simp
  show se: "st \<noteq> EMPTY_BUCKET" using o B by simp
  show "nx f = NULL_DELTA" "pv f = NULL_DELTA" using chains_empty[OF c o(2) emp] by auto
  show "f - st < NULL_DELTA" using o B by auto
  show q: "fd st \<noteq> NULL_DELTA \<Longrightarrow> f < st + fd st \<and> st + fd st < n \<and> hm (st + fd st) = st \<and> pv (st + fd st) = NULL_DELTA"
  proof -
    assume a: "fd st \<noteq> NULL_DELTA"
    note x = chains_home[OF c sn a]
    have "st + fd st \<noteq> f" using x emp se by auto
    moreover have "\<not> (st \<le> st + fd st \<and> st + fd st < f)" using gap x by auto
    ultimately show ?thesis using x by auto
  qed
  show "\<And>i. i < n \<Longrightarrow> hm i = st \<Longrightarrow> fd st \<noteq> NULL_DELTA \<and> st + fd st \<le> i \<and> f < i"
  proof -
    fix i assume i: "i < n" "hm i = st"
    then have "hm i \<noteq> EMPTY_BUCKET" using se by simp
    from chains_first[OF c i(1) this] i have 1: "fd st \<noteq> NULL_DELTA" "st + fd st \<le> i" by auto
    with q show "fd st \<noteq> NULL_DELTA \<and> st + fd st \<le> i \<and> f < i" by auto
  qed
qed

lemma chains_installB:
  assumes pre: "insB_pre H n hm nx pv fd st f"
  shows "chains H n (ins_hm hm st f) (insB_nx nx fd st f) (insB_pv pv fd st f) (insB_fd fd st f)"
proof -
  from pre have c: "chains H n hm nx pv fd" and o: "st \<le> f" "f < n" and near: "f < st + H" and
    emp: "hm f = EMPTY_BUCKET" and
    gap: "\<And>j. st \<le> j \<Longrightarrow> j < f \<Longrightarrow> hm j \<noteq> st"
    by (auto simp: insB_pre_def)
  note F = insB_facts[OF pre]
  note B = chains_bound[OF c]
  let ?hm = "ins_hm hm st f" and ?nx = "insB_nx nx fd st f" and ?pv = "insB_pv pv fd st f" and ?fd = "insB_fd fd st f"
  have fq: "fd st = NULL_DELTA \<or> f \<noteq> st + fd st" using F(6) by auto
  have E: "?nx i = NULL_DELTA \<and> ?pv i = NULL_DELTA" if "i < n" "?hm i = EMPTY_BUCKET" for i
  proof -
    have "i \<noteq> f" using that F by (auto simp: ins_hm_simps)
    then have hi: "hm i = EMPTY_BUCKET" using that by (simp add: ins_hm_simps)
    have "fd st = NULL_DELTA \<or> i \<noteq> st + fd st" using F(6) hi F(2) by auto
    then show ?thesis using chains_empty[OF c that(1) hi] \<open>i \<noteq> f\<close>
      by (simp add: insB_nx_simps insB_pv_simps)
  qed
  have N: "?hm i \<le> i \<and> i < ?hm i + H" if "i < n" "?hm i \<noteq> EMPTY_BUCKET" for i
    using that chains_near[OF c that(1)] near o by (cases "i = f") (auto simp: ins_hm_simps)
  have P0: "?hm i + ?fd (?hm i) = i" if "i < n" "?hm i \<noteq> EMPTY_BUCKET" "?pv i = NULL_DELTA" for i
  proof (cases "i = f")
    case True
    show ?thesis unfolding True using o by (simp add: ins_hm_simps insB_fd_simps)
  next
    case False
    have nq: "fd st = NULL_DELTA \<or> i \<noteq> st + fd st"
    proof (rule ccontr)
      assume "\<not> ?thesis"
      then have "?pv i = i - f" "i - f < NULL_DELTA" using that(1) B by (auto simp: insB_pv_simps)
      with that show False by simp
    qed
    have 1: "?hm i = hm i" "?pv i = pv i" using False nq by (simp_all add: ins_hm_simps insB_pv_simps)
    from that have oi: "hm i \<noteq> EMPTY_BUCKET" "pv i = NULL_DELTA" unfolding 1 by auto
    note Hd = chains_head[OF c that(1) oi]
    have "hm i \<noteq> st" using F(7)[OF that(1)] Hd nq by auto
    then show ?thesis unfolding 1 using Hd by (simp add: insB_fd_simps)
  qed
  have P1: "0 < ?pv i \<and> ?pv i \<le> i \<and> ?hm (i - ?pv i) = ?hm i \<and> ?nx (i - ?pv i) = ?pv i"
    if "i < n" "?hm i \<noteq> EMPTY_BUCKET" "?pv i \<noteq> NULL_DELTA" for i
  proof -
    consider (q) "fd st \<noteq> NULL_DELTA" "i = st + fd st"
      | (other) "fd st = NULL_DELTA \<or> i \<noteq> st + fd st" by blast
    then show ?thesis
    proof cases
      case q
      note Fq = F(6)[OF q(1)]
      have 1: "?pv i = i - f" using q by (simp add: insB_pv_simps)
      have 2: "i - (i - f) = f" using q Fq by arith
      have 3: "i \<noteq> f" using q Fq by simp
      show ?thesis unfolding 1 2 using q Fq 3 by (auto simp: ins_hm_simps insB_nx_simps)
    next
      case other
      have 1: "?pv i = pv i" using other by (simp_all add: insB_pv_simps)
      have nf: "i \<noteq> f" using that F(4) unfolding 1 by auto
      have 2: "?hm i = hm i" using nf by (simp add: ins_hm_simps)
      from that have oi: "hm i \<noteq> EMPTY_BUCKET" "pv i \<noteq> NULL_DELTA" unfolding 1 2 by auto
      note P = chains_prev[OF c that(1) oi]
      have nf: "i - pv i \<noteq> f" using P emp oi by auto
      show ?thesis unfolding 1 2 using P nf by (auto simp: ins_hm_simps insB_nx_simps)
    qed
  qed
  have X1: "0 < ?nx i \<and> i + ?nx i < n \<and> ?hm (i + ?nx i) = ?hm i \<and> ?pv (i + ?nx i) = ?nx i"
    if "i < n" "?hm i \<noteq> EMPTY_BUCKET" "?nx i \<noteq> NULL_DELTA" for i
  proof (cases "i = f")
    case True
    with that have ns: "fd st \<noteq> NULL_DELTA" by (auto simp: insB_nx_simps split: if_splits)
    note Fq = F(6)[OF ns]
    have 1: "?nx f = st + fd st - f" using ns by (simp add: insB_nx_simps)
    have 2: "f + (st + fd st - f) = st + fd st" using Fq by arith
    have 3: "st + fd st \<noteq> f" using Fq by simp
    show ?thesis unfolding True 1 2 using Fq ns 3 by (auto simp: ins_hm_simps insB_pv_simps)
  next
    case False
    have 1: "?nx i = nx i" "?hm i = hm i" using False by (simp_all add: insB_nx_simps ins_hm_simps)
    from that have oi: "hm i \<noteq> EMPTY_BUCKET" "nx i \<noteq> NULL_DELTA" unfolding 1 by auto
    note X = chains_next[OF c that(1) oi]
    have nf: "i + nx i \<noteq> f" using X emp oi by auto
    have nq: "fd st = NULL_DELTA \<or> i + nx i \<noteq> st + fd st" using F(6) X oi by auto
    show ?thesis unfolding 1 using X nf nq by (auto simp: ins_hm_simps insB_pv_simps)
  qed
  have X2: "?nx i \<noteq> NULL_DELTA \<and> i + ?nx i \<le> j"
    if "i < n" "j < n" "?hm i \<noteq> EMPTY_BUCKET" "?hm j = ?hm i" "i < j" for i j
  proof (cases "i = f")
    case True
    then have hj: "hm j = st" using that by (auto simp: ins_hm_simps)
    note Fj = F(7)[OF that(2) hj]
    note Fq = F(6)[OF conjunct1[OF Fj]]
    show ?thesis unfolding True using Fj Fq B by (auto simp: insB_nx_simps)
  next
    case False
    have 1: "?nx i = nx i" "?hm i = hm i" using False by (simp_all add: insB_nx_simps ins_hm_simps)
    from that have oi: "hm i \<noteq> EMPTY_BUCKET" unfolding 1 by auto
    show ?thesis
    proof (cases "j = f")
      case True
      then have hi: "hm i = st" using that 1 by (simp add: ins_hm_simps)
      from F(7)[OF that(1) hi] that True show ?thesis by simp
    next
      case False
      then have "hm j = hm i" using that 1 by (simp add: ins_hm_simps)
      from chains_succ[OF c that(1,2) oi this that(5)] show ?thesis unfolding 1 .
    qed
  qed
  have F0: "?fd (?hm i) \<noteq> NULL_DELTA \<and> ?hm i + ?fd (?hm i) \<le> i" if "i < n" "?hm i \<noteq> EMPTY_BUCKET" for i
  proof (cases "i = f")
    case True
    show ?thesis unfolding True using o F by (auto simp: ins_hm_simps insB_fd_simps)
  next
    case False
    have 1: "?hm i = hm i" using False by (simp add: ins_hm_simps)
    from that have oi: "hm i \<noteq> EMPTY_BUCKET" unfolding 1 by simp
    show ?thesis
    proof (cases "hm i = st")
      case True
      from F(7)[OF that(1) True] show ?thesis unfolding 1 True using o F(5) by (auto simp: insB_fd_simps)
    next
      case False
      then show ?thesis unfolding 1 using chains_first[OF c that(1) oi] by (simp add: insB_fd_simps)
    qed
  qed
  have F1: "h + ?fd h < n \<and> ?hm (h + ?fd h) = h \<and> ?pv (h + ?fd h) = NULL_DELTA" if "h < n" "?fd h \<noteq> NULL_DELTA" for h
  proof (cases "h = st")
    case True
    have 1: "?fd st = f - st" "st + (f - st) = f" using o by (auto simp: insB_fd_simps)
    show ?thesis unfolding True 1 using o F fq by (auto simp: ins_hm_simps insB_pv_simps)
  next
    case False
    have 1: "?fd h = fd h" using False by (simp add: insB_fd_simps)
    from that have oh: "fd h \<noteq> NULL_DELTA" unfolding 1 by simp
    note Fh = chains_home[OF c that(1) oh]
    have nf: "h + fd h \<noteq> f" using Fh emp that B by auto
    have nq: "fd st = NULL_DELTA \<or> h + fd h \<noteq> st + fd st" using Fh F(6) False by auto
    show ?thesis unfolding 1 using Fh nf nq by (auto simp: ins_hm_simps insB_pv_simps)
  qed
  show ?thesis
    unfolding chains_def
    using B E N P0 P1 X1 X2 F0 F1
    by (intro conjI allI impI) blast+
qed

lemma era_hm_simps:
  "era_hm hm b b = EMPTY_BUCKET"
  "i \<noteq> b \<Longrightarrow> era_hm hm b i = hm i"
  by (auto simp: era_hm_def)

lemma era_nx_simps:
  "era_nx nx pv b b = NULL_DELTA"
  "i \<noteq> b \<Longrightarrow> pv b \<noteq> NULL_DELTA \<Longrightarrow> i = b - pv b \<Longrightarrow>
     era_nx nx pv b i = (if nx b \<noteq> NULL_DELTA then b + nx b - i else NULL_DELTA)"
  "i \<noteq> b \<Longrightarrow> pv b = NULL_DELTA \<or> i \<noteq> b - pv b \<Longrightarrow> era_nx nx pv b i = nx i"
  by (auto simp: era_nx_def)

lemma era_pv_simps:
  "era_pv nx pv b b = NULL_DELTA"
  "i \<noteq> b \<Longrightarrow> nx b \<noteq> NULL_DELTA \<Longrightarrow> i = b + nx b \<Longrightarrow>
     era_pv nx pv b i = (if pv b \<noteq> NULL_DELTA then i - (b - pv b) else NULL_DELTA)"
  "i \<noteq> b \<Longrightarrow> nx b = NULL_DELTA \<or> i \<noteq> b + nx b \<Longrightarrow> era_pv nx pv b i = pv i"
  by (auto simp: era_pv_def)

lemma era_fd_simps:
  "pv b = NULL_DELTA \<Longrightarrow> era_fd hm nx pv fd b (hm b) = (if nx b \<noteq> NULL_DELTA then b + nx b - hm b else NULL_DELTA)"
  "pv b \<noteq> NULL_DELTA \<or> i \<noteq> hm b \<Longrightarrow> era_fd hm nx pv fd b i = fd i"
  by (auto simp: era_fd_def)

lemma era_facts:
  assumes "era_pre H n hm nx pv fd b"
  shows "hm b \<le> b" "hm b < n"
    "pv b = NULL_DELTA \<Longrightarrow> hm b + fd (hm b) = b"
    "pv b \<noteq> NULL_DELTA \<Longrightarrow> 0 < pv b \<and> pv b \<le> b \<and> hm (b - pv b) = hm b \<and> nx (b - pv b) = pv b"
    "nx b \<noteq> NULL_DELTA \<Longrightarrow> 0 < nx b \<and> b + nx b < n \<and> hm (b + nx b) = hm b \<and> pv (b + nx b) = nx b"
    "\<And>j. j < n \<Longrightarrow> hm j = hm b \<Longrightarrow> b < j \<Longrightarrow> nx b \<noteq> NULL_DELTA \<and> b + nx b \<le> j"
proof -
  from assms have c: "chains H n hm nx pv fd" and b: "b < n" and o: "hm b \<noteq> EMPTY_BUCKET"
    by (auto simp: era_pre_def)
  show "hm b \<le> b" using chains_near[OF c b o] by simp
  then show "hm b < n" using b by simp
  show "pv b = NULL_DELTA \<Longrightarrow> hm b + fd (hm b) = b" using chains_head[OF c b o] by simp
  show "pv b \<noteq> NULL_DELTA \<Longrightarrow> 0 < pv b \<and> pv b \<le> b \<and> hm (b - pv b) = hm b \<and> nx (b - pv b) = pv b"
    using chains_prev[OF c b o] by simp
  show "nx b \<noteq> NULL_DELTA \<Longrightarrow> 0 < nx b \<and> b + nx b < n \<and> hm (b + nx b) = hm b \<and> pv (b + nx b) = nx b"
    using chains_next[OF c b o] by simp
  show "\<And>j. j < n \<Longrightarrow> hm j = hm b \<Longrightarrow> b < j \<Longrightarrow> nx b \<noteq> NULL_DELTA \<and> b + nx b \<le> j"
    using chains_succ[OF c b _ o] by simp
qed

lemma chains_erase:
  assumes pre: "era_pre H n hm nx pv fd b"
  shows "chains H n (era_hm hm b) (era_nx nx pv b) (era_pv nx pv b) (era_fd hm nx pv fd b)"
proof -
  from pre have c: "chains H n hm nx pv fd" and b: "b < n" and o: "hm b \<noteq> EMPTY_BUCKET"
    by (auto simp: era_pre_def)
  note F = era_facts[OF pre]
  note B = chains_bound[OF c]
  let ?hm = "era_hm hm b" and ?nx = "era_nx nx pv b" and ?pv = "era_pv nx pv b" and ?fd = "era_fd hm nx pv fd b"
  have E: "?nx i = NULL_DELTA \<and> ?pv i = NULL_DELTA" if "i < n" "?hm i = EMPTY_BUCKET" for i
  proof (cases "i = b")
    case True then show ?thesis by (simp add: era_nx_simps era_pv_simps)
  next
    case False
    then have hi: "hm i = EMPTY_BUCKET" using that by (simp add: era_hm_simps)
    have "pv b = NULL_DELTA \<or> i \<noteq> b - pv b" using F(4) hi o by auto
    moreover have "nx b = NULL_DELTA \<or> i \<noteq> b + nx b" using F(5) hi o by auto
    ultimately show ?thesis using chains_empty[OF c that(1) hi] False
      by (simp add: era_nx_simps era_pv_simps)
  qed
  have N: "?hm i \<le> i \<and> i < ?hm i + H" if "i < n" "?hm i \<noteq> EMPTY_BUCKET" for i
    using that chains_near[OF c that(1)] by (cases "i = b") (auto simp: era_hm_simps)
  have P0: "?hm i + ?fd (?hm i) = i" if "i < n" "?hm i \<noteq> EMPTY_BUCKET" "?pv i = NULL_DELTA" for i
  proof -
    have nb: "i \<noteq> b" using that by (auto simp: era_hm_simps)
    have 1: "?hm i = hm i" using nb by (simp add: era_hm_simps)
    from that have oi: "hm i \<noteq> EMPTY_BUCKET" unfolding 1 by simp
    show ?thesis
    proof (cases "nx b \<noteq> NULL_DELTA \<and> i = b + nx b")
      case True
      note Fq = F(5)[OF conjunct1[OF True]]
      have pb: "pv b = NULL_DELTA"
      proof (rule ccontr)
        assume a: "pv b \<noteq> NULL_DELTA"
        then have "?pv i = i - (b - pv b)" using True nb by (simp add: era_pv_simps)
        moreover have "i - (b - pv b) < NULL_DELTA" using that(1) B F(4)[OF a] by auto
        ultimately show False using that by simp
      qed
      have "hm i = hm b" using True Fq by simp
      then show ?thesis unfolding 1 using pb True F(1) Fq by (simp add: era_fd_simps)
    next
      case False
      then have 2: "?pv i = pv i" using nb by (auto simp: era_pv_simps)
      from that have pi: "pv i = NULL_DELTA" unfolding 2 by simp
      note Hd = chains_head[OF c that(1) oi pi]
      have "pv b \<noteq> NULL_DELTA \<or> hm i \<noteq> hm b" using Hd F(3) nb by auto
      then show ?thesis unfolding 1 using Hd by (auto simp: era_fd_simps)
    qed
  qed
  have P1: "0 < ?pv i \<and> ?pv i \<le> i \<and> ?hm (i - ?pv i) = ?hm i \<and> ?nx (i - ?pv i) = ?pv i"
    if "i < n" "?hm i \<noteq> EMPTY_BUCKET" "?pv i \<noteq> NULL_DELTA" for i
  proof -
    have nb: "i \<noteq> b" using that by (auto simp: era_hm_simps)
    have 1: "?hm i = hm i" using nb by (simp add: era_hm_simps)
    from that have oi: "hm i \<noteq> EMPTY_BUCKET" unfolding 1 by simp
    show ?thesis
    proof (cases "nx b \<noteq> NULL_DELTA \<and> i = b + nx b")
      case True
      note Fq = F(5)[OF conjunct1[OF True]]
      have pb: "pv b \<noteq> NULL_DELTA" using that True nb by (auto simp: era_pv_simps split: if_splits)
      note Fp = F(4)[OF pb]
      have 2: "?pv i = i - (b - pv b)" using True nb pb by (simp add: era_pv_simps)
      have 3: "i - (i - (b - pv b)) = b - pv b" using True Fp Fq by arith
      have 4: "b - pv b \<noteq> b" using Fp by arith
      show ?thesis unfolding 2 3 1 using True Fp Fq 4 pb by (auto simp: era_hm_simps era_nx_simps)
    next
      case False
      then have 2: "?pv i = pv i" using nb by (auto simp: era_pv_simps)
      from that have pi: "pv i \<noteq> NULL_DELTA" unfolding 2 by simp
      note P = chains_prev[OF c that(1) oi pi]
      have n1: "i - pv i \<noteq> b" using P False pi by auto
      have n2: "pv b = NULL_DELTA \<or> i - pv i \<noteq> b - pv b" using P F(4) nb
        by (metis le_add_diff_inverse2)
      show ?thesis unfolding 1 2 using P n1 n2 by (auto simp: era_hm_simps era_nx_simps)
    qed
  qed
  have X1: "0 < ?nx i \<and> i + ?nx i < n \<and> ?hm (i + ?nx i) = ?hm i \<and> ?pv (i + ?nx i) = ?nx i"
    if "i < n" "?hm i \<noteq> EMPTY_BUCKET" "?nx i \<noteq> NULL_DELTA" for i
  proof -
    have nb: "i \<noteq> b" using that by (auto simp: era_hm_simps)
    have 1: "?hm i = hm i" using nb by (simp add: era_hm_simps)
    from that have oi: "hm i \<noteq> EMPTY_BUCKET" unfolding 1 by simp
    show ?thesis
    proof (cases "pv b \<noteq> NULL_DELTA \<and> i = b - pv b")
      case True
      note Fp = F(4)[OF conjunct1[OF True]]
      have xb: "nx b \<noteq> NULL_DELTA" using that True nb by (auto simp: era_nx_simps split: if_splits)
      note Fq = F(5)[OF xb]
      have 2: "?nx i = b + nx b - i" using True nb xb by (simp add: era_nx_simps)
      have 3: "i + (b + nx b - i) = b + nx b" using True Fp Fq by arith
      have 4: "b + nx b \<noteq> b" using Fq by arith
      show ?thesis unfolding 2 3 1 using True Fp Fq 4 xb by (auto simp: era_hm_simps era_pv_simps)
    next
      case False
      then have 2: "?nx i = nx i" using nb by (auto simp: era_nx_simps)
      from that have xi: "nx i \<noteq> NULL_DELTA" unfolding 2 by simp
      note X = chains_next[OF c that(1) oi xi]
      have n1: "i + nx i \<noteq> b" using X False xi by auto
      have n2: "nx b = NULL_DELTA \<or> i + nx i \<noteq> b + nx b" using X F(5) nb by auto
      show ?thesis unfolding 1 2 using X n1 n2 by (auto simp: era_hm_simps era_pv_simps)
    qed
  qed
  have X2: "?nx i \<noteq> NULL_DELTA \<and> i + ?nx i \<le> j"
    if "i < n" "j < n" "?hm i \<noteq> EMPTY_BUCKET" "?hm j = ?hm i" "i < j" for i j
  proof -
    have nb: "i \<noteq> b" using that by (auto simp: era_hm_simps)
    have 1: "?hm i = hm i" using nb by (simp add: era_hm_simps)
    from that have oi: "hm i \<noteq> EMPTY_BUCKET" unfolding 1 by simp
    have jb: "j \<noteq> b" using that by (auto simp: era_hm_simps)
    have hj: "hm j = hm i" using that 1 jb by (simp add: era_hm_simps)
    note S = chains_succ[OF c that(1,2) oi hj that(5)]
    show ?thesis
    proof (cases "pv b \<noteq> NULL_DELTA \<and> i = b - pv b")
      case True
      note Fp = F(4)[OF conjunct1[OF True]]
      have "b < j" using S True Fp jb by auto
      moreover have "hm j = hm b" using hj True Fp by simp
      ultimately have Q: "nx b \<noteq> NULL_DELTA \<and> b + nx b \<le> j" using F(6)[OF that(2)] by simp
      then have 2: "?nx i = b + nx b - i" using True nb by (simp add: era_nx_simps)
      show ?thesis unfolding 2 using Q True Fp that(2) B by auto
    next
      case False
      then have 2: "?nx i = nx i" using nb by (auto simp: era_nx_simps)
      show ?thesis unfolding 2 using S .
    qed
  qed
  have F0: "?fd (?hm i) \<noteq> NULL_DELTA \<and> ?hm i + ?fd (?hm i) \<le> i" if "i < n" "?hm i \<noteq> EMPTY_BUCKET" for i
  proof -
    have nb: "i \<noteq> b" using that by (auto simp: era_hm_simps)
    have 1: "?hm i = hm i" using nb by (simp add: era_hm_simps)
    from that have oi: "hm i \<noteq> EMPTY_BUCKET" unfolding 1 by simp
    note Fi = chains_first[OF c that(1) oi]
    show ?thesis
    proof (cases "pv b = NULL_DELTA \<and> hm i = hm b")
      case True
      then have "b < i" using Fi F(3) nb by auto
      with F(6)[OF that(1)] True have Q: "nx b \<noteq> NULL_DELTA \<and> b + nx b \<le> i" by simp
      show ?thesis unfolding 1 using True Q F(1) that(1) B by (auto simp: era_fd_simps)
    next
      case False
      then show ?thesis unfolding 1 using Fi by (auto simp: era_fd_simps)
    qed
  qed
  have F1: "h + ?fd h < n \<and> ?hm (h + ?fd h) = h \<and> ?pv (h + ?fd h) = NULL_DELTA" if "h < n" "?fd h \<noteq> NULL_DELTA" for h
  proof (cases "pv b = NULL_DELTA \<and> h = hm b")
    case True
    then have xb: "nx b \<noteq> NULL_DELTA" using that by (auto simp: era_fd_simps split: if_splits)
    note Fq = F(5)[OF xb]
    have 1: "?fd h = b + nx b - hm b" "h + (b + nx b - hm b) = b + nx b" using True xb F(1) by (auto simp: era_fd_simps)
    have 2: "b + nx b \<noteq> b" using Fq by simp
    show ?thesis unfolding 1 using True Fq 2 xb by (auto simp: era_hm_simps era_pv_simps)
  next
    case False
    then have 1: "?fd h = fd h" by (auto simp: era_fd_simps)
    from that have oh: "fd h \<noteq> NULL_DELTA" unfolding 1 by simp
    note Fh = chains_home[OF c that(1) oh]
    have n1: "h + fd h \<noteq> b" using Fh False by auto
    have n2: "nx b = NULL_DELTA \<or> h + fd h \<noteq> b + nx b" using Fh F(5) by auto
    show ?thesis unfolding 1 using Fh n1 n2 by (auto simp: era_hm_simps era_pv_simps)
  qed
  show ?thesis
    unfolding chains_def
    using B E N P0 P1 X1 X2 F0 F1
    by (intro conjI allI impI) blast+
qed

subsection \<open>The writes of one hop step\<close>

lemma max_size_lt: "max_size < SIZE_MAX"
  by (simp add: max_size_def SIZE_MAX_def word_range_def)

lemma sz_add_small: "a + b < word_range \<Longrightarrow> sz_add a b = a + b"
  by (simp add: sz_add_def)

lemma sz_sub_small: "b \<le> a \<Longrightarrow> a < word_range \<Longrightarrow> sz_sub a b = a - b"
proof -
  assume a: "b \<le> a" "a < word_range"
  then have 1: "b mod word_range = b" by simp
  have 2: "a + (word_range - b) = (a - b) + word_range" using a by simp
  have "a - b < word_range" using a by simp
  then have "(a - b + word_range) mod word_range = a - b" by (simp only: mod_add_self2 mod_less)
  then show ?thesis unfolding sz_sub_def 1 2 .
qed

lemma length_upd [simp]: "length (upd bs i g) = length bs"
  by (simp add: upd_def)

lemma nth_upd: "upd bs i g ! j = (if j = i \<and> i < length bs then g (bs ! i) else bs ! j)"
  by (cases "i < length bs") (auto simp: upd_def list_update_beyond)

lemmas view_defs = hm_of_def nx_of_def pv_of_def fd_of_def it_of_def

lemma relink_prev_views:
  assumes "pv_of bs s \<noteq> NULL_DELTA \<longrightarrow> pv_of bs s \<le> s" "s < f" "f < length bs" "length bs < word_range"
  shows "\<exists>bs1. relink_prev bs s f = Some bs1 \<and> length bs1 = length bs \<and>
     hm_of bs1 = hm_of bs \<and> fd_of bs1 = fd_of bs \<and> it_of bs1 = it_of bs \<and>
     nx_of bs1 = (if pv_of bs s = NULL_DELTA then nx_of bs
        else (nx_of bs)(s - pv_of bs s := sz_add (nx_of bs (s - pv_of bs s)) (f - s))) \<and>
     pv_of bs1 = (if pv_of bs s = NULL_DELTA then pv_of bs
        else (pv_of bs)(s := pv_of bs f, f := sz_add (pv_of bs s) (f - s)))"
proof (cases "pv_of bs s = NULL_DELTA")
  case True
  then show ?thesis by (simp add: relink_prev_def pv_of_def)
next
  case False
  have 1: "sz_sub s (prev_delta (bs ! s)) = s - prev_delta (bs ! s)" "sz_sub f s = f - s"
    using assms False by (simp_all add: sz_sub_small pv_of_def)
  have 2: "prev_delta (bs ! s) \<noteq> NULL_DELTA" "s - prev_delta (bs ! s) < length bs" "s \<noteq> f"
    using assms False by (simp_all add: pv_of_def)
  show ?thesis
    unfolding relink_prev_def Let_def 1 using 2 assms(2,3)
    by (auto simp: view_defs fun_eq_iff nth_upd)
qed

lemma relink_next_views:
  assumes "nx_of bs s \<noteq> NULL_DELTA \<longrightarrow> s + nx_of bs s < length bs" "s < f" "f < length bs" "length bs < word_range"
  shows "\<exists>bs1. relink_next bs s f = Some bs1 \<and> length bs1 = length bs \<and>
     hm_of bs1 = hm_of bs \<and> fd_of bs1 = fd_of bs \<and> it_of bs1 = it_of bs \<and>
     pv_of bs1 = (if nx_of bs s = NULL_DELTA then pv_of bs
        else (pv_of bs)(s + nx_of bs s := sz_sub (pv_of bs (s + nx_of bs s)) (f - s))) \<and>
     nx_of bs1 = (if nx_of bs s = NULL_DELTA then nx_of bs
        else (nx_of bs)(s := nx_of bs f, f := sz_sub (nx_of bs s) (f - s)))"
proof (cases "nx_of bs s = NULL_DELTA")
  case True
  then show ?thesis by (simp add: relink_next_def nx_of_def)
next
  case False
  have 1: "sz_add s (next_delta (bs ! s)) = s + next_delta (bs ! s)" "sz_sub f s = f - s"
    using assms False by (simp_all add: sz_sub_small sz_add_small nx_of_def)
  have 2: "next_delta (bs ! s) \<noteq> NULL_DELTA" "s + next_delta (bs ! s) < length bs" "s \<noteq> f"
    using assms False by (simp_all add: nx_of_def)
  show ?thesis
    unfolding relink_next_def Let_def 1 using 2 assms(2,3)
    by (auto simp: view_defs fun_eq_iff nth_upd)
qed

lemma relink_first_views:
  assumes "hm_of bs s < length bs" "hm_of bs s \<le> f" "length bs < word_range" "f < length bs"
    "hm_of bs s + fd_of bs (hm_of bs s) < word_range"
  shows "\<exists>bs1. relink_first bs s f = Some bs1 \<and> length bs1 = length bs \<and>
     hm_of bs1 = hm_of bs \<and> nx_of bs1 = nx_of bs \<and> pv_of bs1 = pv_of bs \<and> it_of bs1 = it_of bs \<and>
     fd_of bs1 = (\<lambda>i. if i = hm_of bs s \<and> s = hm_of bs s + fd_of bs (hm_of bs s) then f - hm_of bs s else fd_of bs i)"
proof -
  have 1: "sz_add (object_bucket (bs ! s)) (first_delta (bs ! object_bucket (bs ! s)))
      = object_bucket (bs ! s) + first_delta (bs ! object_bucket (bs ! s))"
    "sz_sub f (object_bucket (bs ! s)) = f - object_bucket (bs ! s)"
    using assms by (simp_all add: sz_sub_small sz_add_small view_defs)
  have 2: "object_bucket (bs ! s) < length bs" using assms by (simp add: hm_of_def)
  show ?thesis
    unfolding relink_first_def Let_def 1 using 2
    by (auto simp: view_defs fun_eq_iff nth_upd)
qed

lemma swap_object_views:
  assumes "s < length bs" "f < length bs" "s \<noteq> f"
  shows "length (swap_object bs s f) = length bs \<and>
     nx_of (swap_object bs s f) = nx_of bs \<and> pv_of (swap_object bs s f) = pv_of bs \<and>
     fd_of (swap_object bs s f) = fd_of bs \<and>
     hm_of (swap_object bs s f) = (hm_of bs)(s := hm_of bs f, f := hm_of bs s) \<and>
     it_of (swap_object bs s f) = (it_of bs)(s := it_of bs f, f := it_of bs s)"
  using assms by (auto simp: swap_object_def Let_def view_defs fun_eq_iff nth_upd)

lemma displace_views:
  assumes pre: "disp_pre H (length bs) (hm_of bs) (nx_of bs) (pv_of bs) (fd_of bs) s f"
    and len: "length bs \<le> max_size"
  shows "\<exists>bs'. displace bs s f = Some bs' \<and> length bs' = length bs \<and>
     hm_of bs' = disp_hm (hm_of bs) s f \<and>
     nx_of bs' = disp_nx (nx_of bs) (pv_of bs) s f \<and>
     pv_of bs' = disp_pv (nx_of bs) (pv_of bs) s f \<and>
     fd_of bs' = disp_fd (hm_of bs) (fd_of bs) s f \<and>
     it_of bs' = (it_of bs)(s := it_of bs f, f := it_of bs s)"
proof -
  let ?n = "length bs"
  let ?hm = "hm_of bs" and ?nx = "nx_of bs" and ?pv = "pv_of bs" and ?fd = "fd_of bs"
  from pre have sf: "s < f" "f < ?n" and emp: "?hm f = EMPTY_BUCKET" by (auto simp: disp_pre_def)
  note F = disp_facts[OF pre]
  have wr: "?n < word_range" using len max_size_lt by (simp add: SIZE_MAX_def)
  have a1: "?pv s \<noteq> NULL_DELTA \<longrightarrow> ?pv s \<le> s" using F(10) by simp
  from relink_prev_views[OF a1 sf wr] obtain bs1 where
    r1: "relink_prev bs s f = Some bs1" and l1: "length bs1 = ?n" and
    h1: "hm_of bs1 = ?hm" and f1: "fd_of bs1 = ?fd" and i1: "it_of bs1 = it_of bs" and
    n1: "nx_of bs1 = (if ?pv s = NULL_DELTA then ?nx
        else ?nx(s - ?pv s := sz_add (?nx (s - ?pv s)) (f - s)))" and
    p1: "pv_of bs1 = (if ?pv s = NULL_DELTA then ?pv
        else ?pv(s := ?pv f, f := sz_add (?pv s) (f - s)))"
    by blast
  have ps: "?pv s \<noteq> NULL_DELTA \<Longrightarrow> s - ?pv s \<noteq> s \<and> s - ?pv s \<noteq> f" using F(10) sf by auto
  have n1s: "nx_of bs1 s = ?nx s" "nx_of bs1 f = NULL_DELTA" using ps F(2) by (auto simp: n1)
  have a2: "nx_of bs1 s \<noteq> NULL_DELTA \<longrightarrow> s + nx_of bs1 s < length bs1" using F(11) by (simp add: n1s l1)
  have a2': "f < length bs1" "length bs1 < word_range" using sf wr l1 by auto
  from relink_next_views[OF a2 sf(1) a2'] obtain bs2 where
    r2: "relink_next bs1 s f = Some bs2" and l2': "length bs2 = length bs1" and
    h2': "hm_of bs2 = hm_of bs1" and f2': "fd_of bs2 = fd_of bs1" and i2': "it_of bs2 = it_of bs1" and
    p2': "pv_of bs2 = (if nx_of bs1 s = NULL_DELTA then pv_of bs1
        else (pv_of bs1)(s + nx_of bs1 s := sz_sub (pv_of bs1 (s + nx_of bs1 s)) (f - s)))" and
    n2': "nx_of bs2 = (if nx_of bs1 s = NULL_DELTA then nx_of bs1
        else (nx_of bs1)(s := nx_of bs1 f, f := sz_sub (nx_of bs1 s) (f - s)))"
    by blast
  have l2: "length bs2 = ?n" and h2: "hm_of bs2 = ?hm" and f2: "fd_of bs2 = ?fd" and i2: "it_of bs2 = it_of bs"
    using l2' h2' f2' i2' l1 h1 f1 i1 by auto
  have p2: "pv_of bs2 = (if ?nx s = NULL_DELTA then pv_of bs1
        else (pv_of bs1)(s + ?nx s := sz_sub (pv_of bs1 (s + ?nx s)) (f - s)))"
    using p2' by (simp only: n1s)
  have n2: "nx_of bs2 = (if ?nx s = NULL_DELTA then nx_of bs1
        else (nx_of bs1)(s := NULL_DELTA, f := sz_sub (?nx s) (f - s)))"
    using n2' by (simp only: n1s)
  have a3: "hm_of bs2 s < length bs2" "hm_of bs2 s \<le> f" "length bs2 < word_range" "f < length bs2"
    "hm_of bs2 s + fd_of bs2 (hm_of bs2 s) < word_range"
    using F(4,5,8) sf wr by (simp_all add: h2 l2 f2)
  from relink_first_views[OF a3] obtain bs3 where
    r3: "relink_first bs2 s f = Some bs3" and l3': "length bs3 = length bs2" and
    h3': "hm_of bs3 = hm_of bs2" and n3: "nx_of bs3 = nx_of bs2" and p3: "pv_of bs3 = pv_of bs2" and
    i3': "it_of bs3 = it_of bs2" and
    f3': "fd_of bs3 = (\<lambda>i. if i = hm_of bs2 s \<and> s = hm_of bs2 s + fd_of bs2 (hm_of bs2 s) then f - hm_of bs2 s else fd_of bs2 i)"
    by blast
  have l3: "length bs3 = ?n" and h3: "hm_of bs3 = ?hm" and i3: "it_of bs3 = it_of bs"
    using l3' h3' i3' l2 h2 i2 by auto
  have f3: "fd_of bs3 = (\<lambda>i. if i = ?hm s \<and> s = ?hm s + ?fd (?hm s) then f - ?hm s else ?fd i)"
    using f3' by (simp only: h2 f2)
  have sw: "s < length bs3" "f < length bs3" "s \<noteq> f" using sf l3 by auto
  note S = swap_object_views[OF sw]
  have run: "displace bs s f = Some (swap_object bs3 s f)"
    using sf by (simp add: displace_def r1 r2 r3)
  have z1: "sz_add (?pv s) (f - s) = ?pv s + (f - s)" if "?pv s \<noteq> NULL_DELTA"
  proof (rule sz_add_small)
    show "?pv s + (f - s) < word_range" using F(10)[OF that] sf wr by arith
  qed
  have z2: "sz_add (?nx (s - ?pv s)) (f - s) = ?nx (s - ?pv s) + (f - s)" if "?pv s \<noteq> NULL_DELTA"
  proof (rule sz_add_small)
    have "?nx (s - ?pv s) = ?pv s" using F(10)[OF that] by simp
    then show "?nx (s - ?pv s) + (f - s) < word_range" using F(10)[OF that] sf wr by arith
  qed
  have z3: "sz_sub (?nx s) (f - s) = ?nx s - (f - s)" if "?nx s \<noteq> NULL_DELTA"
  proof (rule sz_sub_small)
    show "f - s \<le> ?nx s" using F(11)[OF that] by arith
    show "?nx s < word_range" using F(11)[OF that] wr by arith
  qed
  have z4: "?nx s \<noteq> NULL_DELTA \<Longrightarrow> pv_of bs1 (s + ?nx s) = ?pv (s + ?nx s)"
    using F(11) sf by (auto simp: p1)
  have z5: "sz_sub (?pv (s + ?nx s)) (f - s) = ?pv (s + ?nx s) - (f - s)" if "?nx s \<noteq> NULL_DELTA"
  proof (rule sz_sub_small)
    have e: "?pv (s + ?nx s) = ?nx s" using F(11)[OF that] by simp
    show "f - s \<le> ?pv (s + ?nx s)" unfolding e using F(11)[OF that] by arith
    show "?pv (s + ?nx s) < word_range" unfolding e using F(11)[OF that] wr by arith
  qed
  have qs: "?nx s \<noteq> NULL_DELTA \<Longrightarrow> s + ?nx s \<noteq> s \<and> s + ?nx s \<noteq> f" using F(11) sf by auto
  have HM: "hm_of (swap_object bs3 s f) = disp_hm ?hm s f"
    using S sw emp by (auto simp: h3 disp_hm_def fun_eq_iff)
  have NX: "nx_of (swap_object bs3 s f) = disp_nx ?nx ?pv s f"
    using S sw ps qs z2 z3 F(2) by (auto simp: n3 n2 n1 disp_nx_def fun_eq_iff)
  have PV: "pv_of (swap_object bs3 s f) = disp_pv ?nx ?pv s f"
    using S sw ps qs z1 z4 z5 F(3) by (auto simp: p3 p2 p1 disp_pv_def fun_eq_iff)
  have FD: "fd_of (swap_object bs3 s f) = disp_fd ?hm ?fd s f"
    using S by (auto simp: f3 disp_fd_def fun_eq_iff)
  have IT: "it_of (swap_object bs3 s f) = (it_of bs)(s := it_of bs f, f := it_of bs s)"
    using S by (simp add: i3)
  show ?thesis using run S l3 HM NX PV FD IT by simp
qed

subsection \<open>The hop loop\<close>

lemma tab_okD: "tab_ok H bs \<Longrightarrow> chains H (length bs) (hm_of bs) (nx_of bs) (pv_of bs) (fd_of bs)"
  and tab_ok_len: "tab_ok H bs \<Longrightarrow> length bs \<le> max_size"
  by (simp_all add: tab_ok_def)

lemma tab_ok_wr: "tab_ok H bs \<Longrightarrow> length bs < word_range"
proof -
  assume "tab_ok H bs"
  then have "length bs \<le> max_size" by (simp add: tab_ok_def)
  moreover note max_size_lt
  moreover have "SIZE_MAX = word_range - 1" by (simp add: SIZE_MAX_def)
  ultimately show ?thesis by arith
qed

lemma slotsI: "i < length bs \<Longrightarrow> hm_of bs i \<noteq> EMPTY_BUCKET \<Longrightarrow> x = (it_of bs i, hm_of bs i) \<Longrightarrow> x \<in> slots bs"
  unfolding slots_def by blast

lemma slotsE: "x \<in> slots bs \<Longrightarrow> \<exists>i. i < length bs \<and> hm_of bs i \<noteq> EMPTY_BUCKET \<and> x = (it_of bs i, hm_of bs i)"
  unfolding slots_def by blast

lemma find_fit_spec:
  "find_fit bs H f fit \<le> fit \<and>
   (\<forall>j. find_fit bs H f fit \<le> j \<and> j < fit \<longrightarrow> \<not> H > sz_sub f (hm_of bs j)) \<and>
   (find_fit bs H f fit \<noteq> 0 \<and> H > sz_add (sz_sub f (find_fit bs H f fit)) 1 \<longrightarrow>
      H > sz_sub f (hm_of bs (find_fit bs H f fit - 1)))"
proof (induction bs H f fit rule: find_fit.induct)
  case (1 bs H f fit)
  let ?c = "fit \<noteq> 0 \<and> H > sz_add (sz_sub f fit) 1"
  let ?t = "H > sz_sub f (object_bucket (bs ! (fit - 1)))"
  have eq: "find_fit bs H f fit = (if ?c then if ?t then fit else find_fit bs H f (fit - 1) else fit)"
    by (rule find_fit.simps)
  show ?case
  proof (cases ?c)
    case False
    then have e: "find_fit bs H f fit = fit" by (subst eq) auto
    show ?thesis unfolding e using False by auto
  next
    case True
    show ?thesis
    proof (cases ?t)
      case c: True
      with True have e: "find_fit bs H f fit = fit" by (subst eq) auto
      show ?thesis unfolding e using c by (simp add: hm_of_def)
    next
      case c: False
      with True have e: "find_fit bs H f fit = find_fit bs H f (fit - 1)" by (subst eq) auto
      define r where "r = find_fit bs H f (fit - 1)"
      note IH = 1[OF True c, folded r_def]
      from IH have r1: "r \<le> fit - 1"
        and r2: "\<And>j. r \<le> j \<Longrightarrow> j < fit - 1 \<Longrightarrow> \<not> H > sz_sub f (hm_of bs j)"
        and r3: "r \<noteq> 0 \<and> H > sz_add (sz_sub f r) 1 \<longrightarrow> H > sz_sub f (hm_of bs (r - 1))"
        by blast+
      have a: "r \<le> fit" using r1 by arith
      have b: "\<not> H > sz_sub f (hm_of bs j)" if "r \<le> j" "j < fit" for j
      proof (cases "j = fit - 1")
        case True then show ?thesis using c by (simp add: hm_of_def)
      next
        case False
        then have "j < fit - 1" using that by arith
        then show ?thesis using r2 that by blast
      qed
      show ?thesis unfolding e r_def[symmetric]
      proof (intro conjI allI impI)
        show "r \<le> fit" by (rule a)
        show "\<not> H > sz_sub f (hm_of bs j)" if "r \<le> j \<and> j < fit" for j using b that by simp
        show "H > sz_sub f (hm_of bs (r - 1))" if "r \<noteq> 0 \<and> H > sz_add (sz_sub f r) 1" using r3 that by simp
      qed
    qed
  qed
qed

lemma hop_step:
  assumes inv: "hop_inv H bs start f" and far: "H \<le> sz_sub f start"
    and fit: "fit = find_fit bs H f f" and ok: "\<not> (fit = 0 \<or> sz_add (sz_sub f fit) 1 \<ge> H)"
  shows "disp_pre H (length bs) (hm_of bs) (nx_of bs) (pv_of bs) (fd_of bs) (fit - 1) f \<and> start \<le> fit - 1"
proof -
  from inv have t: "tab_ok H bs" and sf: "start \<le> f" "f < length bs" and emp: "hm_of bs f = EMPTY_BUCKET"
    and occ: "\<And>j. start \<le> j \<Longrightarrow> j < f \<Longrightarrow> hm_of bs j \<noteq> EMPTY_BUCKET"
    by (auto simp: hop_inv_def)
  note c = tab_okD[OF t] and wr = tab_ok_wr[OF t]
  note S = find_fit_spec[of bs H f f, folded fit]
  have fitf: "fit \<le> f" using S by simp
  have d1: "sz_sub f start = f - start" using sf wr by (simp add: sz_sub_small)
  have d2: "sz_sub f fit = f - fit" using fitf sf wr by (simp add: sz_sub_small)
  have d3: "sz_add (f - fit) 1 = f - fit + 1" using sf wr by (simp add: sz_add_small)
  from ok have fit0: "fit \<noteq> 0" and win: "f - fit + 1 < H" unfolding d2 d3 by auto
  have lo: "start \<le> fit - 1" using far win fit0 unfolding d1 by arith
  have lt: "fit - 1 < f" using fitf fit0 by arith
  have o: "hm_of bs (fit - 1) \<noteq> EMPTY_BUCKET" using occ[OF lo lt] .
  have n: "fit - 1 < length bs" using lt sf by simp
  note N = chains_near[OF c n o]
  have d4: "sz_sub f (hm_of bs (fit - 1)) = f - hm_of bs (fit - 1)"
    using N lt sf wr by (simp add: sz_sub_small)
  have cand: "H > sz_sub f (hm_of bs (fit - 1))" using S fit0 win unfolding d2 d3 by auto
  then have near: "f < hm_of bs (fit - 1) + H" unfolding d4 by arith
  have gap: "hm_of bs j \<noteq> hm_of bs (fit - 1)" if "fit - 1 < j" "j < f" for j
  proof
    assume e: "hm_of bs j = hm_of bs (fit - 1)"
    have "fit \<le> j" using that by arith
    with S that have "\<not> H > sz_sub f (hm_of bs j)" by auto
    with cand e show False by simp
  qed
  show ?thesis unfolding disp_pre_def using c lt sf o emp near gap lo by auto
qed

lemma slots_displace:
  assumes "length bs' = length bs" "s < length bs" "f < length bs" "s \<noteq> f"
    "hm_of bs s \<noteq> EMPTY_BUCKET" "hm_of bs f = EMPTY_BUCKET"
    "hm_of bs' = disp_hm (hm_of bs) s f" "it_of bs' = (it_of bs)(s := it_of bs f, f := it_of bs s)"
  shows "slots bs' = slots bs" "its_inj bs \<Longrightarrow> its_inj bs'"
proof -
  have hm': "\<And>i. hm_of bs' i = (if i = f then hm_of bs s else if i = s then EMPTY_BUCKET else hm_of bs i)"
    and it': "\<And>i. it_of bs' i = (if i = f then it_of bs s else if i = s then it_of bs f else it_of bs i)"
    using assms by (auto simp: disp_hm_def)
  show "slots bs' = slots bs"
  proof (rule set_eqI, rule iffI)
    fix x assume "x \<in> slots bs'"
    from slotsE[OF this] obtain i where i: "i < length bs" "hm_of bs' i \<noteq> EMPTY_BUCKET" "x = (it_of bs' i, hm_of bs' i)"
      using assms(1) by auto
    show "x \<in> slots bs"
    proof (cases "i = f")
      case True
      then have "x = (it_of bs s, hm_of bs s)" using i by (simp add: hm' it')
      then show ?thesis using assms(2,5) by (intro slotsI[of s])
    next
      case False
      then have "i \<noteq> s" using i by (auto simp: hm')
      then have "x = (it_of bs i, hm_of bs i)" "hm_of bs i \<noteq> EMPTY_BUCKET" using i False by (auto simp: hm' it')
      then show ?thesis using i(1) by (intro slotsI[of i])
    qed
  next
    fix x assume "x \<in> slots bs"
    from slotsE[OF this] obtain i where i: "i < length bs" "hm_of bs i \<noteq> EMPTY_BUCKET" "x = (it_of bs i, hm_of bs i)"
      by auto
    have nf: "i \<noteq> f" using i assms by auto
    show "x \<in> slots bs'"
    proof (cases "i = s")
      case True
      then have "x = (it_of bs' f, hm_of bs' f)" "hm_of bs' f \<noteq> EMPTY_BUCKET" using i by (auto simp: hm' it')
      moreover have "f < length bs'" using assms by simp
      ultimately show ?thesis by (intro slotsI[of f])
    next
      case False
      then have "x = (it_of bs' i, hm_of bs' i)" "hm_of bs' i \<noteq> EMPTY_BUCKET" using i nf by (auto simp: hm' it')
      moreover have "i < length bs'" using assms i by simp
      ultimately show ?thesis by (intro slotsI[of i])
    qed
  qed
  show "its_inj bs'" if inj: "its_inj bs"
    unfolding its_inj_def
  proof (intro allI impI)
    fix i j assume a: "i < length bs'" "j < length bs'" "hm_of bs' i \<noteq> EMPTY_BUCKET"
      "hm_of bs' j \<noteq> EMPTY_BUCKET" "it_of bs' i = it_of bs' j"
    define i0 where "i0 = (if i = f then s else i)"
    define j0 where "j0 = (if j = f then s else j)"
    have ns: "i \<noteq> s" "j \<noteq> s" using a assms(4) by (auto simp: hm')
    have 1: "i0 < length bs" "hm_of bs i0 \<noteq> EMPTY_BUCKET" "it_of bs i0 = it_of bs' i"
      using a(1,3) assms(1,2,5) ns(1) hm'[of i] it'[of i] by (auto simp: i0_def split: if_splits)
    have 2: "j0 < length bs" "hm_of bs j0 \<noteq> EMPTY_BUCKET" "it_of bs j0 = it_of bs' j"
      using a(2,4) assms(1,2,5) ns(2) hm'[of j] it'[of j] by (auto simp: j0_def split: if_splits)
    have "i0 = j0" using inj 1 2 a(5) unfolding its_inj_def by metis
    then show "i = j" using ns by (auto simp: i0_def j0_def split: if_splits)
  qed
qed

lemma hop_correct:
  "hop_inv H bs start f \<Longrightarrow>
   \<exists>bs' r. hop bs H start f = Some (bs', r) \<and> tab_ok H bs' \<and> length bs' = length bs \<and>
     slots bs' = slots bs \<and> (its_inj bs \<longrightarrow> its_inj bs') \<and>
     (\<forall>f'. r = Some f' \<longrightarrow> hop_inv H bs' start f' \<and> f' < start + H)"
proof (induction bs H start f rule: hop.induct)
  case (1 bs H start f)
  note inv = \<open>hop_inv H bs start f\<close>
  from inv have t: "tab_ok H bs" and sf: "start \<le> f" "f < length bs" by (auto simp: hop_inv_def)
  note wr = tab_ok_wr[OF t]
  have d1: "sz_sub f start = f - start" using sf wr by (simp add: sz_sub_small)
  show ?case
  proof (cases "H \<le> sz_sub f start")
    case False
    then have "hop bs H start f = Some (bs, Some f)" by (subst hop.simps) simp
    moreover have "f < start + H" using False unfolding d1 by arith
    ultimately show ?thesis using inv t
      by (intro exI[of _ bs] exI[of _ "Some f"]) simp
  next
    case far: True
    define fit where "fit = find_fit bs H f f"
    show ?thesis
    proof (cases "fit = 0 \<or> sz_add (sz_sub f fit) 1 \<ge> H")
      case True
      then have "hop bs H start f = Some (bs, None)" using far by (subst hop.simps) (simp add: fit_def Let_def)
      then show ?thesis using t
        by (intro exI[of _ bs] exI[of _ None]) simp
    next
      case False
      note st = hop_step[OF inv far fit_def False]
      then have pre: "disp_pre H (length bs) (hm_of bs) (nx_of bs) (pv_of bs) (fd_of bs) (fit - 1) f"
        and lo: "start \<le> fit - 1" by auto
      from displace_views[OF pre tab_ok_len[OF t]] obtain bs1 where
        d: "displace bs (fit - 1) f = Some bs1" and l: "length bs1 = length bs" and
        v: "hm_of bs1 = disp_hm (hm_of bs) (fit - 1) f"
           "nx_of bs1 = disp_nx (nx_of bs) (pv_of bs) (fit - 1) f"
           "pv_of bs1 = disp_pv (nx_of bs) (pv_of bs) (fit - 1) f"
           "fd_of bs1 = disp_fd (hm_of bs) (fd_of bs) (fit - 1) f" and
        i: "it_of bs1 = (it_of bs)(fit - 1 := it_of bs f, f := it_of bs (fit - 1))"
        by blast
      have t1: "tab_ok H bs1"
        unfolding tab_ok_def l v using chains_displace[OF pre] tab_ok_len[OF t] by simp
      from pre have p: "fit - 1 < f" "hm_of bs (fit - 1) \<noteq> EMPTY_BUCKET" "hm_of bs f = EMPTY_BUCKET"
        by (auto simp: disp_pre_def)
      have inv1: "hop_inv H bs1 start (fit - 1)"
        unfolding hop_inv_def using t1 lo p sf l inv
        by (auto simp: v disp_hm_def hop_inv_def)
      have sl: "slots bs1 = slots bs" "its_inj bs \<Longrightarrow> its_inj bs1"
        using slots_displace[OF l _ sf(2) _ p(2,3) v(1) i] p(1) sf(2) by auto
      have e: "hop bs H start f = hop bs1 H start (fit - 1)"
        using far False d by (subst hop.simps) (simp add: fit_def[symmetric] Let_def)
      from 1(1)[OF far fit_def False d inv1] obtain bs' r where
        h: "hop bs1 H start (fit - 1) = Some (bs', r)" and h1: "tab_ok H bs'" and
        h2: "length bs' = length bs1" and
        h3: "slots bs' = slots bs1" and h4: "its_inj bs1 \<longrightarrow> its_inj bs'" and
        h5: "\<forall>f'. r = Some f' \<longrightarrow> hop_inv H bs' start f' \<and> f' < start + H"
        by (elim exE conjE)
      have g1: "hop bs H start f = Some (bs', r)" unfolding e by (rule h)
      have g2: "length bs' = length bs" using h2 l by simp
      have g3: "slots bs' = slots bs" using h3 sl(1) by simp
      have g4: "its_inj bs \<longrightarrow> its_inj bs'" using h4 sl(2) by simp
      show ?thesis
        by (rule exI[of _ bs'], rule exI[of _ r]) (intro conjI g1 h1 g2 g3 g4 h5)
    qed
  qed
qed

subsection \<open>Linking the new entry\<close>

lemma find_previous_spec:
  "start \<le> prev \<Longrightarrow>
   start \<le> find_previous bs start f prev \<and> find_previous bs start f prev \<le> prev \<and>
   (\<forall>j. find_previous bs start f prev \<le> j \<and> j < prev \<longrightarrow> hm_of bs j \<noteq> hm_of bs f) \<and>
   (find_previous bs start f prev \<noteq> start \<longrightarrow>
      hm_of bs (find_previous bs start f prev - 1) = hm_of bs f)"
proof (induction bs start f prev rule: find_previous.induct)
  case (1 bs start f prev)
  let ?c = "start < prev \<and> object_bucket (bs ! (prev - 1)) \<noteq> object_bucket (bs ! f)"
  have eq: "find_previous bs start f prev = (if ?c then find_previous bs start f (prev - 1) else prev)"
    by (rule find_previous.simps)
  show ?case
  proof (cases ?c)
    case False
    then have e: "find_previous bs start f prev = prev" by (subst eq) auto
    show ?thesis unfolding e using False 1(2) by (auto simp: hm_of_def)
  next
    case True
    then have e: "find_previous bs start f prev = find_previous bs start f (prev - 1)" by (subst eq) auto
    define r where "r = find_previous bs start f (prev - 1)"
    have "start \<le> prev - 1" using True by arith
    note IH = 1(1)[OF True this, folded r_def]
    from IH have r0: "start \<le> r" and r1: "r \<le> prev - 1"
      and r2: "\<And>j. r \<le> j \<Longrightarrow> j < prev - 1 \<Longrightarrow> hm_of bs j \<noteq> hm_of bs f"
      and r3: "r \<noteq> start \<longrightarrow> hm_of bs (r - 1) = hm_of bs f"
      by blast+
    have b: "hm_of bs j \<noteq> hm_of bs f" if "r \<le> j" "j < prev" for j
    proof (cases "j = prev - 1")
      case True then show ?thesis using \<open>?c\<close> by (simp add: hm_of_def)
    next
      case False
      then have "j < prev - 1" using that by arith
      then show ?thesis using r2 that by blast
    qed
    show ?thesis unfolding e r_def[symmetric]
    proof (intro conjI allI impI)
      show "start \<le> r" by (rule r0)
      show "r \<le> prev" using r1 by arith
      show "hm_of bs j \<noteq> hm_of bs f" if "r \<le> j \<and> j < prev" for j using b that by simp
      show "hm_of bs (r - 1) = hm_of bs f" if "r \<noteq> start" using r3 that by simp
    qed
  qed
qed

lemma link_after_views:
  assumes "q < length bs" "f < length bs" "f < q" "length bs < word_range"
  shows "\<exists>bs1. link_after bs q f = Some bs1 \<and> length bs1 = length bs \<and>
     hm_of bs1 = hm_of bs \<and> fd_of bs1 = fd_of bs \<and> it_of bs1 = it_of bs \<and>
     pv_of bs1 = (pv_of bs)(q := q - f) \<and> nx_of bs1 = (nx_of bs)(f := q - f)"
proof -
  have 1: "sz_sub q f = q - f" using assms by (simp add: sz_sub_small)
  show ?thesis unfolding link_after_def 1 using assms
    by (auto simp: view_defs fun_eq_iff nth_upd)
qed

lemma install_eq:
  "install bs start_bucket free_bucket obj =
     (if start_bucket \<le> free_bucket \<and> free_bucket < length bs then
        (let bs0 = upd bs free_bucket (\<lambda>b. b\<lparr>object_it := obj, object_bucket := start_bucket\<rparr>);
             previous_bucket = find_previous bs0 start_bucket free_bucket free_bucket
         in if previous_bucket \<noteq> start_bucket
            then link_previous bs0 (previous_bucket - 1) free_bucket
            else link_start bs0 start_bucket free_bucket)
      else None)"
  by (simp add: install_def link_previous_def link_start_def Let_def)

lemma install_views:
  assumes t: "tab_ok H bs" and sf: "start \<le> f" "f < length bs" and near: "f < start + H"
    and emp: "hm_of bs f = EMPTY_BUCKET"
  shows "\<exists>bs'. install bs start f obj = Some bs' \<and> length bs' = length bs \<and> tab_ok H bs' \<and>
     hm_of bs' = (hm_of bs)(f := start) \<and> it_of bs' = (it_of bs)(f := obj)"
proof -
  let ?n = "length bs"
  let ?hm = "hm_of bs" and ?nx = "nx_of bs" and ?pv = "pv_of bs" and ?fd = "fd_of bs"
  note c = tab_okD[OF t] and wr = tab_ok_wr[OF t] and len = tab_ok_len[OF t]
  define bs0 where "bs0 = upd bs f (\<lambda>b. b\<lparr>object_it := obj, object_bucket := start\<rparr>)"
  have l0: "length bs0 = ?n" by (simp add: bs0_def)
  have v0: "hm_of bs0 = ?hm(f := start)" "nx_of bs0 = ?nx" "pv_of bs0 = ?pv" "fd_of bs0 = ?fd"
    "it_of bs0 = (it_of bs)(f := obj)"
    using sf by (auto simp: bs0_def view_defs fun_eq_iff nth_upd)
  define r where "r = find_previous bs0 start f f"
  note S = find_previous_spec[OF sf(1), of bs0 f, folded r_def]
  have r0: "start \<le> r" "r \<le> f" using S by auto
  have r2: "?hm j \<noteq> start" if "r \<le> j" "j < f" for j
  proof -
    have "hm_of bs0 j \<noteq> hm_of bs0 f" using S that by blast
    then show ?thesis using that by (simp add: v0)
  qed
  have run: "install bs start f obj =
     (if r \<noteq> start then link_previous bs0 (r - 1) f else link_start bs0 start f)"
    unfolding install_eq using sf by (simp add: Let_def bs0_def[symmetric] r_def[symmetric])
  show ?thesis
  proof (cases "r \<noteq> start")
    case True
    define p where "p = r - 1"
    have p: "start \<le> p" "p < f" using True r0 by (auto simp: p_def)
    have hp: "?hm p = start"
    proof -
      have "hm_of bs0 (r - 1) = hm_of bs0 f" using S True by blast
      then show ?thesis using p by (simp add: v0 p_def)
    qed
    have gap: "\<forall>j. p < j \<and> j < f \<longrightarrow> ?hm j \<noteq> start"
    proof (intro allI impI)
      fix j assume "p < j \<and> j < f"
      then have "r \<le> j" "j < f" using True r0 by (auto simp: p_def)
      then show "?hm j \<noteq> start" by (rule r2)
    qed
    have pre: "insA_pre H ?n ?hm ?nx ?pv ?fd start p f"
      unfolding insA_pre_def using c p sf near emp hp gap by simp
    note F = insA_facts[OF pre]
    have z1: "sz_sub f p = f - p" using p sf wr by (simp add: sz_sub_small)
    have nx0: "next_delta (bs0 ! p) = ?nx p" using v0(2) by (simp add: nx_of_def fun_eq_iff)
    have "\<exists>bs1. (if ?nx p \<noteq> NULL_DELTA then link_after bs0 (sz_add p (?nx p)) f else Some bs0) = Some bs1 \<and>
        length bs1 = ?n \<and> hm_of bs1 = ?hm(f := start) \<and> fd_of bs1 = ?fd \<and> it_of bs1 = (it_of bs)(f := obj) \<and>
        pv_of bs1 = (if ?nx p \<noteq> NULL_DELTA then ?pv(p + ?nx p := p + ?nx p - f) else ?pv) \<and>
        nx_of bs1 = (if ?nx p \<noteq> NULL_DELTA then ?nx(f := p + ?nx p - f) else ?nx)"
    proof (cases "?nx p \<noteq> NULL_DELTA")
      case False
      then show ?thesis using l0 v0 by simp
    next
      case q: True
      note Fq = F(9)[OF q]
      have z: "sz_add p (?nx p) = p + ?nx p" using Fq wr by (simp add: sz_add_small)
      have "p + ?nx p < length bs0" "f < length bs0" "f < p + ?nx p" "length bs0 < word_range"
        using Fq sf wr l0 by auto
      from link_after_views[OF this] show ?thesis using q z l0 v0 by auto
    qed
    then obtain bs1 where
      b1: "(if ?nx p \<noteq> NULL_DELTA then link_after bs0 (sz_add p (?nx p)) f else Some bs0) = Some bs1" and
      l1: "length bs1 = ?n" and h1: "hm_of bs1 = ?hm(f := start)" and f1: "fd_of bs1 = ?fd" and
      i1: "it_of bs1 = (it_of bs)(f := obj)" and
      p1: "pv_of bs1 = (if ?nx p \<noteq> NULL_DELTA then ?pv(p + ?nx p := p + ?nx p - f) else ?pv)" and
      n1: "nx_of bs1 = (if ?nx p \<noteq> NULL_DELTA then ?nx(f := p + ?nx p - f) else ?nx)"
      by (elim exE conjE)
    define bs' where "bs' = upd (upd bs1 p (\<lambda>b. b\<lparr>next_delta := f - p\<rparr>)) f (\<lambda>b. b\<lparr>prev_delta := f - p\<rparr>)"
    have run': "install bs start f obj = Some bs'"
      unfolding run p_def[symmetric] link_previous_def nx0 z1 b1 bs'_def using True by simp
    have pl: "p < length bs1" "f < length bs1" using p sf l1 by auto
    have l': "length bs' = ?n" by (simp add: bs'_def l1)
    have HM: "hm_of bs' = ins_hm ?hm start f"
      using h1 pl by (auto simp: bs'_def view_defs fun_eq_iff nth_upd ins_hm_def)
    have IT: "it_of bs' = (it_of bs)(f := obj)"
      using i1 pl by (auto simp: bs'_def view_defs fun_eq_iff nth_upd)
    have FD: "fd_of bs' = ?fd"
      using f1 pl by (auto simp: bs'_def view_defs fun_eq_iff nth_upd)
    have nxv: "nx_of bs' = (nx_of bs1)(p := f - p)"
      using pl p by (auto simp: bs'_def view_defs fun_eq_iff nth_upd)
    have pvv: "pv_of bs' = (pv_of bs1)(f := f - p)"
      using pl p by (auto simp: bs'_def view_defs fun_eq_iff nth_upd)
    have NX: "nx_of bs' = insA_nx ?nx p f"
      unfolding nxv n1 using F(5) p by (auto simp: insA_nx_def fun_eq_iff)
    have PV: "pv_of bs' = insA_pv ?nx ?pv p f"
      unfolding pvv p1 using F(9) p by (auto simp: insA_pv_def fun_eq_iff)
    have "tab_ok H bs'"
      unfolding tab_ok_def l' HM NX PV FD using chains_installA[OF pre] len by simp
    then show ?thesis using run' l' HM IT by (auto simp: ins_hm_def fun_eq_iff)
  next
    case False
    then have rs: "r = start" by simp
    have gap: "\<forall>j. start \<le> j \<and> j < f \<longrightarrow> ?hm j \<noteq> start"
      using r2 rs by blast
    have pre: "insB_pre H ?n ?hm ?nx ?pv ?fd start f"
      unfolding insB_pre_def using c sf near emp gap by simp
    note F = insB_facts[OF pre]
    have z1: "sz_sub f start = f - start" using sf wr by (simp add: sz_sub_small)
    have fd0: "first_delta (bs0 ! start) = ?fd start" using v0(4) by (simp add: fd_of_def fun_eq_iff)
    have "\<exists>bs1. (if ?fd start \<noteq> NULL_DELTA then link_after bs0 (sz_add start (?fd start)) f else Some bs0) = Some bs1 \<and>
        length bs1 = ?n \<and> hm_of bs1 = ?hm(f := start) \<and> fd_of bs1 = ?fd \<and> it_of bs1 = (it_of bs)(f := obj) \<and>
        pv_of bs1 = (if ?fd start \<noteq> NULL_DELTA then ?pv(start + ?fd start := start + ?fd start - f) else ?pv) \<and>
        nx_of bs1 = (if ?fd start \<noteq> NULL_DELTA then ?nx(f := start + ?fd start - f) else ?nx)"
    proof (cases "?fd start \<noteq> NULL_DELTA")
      case False
      then show ?thesis using l0 v0 by simp
    next
      case q: True
      note Fq = F(6)[OF q]
      have z: "sz_add start (?fd start) = start + ?fd start" using Fq wr by (simp add: sz_add_small)
      have "start + ?fd start < length bs0" "f < length bs0" "f < start + ?fd start" "length bs0 < word_range"
        using Fq sf wr l0 by auto
      from link_after_views[OF this] show ?thesis using q z l0 v0 by auto
    qed
    then obtain bs1 where
      b1: "(if ?fd start \<noteq> NULL_DELTA then link_after bs0 (sz_add start (?fd start)) f else Some bs0) = Some bs1" and
      l1: "length bs1 = ?n" and h1: "hm_of bs1 = ?hm(f := start)" and f1: "fd_of bs1 = ?fd" and
      i1: "it_of bs1 = (it_of bs)(f := obj)" and
      p1: "pv_of bs1 = (if ?fd start \<noteq> NULL_DELTA then ?pv(start + ?fd start := start + ?fd start - f) else ?pv)" and
      n1: "nx_of bs1 = (if ?fd start \<noteq> NULL_DELTA then ?nx(f := start + ?fd start - f) else ?nx)"
      by (elim exE conjE)
    define bs' where "bs' = upd bs1 start (\<lambda>b. b\<lparr>first_delta := f - start\<rparr>)"
    have run': "install bs start f obj = Some bs'"
      unfolding run link_start_def fd0 z1 b1 bs'_def using rs by simp
    have pl: "start < length bs1" using sf l1 by auto
    have l': "length bs' = ?n" by (simp add: bs'_def l1)
    have HM: "hm_of bs' = ins_hm ?hm start f"
      using h1 pl by (auto simp: bs'_def view_defs fun_eq_iff nth_upd ins_hm_def)
    have IT: "it_of bs' = (it_of bs)(f := obj)"
      using i1 pl by (auto simp: bs'_def view_defs fun_eq_iff nth_upd)
    have FD: "fd_of bs' = insB_fd ?fd start f"
      using f1 pl by (auto simp: bs'_def view_defs fun_eq_iff nth_upd insB_fd_def)
    have nxv: "nx_of bs' = nx_of bs1" "pv_of bs' = pv_of bs1"
      using pl by (auto simp: bs'_def view_defs fun_eq_iff nth_upd)
    have NX: "nx_of bs' = insB_nx ?nx ?fd start f"
      unfolding nxv n1 using F(3) by (auto simp: insB_nx_def fun_eq_iff)
    have PV: "pv_of bs' = insB_pv ?pv ?fd start f"
      unfolding nxv p1 by (auto simp: insB_pv_def fun_eq_iff)
    have "tab_ok H bs'"
      unfolding tab_ok_def l' HM NX PV FD using chains_installB[OF pre] len by simp
    then show ?thesis using run' l' HM IT by (auto simp: ins_hm_def fun_eq_iff)
  qed
qed

subsection \<open>EraseObject\<close>

lemma EraseObject_views:
  assumes t: "tab_ok H bs" and b: "b < length bs" and o: "hm_of bs b \<noteq> EMPTY_BUCKET"
  shows "\<exists>bs'. EraseObject bs b = Some bs' \<and> length bs' = length bs \<and> tab_ok H bs' \<and>
     hm_of bs' = (hm_of bs)(b := EMPTY_BUCKET) \<and> it_of bs' = it_of bs"
proof -
  let ?n = "length bs"
  let ?hm = "hm_of bs" and ?nx = "nx_of bs" and ?pv = "pv_of bs" and ?fd = "fd_of bs"
  note c = tab_okD[OF t] and wr = tab_ok_wr[OF t] and len = tab_ok_len[OF t]
  have pre: "era_pre H ?n ?hm ?nx ?pv ?fd b" unfolding era_pre_def using c b o by simp
  note F = era_facts[OF pre]
  let ?p = "b - ?pv b" and ?q = "b + ?nx b" and ?s = "?hm b"
  have zp: "sz_sub b (prev_delta (bs ! b)) = ?p" if "?pv b \<noteq> NULL_DELTA"
    using F(4)[OF that] b wr by (simp add: sz_sub_small pv_of_def)
  have zq: "sz_add b (next_delta (bs ! b)) = ?q" if "?nx b \<noteq> NULL_DELTA"
    using F(5)[OF that] wr by (simp add: sz_add_small nx_of_def)
  have zqp: "sz_sub ?q ?p = ?q - ?p" if "?nx b \<noteq> NULL_DELTA"
  proof (rule sz_sub_small)
    show "?p \<le> ?q" by arith
    show "?q < word_range" using F(5)[OF that] wr by arith
  qed
  have zqs: "sz_sub ?q (object_bucket (bs ! b)) = ?q - ?s" if "?nx b \<noteq> NULL_DELTA"
    using F(1) F(5)[OF that] wr by (simp add: sz_sub_small hm_of_def)
  have fld: "prev_delta (bs ! b) = ?pv b" "next_delta (bs ! b) = ?nx b" "object_bucket (bs ! b) = ?hm b"
    by (simp_all add: view_defs)
  have pn: "?pv b \<noteq> NULL_DELTA \<Longrightarrow> ?p < ?n \<and> ?p \<noteq> b" using F(4) b by auto
  have qn: "?nx b \<noteq> NULL_DELTA \<Longrightarrow> ?q < ?n \<and> ?q \<noteq> b" using F(5) by auto
  have pq: "?pv b \<noteq> NULL_DELTA \<Longrightarrow> ?nx b \<noteq> NULL_DELTA \<Longrightarrow> ?p \<noteq> ?q" using F(4,5) by auto
  have sn: "?s < ?n" using F(2) .
  have "\<exists>bs'. EraseObject bs b = Some bs' \<and> length bs' = ?n \<and>
     hm_of bs' = era_hm ?hm b \<and> nx_of bs' = era_nx ?nx ?pv b \<and> pv_of bs' = era_pv ?nx ?pv b \<and>
     fd_of bs' = era_fd ?hm ?nx ?pv ?fd b \<and> it_of bs' = it_of bs"
  proof (cases "?pv b = NULL_DELTA")
    case pN: True
    show ?thesis
    proof (cases "?nx b = NULL_DELTA")
      case xN: True
      show ?thesis
        unfolding EraseObject_def using pN xN b sn
        by (auto simp: Let_def view_defs fun_eq_iff nth_upd era_hm_def era_nx_def era_pv_def era_fd_def)
    next
      case xS: False
      note z = zq[OF xS, unfolded view_defs] zqs[OF xS, unfolded view_defs]
      show ?thesis
        unfolding EraseObject_def using pN xS b sn qn[OF xS]
        by (auto simp: Let_def z view_defs fun_eq_iff nth_upd era_hm_def era_nx_def era_pv_def era_fd_def)
    qed
  next
    case pS: False
    show ?thesis
    proof (cases "?nx b = NULL_DELTA")
      case xN: True
      note z = zp[OF pS, unfolded view_defs]
      show ?thesis
        unfolding EraseObject_def using pS xN b pn[OF pS]
        by (auto simp: Let_def z view_defs fun_eq_iff nth_upd era_hm_def era_nx_def era_pv_def era_fd_def)
    next
      case xS: False
      note z = zp[OF pS, unfolded view_defs] zq[OF xS, unfolded view_defs] zqp[OF xS, unfolded view_defs]
      show ?thesis
        unfolding EraseObject_def using pS xS b pn[OF pS] qn[OF xS] pq[OF pS xS]
        by (auto simp: Let_def z view_defs fun_eq_iff nth_upd era_hm_def era_nx_def era_pv_def era_fd_def)
    qed
  qed
  then obtain bs' where r: "EraseObject bs b = Some bs'" and l: "length bs' = ?n" and
    v: "hm_of bs' = era_hm ?hm b" "nx_of bs' = era_nx ?nx ?pv b" "pv_of bs' = era_pv ?nx ?pv b"
       "fd_of bs' = era_fd ?hm ?nx ?pv ?fd b" and i: "it_of bs' = it_of bs"
    by (elim exE conjE)
  have "tab_ok H bs'" unfolding tab_ok_def l v using chains_erase[OF pre] len by simp
  moreover have "hm_of bs' = ?hm(b := EMPTY_BUCKET)" unfolding v by (auto simp: era_hm_def fun_eq_iff)
  ultimately show ?thesis using r l i by simp
qed

subsection \<open>The linear probe and the occupied buckets\<close>

lemma probe_spec:
  "i \<le> length bs \<Longrightarrow>
   i \<le> probe bs i \<and> probe bs i \<le> length bs \<and>
   (\<forall>j. i \<le> j \<and> j < probe bs i \<longrightarrow> hm_of bs j \<noteq> EMPTY_BUCKET) \<and>
   (probe bs i < length bs \<longrightarrow> hm_of bs (probe bs i) = EMPTY_BUCKET)"
proof (induction bs i rule: probe.induct)
  case (1 bs i)
  let ?c = "i < length bs \<and> object_bucket (bs ! i) \<noteq> EMPTY_BUCKET"
  have eq: "probe bs i = (if ?c then probe bs (Suc i) else i)" by (rule probe.simps)
  show ?case
  proof (cases ?c)
    case False
    then have e: "probe bs i = i" by (subst eq) auto
    show ?thesis unfolding e using False 1(2) by (auto simp: hm_of_def)
  next
    case True
    then have e: "probe bs i = probe bs (Suc i)" by (subst eq) auto
    define r where "r = probe bs (Suc i)"
    have "Suc i \<le> length bs" using True by arith
    note IH = 1(1)[OF True this, folded r_def]
    from IH have r0: "Suc i \<le> r" and r1: "r \<le> length bs"
      and r2: "\<And>j. Suc i \<le> j \<Longrightarrow> j < r \<Longrightarrow> hm_of bs j \<noteq> EMPTY_BUCKET"
      and r3: "r < length bs \<longrightarrow> hm_of bs r = EMPTY_BUCKET"
      by blast+
    have b: "hm_of bs j \<noteq> EMPTY_BUCKET" if "i \<le> j" "j < r" for j
    proof (cases "j = i")
      case True then show ?thesis using \<open>?c\<close> by (simp add: hm_of_def)
    next
      case False
      then have "Suc i \<le> j" using that by arith
      then show ?thesis using r2 that by blast
    qed
    show ?thesis unfolding e r_def[symmetric]
    proof (intro conjI allI impI)
      show "i \<le> r" using r0 by arith
      show "r \<le> length bs" by (rule r1)
      show "hm_of bs j \<noteq> EMPTY_BUCKET" if "i \<le> j \<and> j < r" for j using b that by simp
      show "hm_of bs r = EMPTY_BUCKET" if "r < length bs" using r3 that by simp
    qed
  qed
qed

lemma slots_install:
  assumes "length bs' = length bs" "f < length bs" "hm_of bs f = EMPTY_BUCKET" "st \<noteq> EMPTY_BUCKET"
    "hm_of bs' = (hm_of bs)(f := st)" "it_of bs' = (it_of bs)(f := obj)"
  shows "slots bs' = insert (obj, st) (slots bs)"
proof (rule set_eqI, rule iffI)
  fix x assume "x \<in> slots bs'"
  from slotsE[OF this] obtain i where i: "i < length bs" "hm_of bs' i \<noteq> EMPTY_BUCKET" "x = (it_of bs' i, hm_of bs' i)"
    using assms(1) by auto
  show "x \<in> insert (obj, st) (slots bs)"
  proof (cases "i = f")
    case True
    then show ?thesis using i assms(5,6) by simp
  next
    case False
    then have "x = (it_of bs i, hm_of bs i)" "hm_of bs i \<noteq> EMPTY_BUCKET" using i assms(5,6) by auto
    then have "x \<in> slots bs" using i(1) by (intro slotsI[of i])
    then show ?thesis by simp
  qed
next
  fix x assume "x \<in> insert (obj, st) (slots bs)"
  then consider "x = (obj, st)" | "x \<in> slots bs" by blast
  then show "x \<in> slots bs'"
  proof cases
    case 1
    then have "x = (it_of bs' f, hm_of bs' f)" "hm_of bs' f \<noteq> EMPTY_BUCKET" using assms(4,5,6) by auto
    moreover have "f < length bs'" using assms by simp
    ultimately show ?thesis by (intro slotsI[of f])
  next
    case 2
    from slotsE[OF this] obtain i where i: "i < length bs" "hm_of bs i \<noteq> EMPTY_BUCKET" "x = (it_of bs i, hm_of bs i)"
      by auto
    have "i \<noteq> f" using i assms(3) by auto
    then have "x = (it_of bs' i, hm_of bs' i)" "hm_of bs' i \<noteq> EMPTY_BUCKET" using i assms(5,6) by auto
    moreover have "i < length bs'" using assms i by simp
    ultimately show ?thesis by (intro slotsI[of i])
  qed
qed

lemma its_inj_install:
  assumes "length bs' = length bs" "f < length bs" "hm_of bs f = EMPTY_BUCKET"
    "hm_of bs' = (hm_of bs)(f := st)" "it_of bs' = (it_of bs)(f := obj)"
    "its_inj bs" "obj \<notin> fst ` slots bs"
  shows "its_inj bs'"
  unfolding its_inj_def
proof (intro allI impI)
  fix i j assume a: "i < length bs'" "j < length bs'" "hm_of bs' i \<noteq> EMPTY_BUCKET"
    "hm_of bs' j \<noteq> EMPTY_BUCKET" "it_of bs' i = it_of bs' j"
  have other: "it_of bs k \<noteq> obj" if "k < length bs" "hm_of bs k \<noteq> EMPTY_BUCKET" for k
  proof
    assume "it_of bs k = obj"
    then have "(obj, hm_of bs k) \<in> slots bs" using that by (intro slotsI[of k]) auto
    then have "obj \<in> fst ` slots bs" by force
    with assms(7) show False by simp
  qed
  show "i = j"
  proof (cases "i = f")
    case True
    show ?thesis
    proof (rule ccontr)
      assume n: "i \<noteq> j"
      then have "hm_of bs j \<noteq> EMPTY_BUCKET" "it_of bs j = obj" "j < length bs"
        using a True assms(1,4,5) by auto
      with other[of j] show False by simp
    qed
  next
    case False
    show ?thesis
    proof (cases "j = f")
      case True
      then have "hm_of bs i \<noteq> EMPTY_BUCKET" "it_of bs i = obj" "i < length bs"
        using a False assms(1,4,5) by auto
      with other[of i] show ?thesis by simp
    next
      case nj: False
      have "i < length bs" "j < length bs" "hm_of bs i \<noteq> EMPTY_BUCKET" "hm_of bs j \<noteq> EMPTY_BUCKET"
        "it_of bs i = it_of bs j" using a False nj assms(1,4,5) by auto
      then show ?thesis using assms(6) unfolding its_inj_def by blast
    qed
  qed
qed

lemma slots_erase:
  assumes "length bs' = length bs" "b < length bs" "hm_of bs b \<noteq> EMPTY_BUCKET"
    "hm_of bs' = (hm_of bs)(b := EMPTY_BUCKET)" "it_of bs' = it_of bs" "its_inj bs"
  shows "slots bs' = slots bs - {(it_of bs b, hm_of bs b)}" "its_inj bs'"
proof -
  show "slots bs' = slots bs - {(it_of bs b, hm_of bs b)}"
  proof (rule set_eqI, rule iffI)
    fix x assume "x \<in> slots bs'"
    from slotsE[OF this] obtain i where i: "i < length bs" "hm_of bs' i \<noteq> EMPTY_BUCKET" "x = (it_of bs' i, hm_of bs' i)"
      using assms(1) by auto
    have nb: "i \<noteq> b" using i assms(4) by auto
    then have x: "x = (it_of bs i, hm_of bs i)" "hm_of bs i \<noteq> EMPTY_BUCKET" using i assms(4,5) by auto
    then have "x \<in> slots bs" using i(1) by (intro slotsI[of i])
    moreover have "it_of bs i \<noteq> it_of bs b"
      using assms(6) i(1) assms(2,3) x(2) nb unfolding its_inj_def by blast
    ultimately show "x \<in> slots bs - {(it_of bs b, hm_of bs b)}" using x by simp
  next
    fix x assume "x \<in> slots bs - {(it_of bs b, hm_of bs b)}"
    then have 1: "x \<in> slots bs" and 2: "x \<noteq> (it_of bs b, hm_of bs b)" by auto
    from slotsE[OF 1] obtain i where i: "i < length bs" "hm_of bs i \<noteq> EMPTY_BUCKET" "x = (it_of bs i, hm_of bs i)"
      by auto
    have "i \<noteq> b" using i 2 by auto
    then have "x = (it_of bs' i, hm_of bs' i)" "hm_of bs' i \<noteq> EMPTY_BUCKET" using i assms(4,5) by auto
    moreover have "i < length bs'" using assms i by simp
    ultimately show "x \<in> slots bs'" by (intro slotsI[of i])
  qed
  show "its_inj bs'"
    unfolding its_inj_def
  proof (intro allI impI)
    fix i j assume a: "i < length bs'" "j < length bs'" "hm_of bs' i \<noteq> EMPTY_BUCKET"
      "hm_of bs' j \<noteq> EMPTY_BUCKET" "it_of bs' i = it_of bs' j"
    have "i \<noteq> b" "j \<noteq> b" using a assms(4) by auto
    then have "i < length bs" "j < length bs" "hm_of bs i \<noteq> EMPTY_BUCKET" "hm_of bs j \<noteq> EMPTY_BUCKET"
      "it_of bs i = it_of bs j" using a assms(1,4,5) by auto
    then show "i = j" using assms(6) unfolding its_inj_def by blast
  qed
qed

subsection \<open>InsertObject\<close>

lemma deref_entry:
  "entries_ok s \<Longrightarrow> (nd, k, v) \<in> set (objects s) \<Longrightarrow> deref s (Node nd) = Some (k, v)"
  by (simp add: deref_def entries_ok_def)

lemma deref_SomeD:
  "deref s it = Some kv \<Longrightarrow> \<exists>nd. it = Node nd \<and> (nd, kv) \<in> set (objects s)"
  by (cases it) (auto simp: deref_def dest: map_of_SomeD)

lemma placed_fst: "nd \<notin> placed s \<Longrightarrow> Node nd \<notin> fst ` slots (buckets s)"
  by (force simp: placed_def)

lemma InsertObject_spec:
  assumes ti: "table_inv s" and ent: "(nd, k, v) \<in> set (objects s)" and new: "nd \<notin> placed s"
  shows "\<exists>i s'. InsertObject s (Node nd) = Some (i, s') \<and>
     objects s' = objects s \<and> hasher s' = hasher s \<and> neighbourhood_size s' = neighbourhood_size s \<and>
     length (buckets s') = length (buckets s) \<and> table_inv s' \<and>
     (i = length (buckets s') \<longrightarrow> placed s' = placed s) \<and>
     (i \<noteq> length (buckets s') \<longrightarrow> i < length (buckets s') \<and> placed s' = insert nd (placed s) \<and>
        it_of (buckets s') i = Node nd \<and> hm_of (buckets s') i = hasher s k mod length (buckets s))"
proof -
  let ?bs = "buckets s" and ?H = "neighbourhood_size s"
  let ?n = "length ?bs"
  from ti have t: "tab_ok ?H ?bs" and inj: "its_inj ?bs" and H: "0 < ?H" "?H \<le> ?n"
    and eo: "entries_ok s" and so: "slots_ok s" by (auto simp: table_inv_def)
  have d: "deref s (Node nd) = Some (k, v)" by (rule deref_entry[OF eo ent])
  define start where "start = hasher s k mod ?n"
  have "0 < ?n" using H by arith
  then have sn: "start < ?n" unfolding start_def by (rule mod_less_divisor)
  have gs: "GetStartBucket s k = start" by (simp add: GetStartBucket_def start_def)
  define f where "f = probe ?bs start"
  have "start \<le> ?n" using sn by simp
  note P = probe_spec[OF this, folded f_def]
  have run: "InsertObject s (Node nd) =
    (if f = ?n then Some (?n, s)
     else (case hop ?bs ?H start f of
                  None \<Rightarrow> None
                | Some (bs, None) \<Rightarrow> Some (length bs, s\<lparr>buckets := bs\<rparr>)
                | Some (bs, Some free_bucket) \<Rightarrow>
                    if free_bucket < start then Some (length bs, s\<lparr>buckets := bs\<rparr>)
                    else
                      (case install bs start free_bucket (Node nd) of
                         None \<Rightarrow> None
                       | Some bs' \<Rightarrow> Some (free_bucket, s\<lparr>buckets := bs'\<rparr>))))"
    unfolding InsertObject_def d using sn by (simp add: gs Let_def f_def[symmetric])
  show ?thesis
  proof (cases "f = ?n")
    case True
    then have "InsertObject s (Node nd) = Some (?n, s)" unfolding run by simp
    then show ?thesis using ti by (intro exI[of _ ?n] exI[of _ s]) simp
  next
    case False
    then have fn: "f < ?n" using P by simp
    have hi: "hop_inv ?H ?bs start f" unfolding hop_inv_def using t P fn by simp
    from hop_correct[OF hi] obtain bs1 r where
      h: "hop ?bs ?H start f = Some (bs1, r)" and t1: "tab_ok ?H bs1" and l1: "length bs1 = ?n" and
      s1: "slots bs1 = slots ?bs" and i1: "its_inj ?bs \<longrightarrow> its_inj bs1" and
      r: "\<forall>f'. r = Some f' \<longrightarrow> hop_inv ?H bs1 start f' \<and> f' < start + ?H"
      by (elim exE conjE)
    have inj1: "its_inj bs1" using i1 inj by simp
    let ?s1 = "s\<lparr>buckets := bs1\<rparr>"
    have ti1: "table_inv ?s1"
      unfolding table_inv_def using t1 inj1 H l1 eo so s1 by (simp add: entries_ok_def slots_ok_def)
    have pl1: "placed ?s1 = placed s" by (simp add: placed_def s1)
    show ?thesis
    proof (cases r)
      case None
      then have "InsertObject s (Node nd) = Some (length bs1, ?s1)" unfolding run using False h by simp
      then show ?thesis using ti1 pl1 l1 by (intro exI[of _ "length bs1"] exI[of _ ?s1]) simp
    next
      case (Some f')
      with r have hi': "hop_inv ?H bs1 start f'" and near: "f' < start + ?H" by auto
      then have sf: "start \<le> f'" "f' < length bs1" and emp: "hm_of bs1 f' = EMPTY_BUCKET"
        by (auto simp: hop_inv_def)
      from install_views[OF t1 sf near emp, of "Node nd"] obtain bs2 where
        ins: "install bs1 start f' (Node nd) = Some bs2" and l2: "length bs2 = length bs1" and
        t2: "tab_ok ?H bs2" and h2: "hm_of bs2 = (hm_of bs1)(f' := start)" and
        it2: "it_of bs2 = (it_of bs1)(f' := Node nd)"
        by (elim exE conjE)
      let ?s2 = "s\<lparr>buckets := bs2\<rparr>"
      have runr: "InsertObject s (Node nd) = Some (f', ?s2)"
        unfolding run using False h Some sf ins by simp
      note c = tab_okD[OF t]
      have se: "start \<noteq> EMPTY_BUCKET" using sn chains_bound[OF c] by simp
      have sl2: "slots bs2 = insert (Node nd, start) (slots ?bs)"
        using slots_install[OF l2 sf(2) emp se h2 it2] s1 by simp
      have nn: "Node nd \<notin> fst ` slots bs1" using placed_fst[OF new] s1 by simp
      have inj2: "its_inj bs2" by (rule its_inj_install[OF l2 sf(2) emp h2 it2 inj1 nn])
      have so2: "slots_ok ?s2"
        unfolding slots_ok_def
      proof
        fix x assume "x \<in> slots (buckets ?s2)"
        then consider "x = (Node nd, start)" | "x \<in> slots ?bs" using sl2 by auto
        then show "\<exists>nd k v. fst x = Node nd \<and> (nd, k, v) \<in> set (objects ?s2) \<and>
            snd x = hasher ?s2 k mod length (buckets ?s2)"
        proof cases
          case 1
          then show ?thesis using ent l2 l1 by (intro exI[of _ nd] exI[of _ k] exI[of _ v]) (simp add: start_def)
        next
          case 2
          with so show ?thesis unfolding slots_ok_def using l2 l1 by simp
        qed
      qed
      have ti2: "table_inv ?s2"
        unfolding table_inv_def using t2 inj2 H l1 l2 eo so2 by (simp add: entries_ok_def)
      have pl2: "placed ?s2 = insert nd (placed s)"
        by (auto simp: placed_def sl2)
      have at: "it_of bs2 f' = Node nd" "hm_of bs2 f' = start" by (simp_all add: h2 it2)
      show ?thesis
        using runr ti2 pl2 at sf l1 l2
        by (intro exI[of _ f'] exI[of _ ?s2]) (simp add: start_def)
    qed
  qed
qed

subsection \<open>FindObject\<close>

lemma occupied_entry:
  assumes ti: "table_inv s" and i: "i < length (buckets s)" and o: "hm_of (buckets s) i \<noteq> EMPTY_BUCKET"
  shows "\<exists>nd k v. it_of (buckets s) i = Node nd \<and> (nd, k, v) \<in> set (objects s) \<and>
     deref s (it_of (buckets s) i) = Some (k, v) \<and>
     hm_of (buckets s) i = hasher s k mod length (buckets s)"
proof -
  from ti have eo: "entries_ok s" and so: "slots_ok s" by (auto simp: table_inv_def)
  have "(it_of (buckets s) i, hm_of (buckets s) i) \<in> slots (buckets s)"
    using i o by (intro slotsI[of i]) auto
  with so obtain nd k v where
    1: "it_of (buckets s) i = Node nd" "(nd, k, v) \<in> set (objects s)"
       "hm_of (buckets s) i = hasher s k mod length (buckets s)"
    unfolding slots_ok_def by fastforce
  have "deref s (Node nd) = Some (k, v)" by (rule deref_entry[OF eo 1(2)])
  then show ?thesis using 1 by auto
qed

lemma holds_home:
  assumes ti: "table_inv s" and h: "holds s i key"
  shows "hm_of (buckets s) i = hasher s key mod length (buckets s)"
proof -
  from h have i: "i < length (buckets s)" and o: "hm_of (buckets s) i \<noteq> EMPTY_BUCKET"
    and d: "\<exists>v. deref s (it_of (buckets s) i) = Some (key, v)" by (auto simp: holds_def)
  from occupied_entry[OF ti i o] d show ?thesis by auto
qed

lemma holds_unique:
  assumes ti: "table_inv s" and hi: "holds s i key" and hj: "holds s j key"
  shows "i = j"
proof -
  from ti have eo: "entries_ok s" and inj: "its_inj (buckets s)" by (auto simp: table_inv_def)
  from hi obtain v where i: "i < length (buckets s)" "hm_of (buckets s) i \<noteq> EMPTY_BUCKET"
    "deref s (it_of (buckets s) i) = Some (key, v)" by (auto simp: holds_def)
  from hj obtain w where j: "j < length (buckets s)" "hm_of (buckets s) j \<noteq> EMPTY_BUCKET"
    "deref s (it_of (buckets s) j) = Some (key, w)" by (auto simp: holds_def)
  from deref_SomeD[OF i(3)] obtain a where a: "it_of (buckets s) i = Node a" "(a, key, v) \<in> set (objects s)" by auto
  from deref_SomeD[OF j(3)] obtain b where b: "it_of (buckets s) j = Node b" "(b, key, w) \<in> set (objects s)" by auto
  have "distinct (map (\<lambda>e. fst (snd e)) (objects s))" using eo by (simp add: entries_ok_def)
  then have "inj_on (\<lambda>e. fst (snd e)) (set (objects s))" by (rule distinct_map[THEN iffD1, THEN conjunct2])
  from inj_onD[OF this _ a(2) b(2)] have "a = b" by simp
  then have "it_of (buckets s) i = it_of (buckets s) j" using a b by simp
  then show ?thesis using inj i j unfolding its_inj_def by blast
qed

lemma walk_spec:
  assumes ti: "table_inv s"
  shows "i < length (buckets s) \<Longrightarrow> hm_of (buckets s) i = h \<Longrightarrow> h \<noteq> EMPTY_BUCKET \<Longrightarrow>
    \<exists>j. walk s key i = Some j \<and> j < length (buckets s) \<and> hm_of (buckets s) j = h \<and>
      (holds s j key \<or> (\<forall>i'. i \<le> i' \<and> hm_of (buckets s) i' = h \<longrightarrow> \<not> holds s i' key))"
proof (induction "length (buckets s) - i" arbitrary: i rule: less_induct)
  case less
  let ?bs = "buckets s"
  let ?n = "length ?bs"
  from ti have t: "tab_ok (neighbourhood_size s) ?bs" by (simp add: table_inv_def)
  note c = tab_okD[OF t] and wr = tab_ok_wr[OF t]
  have o: "hm_of ?bs i \<noteq> EMPTY_BUCKET" using less.prems by simp
  from occupied_entry[OF ti less.prems(1) o] obtain nd k v where
    e: "it_of ?bs i = Node nd" "deref s (it_of ?bs i) = Some (k, v)" by auto
  have d: "deref s (object_it (?bs ! i)) = Some (k, v)" using e by (simp add: it_of_def)
  have w: "walk s key i = (if k \<noteq> key \<and> nx_of ?bs i \<noteq> NULL_DELTA
      then walk s key (sz_add i (nx_of ?bs i)) else Some i)"
    by (subst walk.simps) (simp add: less.prems(1) d nx_of_def)
  have hi: "holds s i key \<longleftrightarrow> k = key"
    using less.prems(1) o e by (auto simp: holds_def)
  show ?case
  proof (cases "k = key")
    case True
    then have "walk s key i = Some i" unfolding w by simp
    then show ?thesis using less.prems hi True by auto
  next
    case nk: False
    show ?thesis
    proof (cases "nx_of ?bs i = NULL_DELTA")
      case True
      then have r: "walk s key i = Some i" unfolding w by simp
      have "\<not> holds s i' key" if "i \<le> i' \<and> hm_of ?bs i' = h" for i'
      proof (cases "i' = i")
        case True then show ?thesis using hi nk by simp
      next
        case False
        show ?thesis
        proof
          assume "holds s i' key"
          then have "i' < ?n" by (simp add: holds_def)
          from chains_succ[OF c less.prems(1) this o] that False less.prems(2) True
          show False by auto
        qed
      qed
      then show ?thesis using r less.prems by auto
    next
      case nx: False
      note X = chains_next[OF c less.prems(1) o nx]
      have z: "sz_add i (nx_of ?bs i) = i + nx_of ?bs i" using X wr by (simp add: sz_add_small)
      have r: "walk s key i = walk s key (i + nx_of ?bs i)" unfolding w z using nk nx by simp
      have m: "?n - (i + nx_of ?bs i) < ?n - i" using X by arith
      have "hm_of ?bs (i + nx_of ?bs i) = h" using X less.prems(2) by simp
      from less.hyps[OF m _ this less.prems(3)] X obtain j where
        j: "walk s key (i + nx_of ?bs i) = Some j" "j < ?n" "hm_of ?bs j = h"
          "holds s j key \<or> (\<forall>i'. i + nx_of ?bs i \<le> i' \<and> hm_of ?bs i' = h \<longrightarrow> \<not> holds s i' key)"
        by auto
      have "holds s j key \<or> (\<forall>i'. i \<le> i' \<and> hm_of ?bs i' = h \<longrightarrow> \<not> holds s i' key)"
      proof (cases "holds s j key")
        case False
        with j(4) have far: "\<And>i'. i + nx_of ?bs i \<le> i' \<Longrightarrow> hm_of ?bs i' = h \<Longrightarrow> \<not> holds s i' key" by blast
        have "\<not> holds s i' key" if "i \<le> i' \<and> hm_of ?bs i' = h" for i'
        proof (cases "i' = i")
          case True then show ?thesis using hi nk by simp
        next
          case ne: False
          show ?thesis
          proof
            assume a: "holds s i' key"
            then have "i' < ?n" by (simp add: holds_def)
            from chains_succ[OF c less.prems(1) this o] that ne less.prems(2)
            have "i + nx_of ?bs i \<le> i'" by auto
            from far[OF this] that a show False by simp
          qed
        qed
        then show ?thesis by blast
      qed simp
      then show ?thesis unfolding r using j by auto
    qed
  qed
qed

lemma FindObject_spec:
  assumes ti: "table_inv s"
  shows "\<exists>r. FindObject s key = Some r \<and>
     (holds s r key \<or> (r = length (buckets s) \<and> (\<forall>i. \<not> holds s i key)))"
proof -
  let ?bs = "buckets s"
  let ?n = "length ?bs"
  from ti have t: "tab_ok (neighbourhood_size s) ?bs" and H: "0 < neighbourhood_size s" "neighbourhood_size s \<le> ?n"
    by (auto simp: table_inv_def)
  note c = tab_okD[OF t] and wr = tab_ok_wr[OF t]
  define h where "h = hasher s key mod ?n"
  have "0 < ?n" using H by arith
  then have hn: "h < ?n" unfolding h_def by (rule mod_less_divisor)
  have he: "h \<noteq> EMPTY_BUCKET" using hn chains_bound[OF c] by simp
  have gs: "GetStartBucket s key = h" by (simp add: GetStartBucket_def h_def)
  have home: "hm_of ?bs i = h" if "holds s i key" for i
    using holds_home[OF ti that] by (simp add: h_def)
  show ?thesis
  proof (cases "fd_of ?bs h = NULL_DELTA")
    case True
    then have r: "FindObject s key = Some ?n"
      unfolding FindObject_def gs using hn by (simp add: fd_of_def)
    have "\<not> holds s i key" for i
    proof
      assume a: "holds s i key"
      then have "i < ?n" "hm_of ?bs i \<noteq> EMPTY_BUCKET" by (auto simp: holds_def)
      from chains_first[OF c this] home[OF a] True show False by simp
    qed
    then show ?thesis using r by simp
  next
    case False
    note Fh = chains_home[OF c hn False]
    define t0 where "t0 = h + fd_of ?bs h"
    have z: "sz_add h (first_delta (?bs ! h)) = t0" using Fh wr by (simp add: sz_add_small fd_of_def t0_def)
    have "t0 < ?n" "hm_of ?bs t0 = h" using Fh by (auto simp: t0_def)
    from walk_spec[OF ti this he, of key] obtain j where
      j: "walk s key t0 = Some j" "j < ?n" "hm_of ?bs j = h"
        "holds s j key \<or> (\<forall>i'. t0 \<le> i' \<and> hm_of ?bs i' = h \<longrightarrow> \<not> holds s i' key)"
      by auto
    have oj: "hm_of ?bs j \<noteq> EMPTY_BUCKET" using j he by simp
    from occupied_entry[OF ti j(2) oj] obtain nd k v where
      e: "deref s (it_of ?bs j) = Some (k, v)" by auto
    have hj: "holds s j key \<longleftrightarrow> k = key" using j(2) oj e by (auto simp: holds_def)
    have r: "FindObject s key = (if k \<noteq> key then Some ?n else Some j)"
      unfolding FindObject_def gs using hn False e by (simp add: z j(1) fd_of_def it_of_def)
    show ?thesis
    proof (cases "k = key")
      case True
      then show ?thesis using r hj by simp
    next
      case nk: False
      with j(4) hj have far: "\<And>i'. t0 \<le> i' \<Longrightarrow> hm_of ?bs i' = h \<Longrightarrow> \<not> holds s i' key" by blast
      have "\<not> holds s i key" for i
      proof
        assume a: "holds s i key"
        then have "i < ?n" "hm_of ?bs i \<noteq> EMPTY_BUCKET" by (auto simp: holds_def)
        from chains_first[OF c this] home[OF a] have "t0 \<le> i" by (simp add: t0_def)
        from far[OF this home[OF a]] a show False by simp
      qed
      then show ?thesis using r nk by simp
    qed
  qed
qed

subsection \<open>Reallocate and HandleCollision\<close>

lemma reinsert_spec:
  "table_inv s \<Longrightarrow> set hs \<subseteq> fst ` set (objects s) \<Longrightarrow> distinct hs \<Longrightarrow> set hs \<inter> placed s = {} \<Longrightarrow>
   \<exists>ok s'. reinsert s hs = Some (ok, s') \<and> objects s' = objects s \<and> hasher s' = hasher s \<and>
     neighbourhood_size s' = neighbourhood_size s \<and> length (buckets s') = length (buckets s) \<and>
     table_inv s' \<and> (ok \<longrightarrow> placed s' = placed s \<union> set hs)"
proof (induction hs arbitrary: s)
  case Nil
  then show ?case by (intro exI[of _ True] exI[of _ s]) simp
next
  case (Cons nd hs)
  from Cons.prems(2) obtain k v where ent: "(nd, k, v) \<in> set (objects s)" by auto
  have new: "nd \<notin> placed s" using Cons.prems(4) by auto
  from InsertObject_spec[OF Cons.prems(1) ent new] obtain i s1 where
    io: "InsertObject s (Node nd) = Some (i, s1)" and o1: "objects s1 = objects s" and
    h1: "hasher s1 = hasher s" and n1: "neighbourhood_size s1 = neighbourhood_size s" and
    l1: "length (buckets s1) = length (buckets s)" and t1: "table_inv s1" and
    f1: "i = length (buckets s1) \<longrightarrow> placed s1 = placed s" and
    g1: "i \<noteq> length (buckets s1) \<longrightarrow> i < length (buckets s1) \<and> placed s1 = insert nd (placed s) \<and>
        it_of (buckets s1) i = Node nd \<and> hm_of (buckets s1) i = hasher s k mod length (buckets s)"
    by (elim exE conjE)
  show ?case
  proof (cases "i = length (buckets s1)")
    case True
    then have "reinsert s (nd # hs) = Some (False, s1)" using io by simp
    then show ?thesis using o1 h1 n1 l1 t1 by (intro exI[of _ False] exI[of _ s1]) simp
  next
    case False
    then have r: "reinsert s (nd # hs) = reinsert s1 hs" using io by simp
    have p1: "placed s1 = insert nd (placed s)" using g1 False by simp
    have a: "set hs \<subseteq> fst ` set (objects s1)" using Cons.prems(2) o1 by simp
    have b: "distinct hs" using Cons.prems(3) by simp
    have c: "set hs \<inter> placed s1 = {}" using Cons.prems(3,4) p1 by auto
    from Cons.IH[OF t1 a b c] obtain ok s' where
      "reinsert s1 hs = Some (ok, s')" "objects s' = objects s1" "hasher s' = hasher s1"
      "neighbourhood_size s' = neighbourhood_size s1" "length (buckets s') = length (buckets s1)"
      "table_inv s'" "ok \<longrightarrow> placed s' = placed s1 \<union> set hs"
      by (elim exE conjE)
    then show ?thesis unfolding r using o1 h1 n1 l1 p1
      by (intro exI[of _ ok] exI[of _ s']) auto
  qed
qed

lemma view_replicate:
  "i < c \<Longrightarrow> hm_of (replicate c empty_Bucket) i = EMPTY_BUCKET"
  "i < c \<Longrightarrow> nx_of (replicate c empty_Bucket) i = NULL_DELTA"
  "i < c \<Longrightarrow> pv_of (replicate c empty_Bucket) i = NULL_DELTA"
  "i < c \<Longrightarrow> fd_of (replicate c empty_Bucket) i = NULL_DELTA"
  by (simp_all add: view_defs empty_Bucket_def)

lemma tab_ok_replicate: "c \<le> max_size \<Longrightarrow> tab_ok h (replicate c empty_Bucket)"
proof -
  assume c: "c \<le> max_size"
  have "c \<le> SIZE_MAX" using c max_size_lt by simp
  then show ?thesis
    unfolding tab_ok_def chains_def using c
    by (simp add: view_replicate NULL_DELTA_def EMPTY_BUCKET_def)
qed

lemma slots_replicate: "slots (replicate c empty_Bucket) = {}"
  by (auto simp: slots_def view_replicate)

lemma table_inv_fresh:
  assumes "entries_ok s" "0 < h" "h \<le> c" "c \<le> max_size"
  shows "table_inv (s\<lparr>buckets := replicate c empty_Bucket, neighbourhood_size := h\<rparr>)"
  unfolding table_inv_def using assms tab_ok_replicate[OF assms(4)]
  by (simp add: slots_replicate its_inj_def view_replicate entries_ok_def slots_ok_def)

lemma Reallocate_spec:
  assumes eo: "entries_ok s" and h: "0 < h" "h \<le> c" and c: "c \<le> max_size"
    and grow: "\<not> (c \<le> length (buckets s) \<and> h \<le> neighbourhood_size s)"
  shows "\<exists>ok s'. Reallocate s c h = Some (Inr (ok, s')) \<and> objects s' = objects s \<and>
     hasher s' = hasher s \<and> neighbourhood_size s' = h \<and> length (buckets s') = c \<and>
     table_inv s' \<and> (ok \<longrightarrow> inv s')"
proof -
  let ?s0 = "s\<lparr>buckets := replicate c empty_Bucket, neighbourhood_size := h\<rparr>"
  have t0: "table_inv ?s0" by (rule table_inv_fresh[OF eo h c])
  have p0: "placed ?s0 = {}" by (simp add: placed_def slots_replicate)
  have a: "set (map fst (objects ?s0)) \<subseteq> fst ` set (objects ?s0)" by simp
  have b: "distinct (map fst (objects ?s0))" using eo by (simp add: entries_ok_def)
  have d: "set (map fst (objects ?s0)) \<inter> placed ?s0 = {}" unfolding p0 by simp
  from reinsert_spec[OF t0 a b d] obtain ok s' where
    r: "reinsert ?s0 (map fst (objects ?s0)) = Some (ok, s')" and o: "objects s' = objects ?s0" and
    hs: "hasher s' = hasher ?s0" and n: "neighbourhood_size s' = neighbourhood_size ?s0" and
    l: "length (buckets s') = length (buckets ?s0)" and t: "table_inv s'" and
    p: "ok \<longrightarrow> placed s' = placed ?s0 \<union> set (map fst (objects ?s0))"
    by (elim exE conjE)
  have g0: "(c \<le> length (buckets s) \<and> h \<le> neighbourhood_size s) = False" using grow by simp
  have c0: "(max_size < c) = False" using c by simp
  have run: "Reallocate s c h = Some (Inr (ok, s'))"
    unfolding Reallocate_def g0 c0 using r by (simp add: Let_def)
  have "ok \<longrightarrow> inv s'" unfolding inv_def using t p o p0 by auto
  then show ?thesis using run o hs n l t
    by (intro exI[of _ ok] exI[of _ s']) simp
qed

lemma sz_mul_3: "a \<le> max_size \<Longrightarrow> sz_mul a 3 = 3 * a"
proof -
  assume "a \<le> max_size"
  then have "a * 3 < word_range" by (simp add: max_size_def word_range_def)
  then show ?thesis by (simp add: sz_mul_def mult.commute)
qed

lemma HandleCollision_loop_spec:
  "growable s \<Longrightarrow>
   \<exists>r. HandleCollision_loop s = Some r \<and>
     (r = Inl OutOfMemory \<or> (\<exists>s'. r = Inr s' \<and> inv s' \<and> objects s' = objects s \<and> hasher s' = hasher s))"
proof (induction "max_size - neighbourhood_size s" arbitrary: s rule: less_induct)
  case less
  let ?H = "neighbourhood_size s" and ?n = "length (buckets s)"
  from less.prems have eo: "entries_ok s" and H: "0 < ?H" "?H \<le> ?n" and n: "?n \<le> max_size"
    by (auto simp: growable_def)
  define h where "h = sz_mul ?H neighbourhood_modifier"
  define c where "c = grow_capacity s"
  have h3: "h = 3 * ?H" using H n by (simp add: h_def neighbourhood_modifier_def sz_mul_3)
  have c3: "c = (if 3 * ?H \<ge> ?n \<or> length (objects s) \<ge> ?n then 3 * ?n else ?n)"
    using H n by (simp add: c_def grow_capacity_def neighbourhood_modifier_def size_modifier_def sz_mul_3)
  have hc: "0 < h" "h \<le> c" using H unfolding h3 c3 by auto
  have grow: "\<not> (c \<le> ?n \<and> h \<le> ?H)" using H unfolding h3 by simp
  have eq: "HandleCollision_loop s =
     (case Reallocate s c h of
        None \<Rightarrow> None
      | Some (Inl e) \<Rightarrow> Some (Inl e)
      | Some (Inr (handle, s')) \<Rightarrow> if handle then Some (Inr s') else HandleCollision_loop s')"
    by (subst HandleCollision_loop.simps) (simp add: c_def h_def)
  show ?case
  proof (cases "c \<le> max_size")
    case False
    moreover have "(c \<le> ?n \<and> h \<le> ?H) = False" using grow by simp
    ultimately have "Reallocate s c h = Some (Inl OutOfMemory)"
      unfolding Reallocate_def by simp
    then show ?thesis unfolding eq by simp
  next
    case True
    from Reallocate_spec[OF eo hc True grow] obtain ok s' where
      r: "Reallocate s c h = Some (Inr (ok, s'))" and o: "objects s' = objects s" and
      hs: "hasher s' = hasher s" and n': "neighbourhood_size s' = h" and
      l: "length (buckets s') = c" and t: "table_inv s'" and i: "ok \<longrightarrow> inv s'"
      by (elim exE conjE)
    show ?thesis
    proof (cases ok)
      case True
      then have "HandleCollision_loop s = Some (Inr s')" unfolding eq r by simp
      then show ?thesis using i True o hs by simp
    next
      case False
      then have e: "HandleCollision_loop s = HandleCollision_loop s'" unfolding eq r by simp
      have g: "growable s'" unfolding growable_def using eo o n' l hc \<open>c \<le> max_size\<close>
        by (simp add: entries_ok_def)
      have m: "max_size - neighbourhood_size s' < max_size - ?H"
        using n' hc \<open>c \<le> max_size\<close> H unfolding h3 by arith
      from less.hyps[OF m g] show ?thesis unfolding e o hs .
    qed
  qed
qed

lemma HandleCollision_spec:
  assumes g: "growable s"
  shows "\<exists>r. HandleCollision s = Some r \<and>
     (r = Inl OutOfMemory \<or> (\<exists>s'. r = Inr s' \<and> inv s' \<and> objects s' = objects s \<and> hasher s' = hasher s))"
proof (cases "length (objects s) \<ge> length (buckets s)")
  case False
  then have "HandleCollision s = HandleCollision_loop s" by (simp add: HandleCollision_def)
  then show ?thesis using HandleCollision_loop_spec[OF g] by simp
next
  case True
  let ?H = "neighbourhood_size s" and ?n = "length (buckets s)"
  from g have eo: "entries_ok s" and H: "0 < ?H" "?H \<le> ?n" and n: "?n \<le> max_size"
    by (auto simp: growable_def)
  define c where "c = sz_mul ?n size_modifier"
  have c3: "c = 3 * ?n" using n by (simp add: c_def size_modifier_def sz_mul_3)
  have hc: "?H \<le> c" using H unfolding c3 by simp
  have "0 < ?n" using H by arith
  then have grow: "\<not> (c \<le> ?n \<and> ?H \<le> ?H)" unfolding c3 by arith
  have eq: "HandleCollision s =
     (case Reallocate s c ?H of
        None \<Rightarrow> None
      | Some (Inl e) \<Rightarrow> Some (Inl e)
      | Some (Inr (handle, s')) \<Rightarrow> if handle then Some (Inr s') else HandleCollision_loop s')"
    using True by (simp add: HandleCollision_def c_def)
  show ?thesis
  proof (cases "c \<le> max_size")
    case False
    moreover have "(c \<le> ?n \<and> ?H \<le> ?H) = False" using grow by simp
    ultimately have "Reallocate s c ?H = Some (Inl OutOfMemory)"
      unfolding Reallocate_def by simp
    then show ?thesis unfolding eq by simp
  next
    case cm: True
    from Reallocate_spec[OF eo H(1) hc cm grow] obtain ok s' where
      r: "Reallocate s c ?H = Some (Inr (ok, s'))" and o: "objects s' = objects s" and
      hs: "hasher s' = hasher s" and n': "neighbourhood_size s' = ?H" and
      l: "length (buckets s') = c" and t: "table_inv s'" and i: "ok \<longrightarrow> inv s'"
      by (elim exE conjE)
    show ?thesis
    proof (cases ok)
      case True
      then have "HandleCollision s = Some (Inr s')" unfolding eq r by simp
      then show ?thesis using i True o hs by simp
    next
      case False
      then have e: "HandleCollision s = HandleCollision_loop s'" unfolding eq r by simp
      have g': "growable s'" unfolding growable_def using eo o n' l hc cm H
        by (simp add: entries_ok_def)
      from HandleCollision_loop_spec[OF g'] show ?thesis unfolding e o hs .
    qed
  qed
qed

subsection \<open>find, at and insert\<close>

lemma inv_table: "inv s \<Longrightarrow> table_inv s"
  by (simp add: inv_def)

lemma keys_distinct: "entries_ok s \<Longrightarrow> distinct (map fst (map snd (objects s)))"
  by (simp add: entries_ok_def comp_def)

lemma lookup_entry:
  assumes "entries_ok s" "(nd, k, v) \<in> set (objects s)"
  shows "lookup s k = Some v"
proof -
  have "(k, v) \<in> set (map snd (objects s))" using assms(2) by force
  then show ?thesis unfolding lookup_def using keys_distinct[OF assms(1)] by simp
qed

lemma lookup_SomeD: "lookup s k = Some v \<Longrightarrow> \<exists>nd. (nd, k, v) \<in> set (objects s)"
proof -
  assume "lookup s k = Some v"
  then have "(k, v) \<in> set (map snd (objects s))" unfolding lookup_def by (rule map_of_SomeD)
  then show ?thesis by auto
qed

lemma holds_lookup:
  assumes ti: "table_inv s" and h: "holds s i k"
  shows "\<exists>v. deref s (it_of (buckets s) i) = Some (k, v) \<and> lookup s k = Some v"
proof -
  from ti have eo: "entries_ok s" by (simp add: table_inv_def)
  from h obtain v where d: "deref s (it_of (buckets s) i) = Some (k, v)" by (auto simp: holds_def)
  from deref_SomeD[OF d] obtain nd where "(nd, k, v) \<in> set (objects s)" by auto
  from lookup_entry[OF eo this] d show ?thesis by simp
qed

lemma lookup_holds:
  assumes i: "inv s" and l: "lookup s k = Some v"
  shows "\<exists>i. holds s i k"
proof -
  from i have ti: "table_inv s" and cp: "fst ` set (objects s) \<subseteq> placed s" by (auto simp: inv_def)
  from ti have eo: "entries_ok s" by (simp add: table_inv_def)
  from lookup_SomeD[OF l] obtain nd where e: "(nd, k, v) \<in> set (objects s)" by auto
  then have "nd \<in> placed s" using cp by force
  then obtain h where "(Node nd, h) \<in> slots (buckets s)" by (auto simp: placed_def)
  from slotsE[OF this] obtain j where j: "j < length (buckets s)" "hm_of (buckets s) j \<noteq> EMPTY_BUCKET"
    "it_of (buckets s) j = Node nd" by auto
  have "deref s (Node nd) = Some (k, v)" by (rule deref_entry[OF eo e])
  then have "holds s j k" using j by (auto simp: holds_def)
  then show ?thesis ..
qed

lemma absent_no_holder:
  assumes ti: "table_inv s" and l: "lookup s k = None"
  shows "\<not> holds s i k"
proof
  assume "holds s i k"
  from holds_lookup[OF ti this] l show False by simp
qed

lemma FindObject_present:
  assumes i: "inv s" and l: "lookup s k = Some v"
  shows "\<exists>r. FindObject s k = Some r \<and> r < length (buckets s) \<and>
     hm_of (buckets s) r \<noteq> EMPTY_BUCKET \<and> deref s (object_it (buckets s ! r)) = Some (k, v)"
proof -
  note ti = inv_table[OF i]
  from lookup_holds[OF i l] obtain j where j: "holds s j k" ..
  from FindObject_spec[OF ti, of k] obtain r where
    r: "FindObject s k = Some r" "holds s r k \<or> (r = length (buckets s) \<and> (\<forall>i. \<not> holds s i k))" by auto
  with j have h: "holds s r k" by auto
  from holds_lookup[OF ti h] l have "deref s (it_of (buckets s) r) = Some (k, v)" by auto
  then show ?thesis using r(1) h by (auto simp: holds_def it_of_def)
qed

lemma FindObject_absent:
  assumes i: "inv s" and l: "lookup s k = None"
  shows "FindObject s k = Some (length (buckets s))"
proof -
  note ti = inv_table[OF i]
  from FindObject_spec[OF ti, of k] obtain r where
    r: "FindObject s k = Some r" "holds s r k \<or> (r = length (buckets s) \<and> (\<forall>i. \<not> holds s i k))" by auto
  with absent_no_holder[OF ti l] show ?thesis by auto
qed

lemma find_hm_spec:
  assumes i: "inv s"
  shows "find_hm s k = (case lookup s k of None \<Rightarrow> Some End
     | Some v \<Rightarrow> Some (object_it (buckets s ! the (FindObject s k))))"
    and "lookup s k = Some v \<Longrightarrow> \<exists>it. find_hm s k = Some it \<and> deref s it = Some (k, v)"
proof -
  show "find_hm s k = (case lookup s k of None \<Rightarrow> Some End
     | Some v \<Rightarrow> Some (object_it (buckets s ! the (FindObject s k))))"
  proof (cases "lookup s k")
    case None
    from FindObject_absent[OF i None] show ?thesis using None by (simp add: find_hm_def)
  next
    case (Some v)
    from FindObject_present[OF i Some] show ?thesis using Some by (auto simp: find_hm_def)
  qed
  show "\<exists>it. find_hm s k = Some it \<and> deref s it = Some (k, v)" if "lookup s k = Some v"
    using FindObject_present[OF i that] by (auto simp: find_hm_def)
qed

lemma at_spec:
  assumes i: "inv s"
  shows "at s k = Some (case lookup s k of None \<Rightarrow> Inl NotFound | Some v \<Rightarrow> Inr v)"
proof (cases "lookup s k")
  case None
  from FindObject_absent[OF i None] show ?thesis using None by (simp add: at_def)
next
  case (Some v)
  from FindObject_present[OF i Some] show ?thesis using Some by (auto simp: at_def)
qed

lemma fold_max_ge: "a \<le> fold max xs (a::nat)"
  by (induction xs arbitrary: a) (auto intro: order_trans[OF max.cobounded2])

lemma fold_max_mem: "x \<in> set xs \<Longrightarrow> x \<le> fold max xs (a::nat)"
proof (induction xs arbitrary: a)
  case Nil then show ?case by simp
next
  case (Cons y ys)
  show ?case
  proof (cases "x = y")
    case True
    have "max y a \<le> fold max ys (max y a)" by (rule fold_max_ge)
    then show ?thesis using True by simp
  next
    case False
    then have "x \<in> set ys" using Cons.prems by simp
    from Cons.IH[OF this] show ?thesis by simp
  qed
qed

lemma fresh_node_new: "fresh_node objs \<notin> fst ` set objs"
proof
  assume "fresh_node objs \<in> fst ` set objs"
  then have "fresh_node objs \<in> set (map fst objs)" by simp
  from fold_max_mem[OF this, of 0] show False by (simp add: fresh_node_def)
qed

lemma placed_sub: "table_inv s \<Longrightarrow> placed s \<subseteq> fst ` set (objects s)"
proof
  fix nd assume ti: "table_inv s" and "nd \<in> placed s"
  then obtain h where "(Node nd, h) \<in> slots (buckets s)" by (auto simp: placed_def)
  moreover from ti have "slots_ok s" by (simp add: table_inv_def)
  ultimately obtain nd' k v where "Node nd = Node nd'" "(nd', k, v) \<in> set (objects s)"
    unfolding slots_ok_def by fastforce
  then show "nd \<in> fst ` set (objects s)" by force
qed

lemma table_inv_growable: "table_inv s \<Longrightarrow> growable s"
  by (simp add: table_inv_def growable_def tab_ok_def)

lemma insert_hm_present:
  assumes i: "inv s" and l: "lookup s k = Some v0"
  shows "\<exists>it. insert_hm s (k, v) = Some (Inr (it, s)) \<and> deref s it = Some (k, v0)"
  using FindObject_present[OF i l] by (auto simp: insert_hm_def)

lemma insert_hm_absent:
  assumes i: "inv s" and l: "lookup s k = None"
  shows "\<exists>r. insert_hm s (k, v) = Some r \<and>
     (r = Inl OutOfMemory \<or>
      (\<exists>s'. r = Inr (Node (fresh_node (objects s)), s') \<and> inv s' \<and>
         objects s' = (fresh_node (objects s), k, v) # objects s \<and> hasher s' = hasher s))"
proof -
  note ti = inv_table[OF i]
  from ti have t: "tab_ok (neighbourhood_size s) (buckets s)" and inj: "its_inj (buckets s)"
    and H: "0 < neighbourhood_size s" "neighbourhood_size s \<le> length (buckets s)"
    and eo: "entries_ok s" and so: "slots_ok s" by (auto simp: table_inv_def)
  from i have cp: "fst ` set (objects s) \<subseteq> placed s" by (simp add: inv_def)
  define nd where "nd = fresh_node (objects s)"
  define s1 where "s1 = s\<lparr>objects := (nd, k, v) # objects s\<rparr>"
  have fresh: "nd \<notin> fst ` set (objects s)" unfolding nd_def by (rule fresh_node_new)
  have knew: "k \<notin> (\<lambda>e. fst (snd e)) ` set (objects s)"
  proof
    assume "k \<in> (\<lambda>e. fst (snd e)) ` set (objects s)"
    then obtain a w where "(a, k, w) \<in> set (objects s)" by force
    from lookup_entry[OF eo this] l show False by simp
  qed
  have eo1: "entries_ok s1" using eo fresh knew by (simp add: entries_ok_def s1_def)
  have so1: "slots_ok s1" using so unfolding slots_ok_def s1_def by fastforce
  have ti1: "table_inv s1" unfolding table_inv_def using t inj H eo1 so1 by (simp add: s1_def)
  have pl1: "placed s1 = placed s" by (simp add: placed_def s1_def)
  have new: "nd \<notin> placed s1" using fresh placed_sub[OF ti] pl1 by auto
  have ent: "(nd, k, v) \<in> set (objects s1)" by (simp add: s1_def)
  from InsertObject_spec[OF ti1 ent new] obtain j s2 where
    io: "InsertObject s1 (Node nd) = Some (j, s2)" and o2: "objects s2 = objects s1" and
    h2: "hasher s2 = hasher s1" and t2: "table_inv s2" and
    f2: "j = length (buckets s2) \<longrightarrow> placed s2 = placed s1" and
    g2: "j \<noteq> length (buckets s2) \<longrightarrow> j < length (buckets s2) \<and> placed s2 = insert nd (placed s1) \<and>
        it_of (buckets s2) j = Node nd \<and> hm_of (buckets s2) j = hasher s1 k mod length (buckets s1)"
    by (elim exE conjE)
  have fo: "FindObject s k = Some (length (buckets s))" by (rule FindObject_absent[OF i l])
  have run: "insert_hm s (k, v) =
     (if j = length (buckets s2) then
        (case HandleCollision s2 of
           None \<Rightarrow> None
         | Some (Inl e) \<Rightarrow> Some (Inl e)
         | Some (Inr s3) \<Rightarrow>
             (case FindObject s3 k of
                None \<Rightarrow> None
              | Some it \<Rightarrow>
                  if it < length (buckets s3)
                  then Some (Inr (object_it (buckets s3 ! it), s3))
                  else None))
      else Some (Inr (object_it (buckets s2 ! j), s2)))"
    unfolding insert_hm_def fst_conv by (simp add: fo Let_def nd_def[symmetric] s1_def[symmetric] io)
  have os: "objects s1 = (nd, k, v) # objects s" "hasher s1 = hasher s" by (simp_all add: s1_def)
  show ?thesis
  proof (cases "j = length (buckets s2)")
    case False
    with g2 have g: "j < length (buckets s2)" "placed s2 = insert nd (placed s1)"
      "it_of (buckets s2) j = Node nd" by auto
    have "fst ` set (objects s2) \<subseteq> placed s2" using o2 os g(2) pl1 cp by auto
    then have i2: "inv s2" using t2 by (simp add: inv_def)
    have "insert_hm s (k, v) = Some (Inr (Node nd, s2))"
      unfolding run using False g(3) by (simp add: it_of_def)
    then show ?thesis using i2 o2 h2 os by (simp add: nd_def)
  next
    case True
    from HandleCollision_spec[OF table_inv_growable[OF t2]] obtain r where
      r: "HandleCollision s2 = Some r"
        "r = Inl OutOfMemory \<or> (\<exists>s'. r = Inr s' \<and> inv s' \<and> objects s' = objects s2 \<and> hasher s' = hasher s2)"
      by auto
    show ?thesis
    proof (cases "r = Inl OutOfMemory")
      case oom: True
      then have "insert_hm s (k, v) = Some (Inl OutOfMemory)" unfolding run using True r(1) by simp
      then show ?thesis by simp
    next
      case False
      with r(2) obtain s3 where s3: "r = Inr s3" "inv s3" "objects s3 = objects s2" "hasher s3 = hasher s2"
        by auto
      note ti3 = inv_table[OF s3(2)]
      from ti3 have eo3: "entries_ok s3" by (simp add: table_inv_def)
      have e3: "(nd, k, v) \<in> set (objects s3)" using s3(3) o2 os by simp
      have l3: "lookup s3 k = Some v" by (rule lookup_entry[OF eo3 e3])
      from FindObject_present[OF s3(2) l3] obtain q where
        q: "FindObject s3 k = Some q" "q < length (buckets s3)"
           "deref s3 (object_it (buckets s3 ! q)) = Some (k, v)" by auto
      from deref_SomeD[OF q(3)] obtain a where a: "object_it (buckets s3 ! q) = Node a"
        "(a, k, v) \<in> set (objects s3)" by auto
      have "distinct (map (\<lambda>e. fst (snd e)) (objects s3))" using eo3 by (simp add: entries_ok_def)
      then have "inj_on (\<lambda>e. fst (snd e)) (set (objects s3))" by (rule distinct_map[THEN iffD1, THEN conjunct2])
      from inj_onD[OF this _ a(2) e3] have "a = nd" by simp
      then have "insert_hm s (k, v) = Some (Inr (Node nd, s3))"
        unfolding run using True r(1) s3(1) q a(1) by simp
      then show ?thesis using s3 o2 h2 os by (simp add: nd_def)
    qed
  qed
qed

subsection \<open>erase, clear and the maps a program can hold\<close>

lemma map_of_filter_key:
  "map_of (filter (\<lambda>x. fst x \<noteq> k) xs) k' = (if k' = k then None else map_of xs k')"
  by (induction xs) auto

lemma length_filter_fst:
  "distinct (map fst xs) \<Longrightarrow> a \<in> fst ` set xs \<Longrightarrow>
   Suc (length (filter (\<lambda>e. fst e \<noteq> a) xs)) = length xs"
proof (induction xs)
  case Nil then show ?case by simp
next
  case (Cons x xs)
  show ?case
  proof (cases "fst x = a")
    case True
    then have "a \<notin> fst ` set xs" using Cons.prems(1) by auto
    then have "filter (\<lambda>e. fst e \<noteq> a) xs = xs" by (auto simp: filter_id_conv)
    then show ?thesis using True by simp
  next
    case False
    then have "a \<in> fst ` set xs" using Cons.prems(2) by auto
    from Cons.IH[OF _ this] Cons.prems(1) False show ?thesis by simp
  qed
qed

lemma erase_absent:
  assumes i: "inv s" and l: "lookup s k = None"
  shows "erase s k = Some s"
  using FindObject_absent[OF i l] by (simp add: erase_def)

lemma erase_present:
  assumes i: "inv s" and l: "lookup s k = Some v"
  shows "\<exists>s'. erase s k = Some s' \<and> inv s' \<and> hasher s' = hasher s \<and>
     lookup s' = (lookup s)(k := None) \<and> Suc (size_hm s') = size_hm s"
proof -
  note ti = inv_table[OF i]
  let ?bs = "buckets s" and ?H = "neighbourhood_size s"
  from ti have t: "tab_ok ?H ?bs" and inj: "its_inj ?bs"
    and H: "0 < ?H" "?H \<le> length ?bs"
    and eo: "entries_ok s" and so: "slots_ok s" by (auto simp: table_inv_def)
  from i have cp: "fst ` set (objects s) \<subseteq> placed s" by (simp add: inv_def)
  from FindObject_present[OF i l] obtain r where
    r: "FindObject s k = Some r" "r < length ?bs" "hm_of ?bs r \<noteq> EMPTY_BUCKET"
       "deref s (object_it (?bs ! r)) = Some (k, v)" by auto
  from deref_SomeD[OF r(4)] obtain nd where nd: "object_it (?bs ! r) = Node nd" "(nd, k, v) \<in> set (objects s)"
    by auto
  have itr: "it_of ?bs r = Node nd" using nd(1) by (simp add: it_of_def)
  have mem: "nd \<in> fst ` set (objects s)" using nd(2) by force
  from EraseObject_views[OF t r(2,3)] obtain bs' where
    e: "EraseObject ?bs r = Some bs'" and l': "length bs' = length ?bs" and t': "tab_ok ?H bs'" and
    h': "hm_of bs' = (hm_of ?bs)(r := EMPTY_BUCKET)" and i': "it_of bs' = it_of ?bs"
    by (elim exE conjE)
  define s' where "s' = s\<lparr>objects := filter (\<lambda>e. fst e \<noteq> nd) (objects s), buckets := bs'\<rparr>"
  have run: "erase s k = Some s'"
    unfolding erase_def using r(1,2) nd(1) mem e by (simp add: s'_def)
  note SE = slots_erase[OF l' r(2,3) h' i' inj]
  have sl: "slots bs' = slots ?bs - {(Node nd, hm_of ?bs r)}" using SE(1) itr by simp
  have only: "x = (Node nd, hm_of ?bs r)" if "x \<in> slots ?bs" "fst x = Node nd" for x
  proof -
    from slotsE[OF that(1)] obtain j where j: "j < length ?bs" "hm_of ?bs j \<noteq> EMPTY_BUCKET"
      "x = (it_of ?bs j, hm_of ?bs j)" by auto
    have "it_of ?bs j = it_of ?bs r" using j(3) that(2) itr by simp
    then have "j = r" using inj j(1,2) r(2,3) unfolding its_inj_def by blast
    then show ?thesis using j(3) itr by simp
  qed
  have eo': "entries_ok s'" using eo by (simp add: entries_ok_def s'_def distinct_map_filter)
  have so': "slots_ok s'"
    unfolding slots_ok_def
  proof
    fix x assume "x \<in> slots (buckets s')"
    then have x: "x \<in> slots ?bs" "x \<noteq> (Node nd, hm_of ?bs r)" using sl by (auto simp: s'_def)
    from so x(1) obtain a ka va where a: "fst x = Node a" "(a, ka, va) \<in> set (objects s)"
      "snd x = hasher s ka mod length ?bs" unfolding slots_ok_def by fastforce
    have "a \<noteq> nd" using only[OF x(1)] x(2) a(1) by auto
    then have "(a, ka, va) \<in> set (objects s')" using a(2) by (simp add: s'_def)
    then show "\<exists>nd k v. fst x = Node nd \<and> (nd, k, v) \<in> set (objects s') \<and>
        snd x = hasher s' k mod length (buckets s')"
      using a(1,3) l' by (intro exI[of _ a] exI[of _ ka] exI[of _ va]) (simp add: s'_def)
  qed
  have ti': "table_inv s'"
    unfolding table_inv_def using t' SE(2) H l' eo' so' by (simp add: s'_def)
  have cp': "fst ` set (objects s') \<subseteq> placed s'"
  proof
    fix a assume "a \<in> fst ` set (objects s')"
    then have a: "a \<in> fst ` set (objects s)" "a \<noteq> nd" by (auto simp: s'_def)
    then have "a \<in> placed s" using cp by auto
    then obtain h where "(Node a, h) \<in> slots ?bs" by (auto simp: placed_def)
    then have "(Node a, h) \<in> slots bs'" using sl a(2) by simp
    then show "a \<in> placed s'" by (auto simp: placed_def s'_def)
  qed
  have inv': "inv s'" using ti' cp' by (simp add: inv_def)
  have n1: "inj_on fst (set (objects s))" using eo by (simp add: entries_ok_def distinct_map)
  have n2: "inj_on (\<lambda>e. fst (snd e)) (set (objects s))" using eo by (simp add: entries_ok_def distinct_map)
  have same: "(fst e \<noteq> nd) = (fst (snd e) \<noteq> k)" if "e \<in> set (objects s)" for e
  proof -
    have a: "e = (nd, k, v)" if "fst e = nd"
      by (rule inj_onD[OF n1 _ \<open>e \<in> set (objects s)\<close> nd(2)]) (simp add: that)
    have b: "e = (nd, k, v)" if "fst (snd e) = k"
      by (rule inj_onD[OF n2 _ \<open>e \<in> set (objects s)\<close> nd(2)]) (simp add: that)
    show ?thesis
    proof (cases "fst e = nd")
      case True with a show ?thesis by auto
    next
      case False
      have "fst (snd e) \<noteq> k"
      proof
        assume "fst (snd e) = k"
        from b[OF this] have "fst e = nd" by (simp only: fst_conv)
        with False show False ..
      qed
      with False show ?thesis by simp
    qed
  qed
  have fl: "filter (\<lambda>e. fst e \<noteq> nd) (objects s) = filter (\<lambda>e. fst (snd e) \<noteq> k) (objects s)"
    by (rule filter_cong[OF refl same])
  have "map snd (objects s') = filter (\<lambda>x. fst x \<noteq> k) (map snd (objects s))"
    by (simp add: s'_def fl filter_map comp_def)
  then have lk: "lookup s' = (lookup s)(k := None)"
    by (simp add: lookup_def fun_eq_iff map_of_filter_key)
  have d: "distinct (map fst (objects s))" using eo by (simp add: entries_ok_def)
  have sz: "Suc (size_hm s') = size_hm s"
    using length_filter_fst[OF d mem] by (simp add: size_hm_def s'_def)
  show ?thesis using run inv' lk sz by (intro exI[of _ s']) (simp add: s'_def)
qed

lemma inv_new: "inv (HashMap_new h)"
proof -
  have 1: "entries_ok (HashMap_new h :: ('a, 'b) HashMap)" by (simp add: entries_ok_def HashMap_new_def)
  have 2: "min_neighbourhood_size \<le> max_size" by (simp add: min_neighbourhood_size_def max_size_def)
  have 3: "0 < min_neighbourhood_size" by (simp add: min_neighbourhood_size_def)
  from table_inv_fresh[OF 1 3 order_refl 2]
  have "table_inv (HashMap_new h :: ('a, 'b) HashMap)" by (simp add: HashMap_new_def)
  then show ?thesis by (simp add: inv_def HashMap_new_def)
qed

lemma inv_clear: "inv (clear s)"
proof -
  have 1: "entries_ok (s\<lparr>objects := []\<rparr>)" by (simp add: entries_ok_def)
  have 2: "min_neighbourhood_size \<le> max_size" by (simp add: min_neighbourhood_size_def max_size_def)
  have 3: "0 < min_neighbourhood_size" by (simp add: min_neighbourhood_size_def)
  from table_inv_fresh[OF 1 3 order_refl 2]
  moreover have "clear s = s\<lparr>objects := [], buckets := replicate min_neighbourhood_size empty_Bucket,
      neighbourhood_size := min_neighbourhood_size\<rparr>"
    by (cases s) (simp add: clear_def)
  ultimately have "table_inv (clear s)" by simp
  then show ?thesis by (simp add: inv_def clear_def)
qed

lemma insert_hm_inv:
  assumes i: "inv s" and r: "insert_hm s kv = Some (Inr (it, s'))"
  shows "inv s'"
proof (cases "lookup s (fst kv)")
  case None
  from insert_hm_absent[OF i None, of "snd kv"] r show ?thesis by auto
next
  case (Some v0)
  from insert_hm_present[OF i Some, of "snd kv"] r i show ?thesis by auto
qed

lemma erase_inv:
  assumes i: "inv s" and r: "erase s k = Some s'"
  shows "inv s'"
proof (cases "lookup s k")
  case None
  from erase_absent[OF i None] r i show ?thesis by simp
next
  case (Some v)
  from erase_present[OF i Some] r show ?thesis by auto
qed

lemma Reallocate_new_inv:
  assumes i: "inv other"
    and r: "Reallocate (HashMap_new (hasher other)) (capacity other) (neighbourhood_size other) =
          Some (Inr (handle, s'))"
  shows "inv (s' :: ('a, 'b) HashMap)"
proof -
  let ?new = "HashMap_new (hasher other) :: ('a, 'b) HashMap"
  let ?c = "capacity other" and ?h = "neighbourhood_size other"
  from inv_table[OF i] have H: "0 < ?h" "?h \<le> ?c"
    by (auto simp: table_inv_def capacity_def)
  show ?thesis
  proof (cases "?c \<le> length (buckets ?new) \<and> ?h \<le> neighbourhood_size ?new")
    case True
    then have "Reallocate ?new ?c ?h = Some (Inr (False, ?new))" by (simp add: Reallocate_def)
    with r have "s' = ?new" by simp
    then show ?thesis using inv_new by simp
  next
    case False
    have cm: "?c \<le> max_size"
    proof (rule ccontr)
      assume "\<not> ?c \<le> max_size"
      moreover have "(?c \<le> length (buckets ?new) \<and> ?h \<le> neighbourhood_size ?new) = False"
        using False by simp
      ultimately have "Reallocate ?new ?c ?h = Some (Inl OutOfMemory)"
        unfolding Reallocate_def by simp
      with r show False by simp
    qed
    have eo: "entries_ok ?new" by (simp add: entries_ok_def HashMap_new_def)
    from Reallocate_spec[OF eo H cm False] r
    have "objects s' = objects ?new" "table_inv s'" by auto
    then show ?thesis by (simp add: inv_def HashMap_new_def)
  qed
qed

lemma reachable_inv: "reachable s \<Longrightarrow> inv s"
proof (induction rule: reachable.induct)
  case (init h) show ?case by (rule inv_new)
next
  case (cpy other handle s') then show ?case by (auto intro: Reallocate_new_inv)
next
  case (ins s kv it s') then show ?case by (auto intro: insert_hm_inv)
next
  case (era s k s') then show ?case by (auto intro: erase_inv)
next
  case (clr s) show ?case by (rule inv_clear)
next
  case (sub s dflt k it s') then show ?case unfolding subscript_def by (auto intro: insert_hm_inv)
qed

subsection \<open>An example, by evaluation\<close>

lemma small_wr: "n \<le> 1000 \<Longrightarrow> n < word_range"
  by (simp add: word_range_def)

lemma small_ne:
  "n \<le> 1000 \<Longrightarrow> (n = NULL_DELTA) = False"
  "n \<le> 1000 \<Longrightarrow> (NULL_DELTA = n) = False"
  "n \<le> 1000 \<Longrightarrow> (n = EMPTY_BUCKET) = False"
  "n \<le> 1000 \<Longrightarrow> (EMPTY_BUCKET = n) = False"
  by (auto simp: NULL_DELTA_def EMPTY_BUCKET_def SIZE_MAX_def word_range_def)

lemma sz_add_eval: "a + b \<le> 1000 \<Longrightarrow> sz_add a b = a + b"
  by (simp add: sz_add_small small_wr)

lemma sz_sub_eval: "b \<le> a \<Longrightarrow> a \<le> 1000 \<Longrightarrow> sz_sub a b = a - b"
  by (simp add: sz_sub_small small_wr)

lemma list_update_numeral: "(x # xs)[numeral k := y] = x # xs[numeral k - 1 := y]"
  by (cases "numeral k :: nat") simp_all

lemma replicate_4: "replicate 4 x = [x, x, x, x]"
  by (simp add: numeral_eq_Suc)

lemmas eval_simps = small_ne sz_add_eval sz_sub_eval list_update_numeral replicate_4
  min_neighbourhood_size_def empty_Bucket_def upd_def Let_def deref_def GetStartBucket_def

lemma ex_insert: "insert_hm (HashMap_new (\<lambda>k. k)) (3, 5) = Some (Inr (Node 1, ex_s1))"
  by (simp add: insert_hm_def FindObject_def HashMap_new_def
      fresh_node_def InsertObject_def probe.simps hop.simps install_def
      find_previous.simps ex_s1_def eval_simps)

subsection \<open>The handle of a present key\<close>

lemma ex_s1_reachable: "reachable ex_s1"
  by (rule reachable.ins[OF reachable.init ex_insert])

lemma ex_s1_lookup: "lookup ex_s1 3 = Some 5"
  by (simp add: lookup_def ex_s1_def)

lemma present_handle:
  assumes i: "inv s" and m: "(nd, k, v) \<in> set (objects s)"
  shows "\<exists>r. FindObject s k = Some r \<and> r < length (buckets s) \<and> r \<noteq> length (buckets s) \<and>
     object_it (buckets s ! r) = Node nd"
proof -
  from inv_table[OF i] have eo: "entries_ok s" by (simp add: table_inv_def)
  have l: "lookup s k = Some v" by (rule lookup_entry[OF eo m])
  from FindObject_present[OF i l] obtain r where
    r: "FindObject s k = Some r" "r < length (buckets s)"
       "deref s (object_it (buckets s ! r)) = Some (k, v)" by auto
  from deref_SomeD[OF r(3)] obtain a where a: "object_it (buckets s ! r) = Node a"
    "(a, k, v) \<in> set (objects s)" by auto
  have "inj_on (\<lambda>e. fst (snd e)) (set (objects s))" using eo by (simp add: entries_ok_def distinct_map)
  from inj_onD[OF this _ a(2) m] have "a = nd" by simp
  then show ?thesis using r(1,2) a(1) by auto
qed

lemma insert_hm_present_handle:
  assumes i: "inv s" and m: "(nd, k, v0) \<in> set (objects s)"
  shows "insert_hm s (k, v) = Some (Inr (Node nd, s))"
  using present_handle[OF i m] unfolding insert_hm_def fst_conv by auto

subsection \<open>A run with a collision, by evaluation\<close>

lemma replicate_12: "replicate 12 x = [x, x, x, x, x, x, x, x, x, x, x, x]"
  by (simp add: numeral_eq_Suc)

lemma sz_mul_eval: "a * b \<le> 1000 \<Longrightarrow> sz_mul a b = a * b"
  by (simp add: sz_mul_def word_range_def)

lemma max_size_ge: "n \<le> 1000 \<Longrightarrow> (max_size < n) = False"
  by (simp add: max_size_def)

lemmas run_simps = insert_hm_def FindObject_def HashMap_new_def
  fresh_node_def InsertObject_def probe.simps hop.simps install_def
  find_previous.simps eval_simps bk_def

lemmas grow_simps = HandleCollision_def Reallocate_def size_modifier_def sz_mul_eval max_size_ge
  replicate_12 find_fit.simps displace_def relink_prev_def relink_next_def relink_first_def
  swap_object_def link_after_def walk.simps

lemma ex_run1: "insert_hm (HashMap_new (\<lambda>k. k)) (0, 10) = Some (Inr (Node 1, ex_t1))"
  by (simp add: run_simps ex_t1_def)

lemma ex_run2: "insert_hm ex_t1 (1, 11) = Some (Inr (Node 2, ex_t2))"
  by (simp add: run_simps ex_t1_def ex_t2_def)

lemma ex_run3: "insert_hm ex_t2 (2, 12) = Some (Inr (Node 3, ex_t3))"
  by (simp add: run_simps ex_t2_def ex_t3_def)

lemma ex_run4: "insert_hm ex_t3 (3, 13) = Some (Inr (Node 4, ex_t4))"
  by (simp add: run_simps ex_t3_def ex_t4_def)

lemma ex_run5: "insert_hm ex_t4 (12, 14) = Some (Inr (Node 5, ex_t5))"
  by (simp add: run_simps grow_simps ex_t4_def ex_t5_def)

lemma ex_low: "insert_hm (HashMap_new (\<lambda>k. k)) (2, 7) = Some (Inr (Node 1, ex_u1))"
  by (simp add: run_simps ex_u1_def)

lemma ex_place: "InsertObject (ex_t4\<lparr>objects := (5, 12, 14) # objects ex_t4\<rparr>) (Node 5) = Some (4, ex_s2)"
  by (simp add: run_simps ex_t4_def ex_s2_def)

lemma ex_collision: "HandleCollision ex_s2 = Some (Inr ex_t5)"
  by (simp add: run_simps grow_simps ex_s2_def ex_t5_def)

lemma ex_realloc: "Reallocate ex_s2 12 4 = Some (Inr (True, ex_t5))"
  by (simp add: run_simps grow_simps ex_s2_def ex_t5_def)

lemma ex_rebuild: "reinsert ex_sA [5, 4, 3, 2] = Some (True, ex_sB)"
  by (simp add: run_simps grow_simps ex_sA_def ex_sB_def ex_table_def)

lemma ex_last: "InsertObject ex_sB (Node 1) = Some (3, ex_t5)"
  by (simp add: run_simps grow_simps ex_sB_def ex_table_def ex_t5_def)

lemma ex_t4_reachable: "reachable ex_t4"
  by (rule reachable.ins[OF reachable.ins[OF reachable.ins[OF reachable.ins[OF
      reachable.init ex_run1] ex_run2] ex_run3] ex_run4])

lemma ex_t5_reachable: "reachable ex_t5"
  by (rule reachable.ins[OF ex_t4_reachable ex_run5])

lemma ex_table_nth:
  "ex_table ! 0 = bk 5 0 NULL_DELTA NULL_DELTA 0" "ex_table ! 1 = bk 2 0 NULL_DELTA NULL_DELTA 1"
  "ex_table ! Suc 0 = bk 2 0 NULL_DELTA NULL_DELTA 1"
  "ex_table ! 2 = bk 3 0 NULL_DELTA NULL_DELTA 2" "ex_table ! 3 = bk 4 0 NULL_DELTA NULL_DELTA 3"
  by (simp_all add: ex_table_def)

lemma upt_12: "[0..<12] = [0, 1, 2, 3, 4, 5, 6, 7, 8, 9, 10, 11]"
  by (simp add: upt_rec)

subsection \<open>The traversal of a chain\<close>

lemma filter_upt_empty:
  "(\<And>j. a \<le> j \<Longrightarrow> j < b \<Longrightarrow> \<not> P j) \<Longrightarrow> filter P [a..<b] = []"
  by (simp add: filter_empty_conv)

lemma filter_upt_split:
  "a \<le> b \<Longrightarrow> b \<le> c \<Longrightarrow> filter P [a..<c] = filter P [a..<b] @ filter P [b..<c]"
proof -
  assume "a \<le> b" "b \<le> c"
  then have "[a..<c] = [a..<b] @ [b..<c]" by (metis le_Suc_ex upt_add_eq_append)
  then show ?thesis by simp
qed

lemma follow_spec:
  assumes t: "tab_ok H bs"
  shows "i < length bs \<Longrightarrow> hm_of bs i \<noteq> EMPTY_BUCKET \<Longrightarrow> length bs - i \<le> fuel \<Longrightarrow>
     follow bs fuel i = Some (filter (\<lambda>j. hm_of bs j = hm_of bs i) [i..<length bs])"
proof (induction fuel arbitrary: i)
  case 0
  then show ?case by simp
next
  case (Suc fuel)
  note c = tab_okD[OF t]
  let ?n = "length bs" and ?P = "\<lambda>j. hm_of bs j = hm_of bs i"
  have i: "i < ?n" and o: "hm_of bs i \<noteq> EMPTY_BUCKET" by fact+
  have hd: "filter ?P [i..<?n] = i # filter ?P [Suc i..<?n]"
    using i by (simp add: upt_conv_Cons)
  show ?case
  proof (cases "nx_of bs i = NULL_DELTA")
    case True
    have "filter ?P [Suc i..<?n] = []"
    proof (rule filter_upt_empty)
      fix j assume j: "Suc i \<le> j" "j < ?n"
      show "\<not> ?P j"
      proof
        assume "?P j"
        from chains_succ[OF c i j(2) o this] j(1) True show False by simp
      qed
    qed
    moreover have "follow bs (Suc fuel) i = Some [i]"
      using i True by (simp add: nx_of_def)
    ultimately show ?thesis using hd by simp
  next
    case False
    from chains_next[OF c i o False]
    have n: "0 < nx_of bs i" "i + nx_of bs i < ?n" "hm_of bs (i + nx_of bs i) = hm_of bs i" by auto
    let ?k = "i + nx_of bs i"
    have wr: "?k < word_range" using n(2) tab_ok_wr[OF t] by simp
    have sa: "sz_add i (next_delta (bs ! i)) = ?k"
      using sz_add_small[OF wr] by (simp add: nx_of_def)
    have o': "hm_of bs ?k \<noteq> EMPTY_BUCKET" using n(3) o by simp
    have f: "length bs - ?k \<le> fuel" using Suc.prems(3) n(1) i by arith
    from Suc.IH[OF n(2) o' f]
    have ih: "follow bs fuel ?k = Some (filter ?P [?k..<?n])" using n(3) by simp
    have mid: "filter ?P [Suc i..<?k] = []"
    proof (rule filter_upt_empty)
      fix j assume j: "Suc i \<le> j" "j < ?k"
      show "\<not> ?P j"
      proof
        assume p: "?P j"
        have "j < ?n" using j(2) n(2) by simp
        from chains_succ[OF c i this o p] j show False by simp
      qed
    qed
    have "filter ?P [Suc i..<?n] = filter ?P [Suc i..<?k] @ filter ?P [?k..<?n]"
      using n(1,2) by (intro filter_upt_split) auto
    then have "filter ?P [i..<?n] = i # filter ?P [?k..<?n]" using hd mid by simp
    moreover have "follow bs (Suc fuel) i = map_option (Cons i) (follow bs fuel ?k)"
      using i False sa by (simp add: nx_of_def)
    ultimately show ?thesis using ih by simp
  qed
qed

lemma chain_of_spec:
  assumes t: "tab_ok H bs" and h: "h < length bs"
  shows "chain_of bs h = Some (filter (\<lambda>j. hm_of bs j = h) [0..<length bs])"
    and "(\<exists>j<length bs. hm_of bs j = h) \<Longrightarrow> fd_of bs h \<noteq> NULL_DELTA"
proof -
  note c = tab_okD[OF t]
  let ?n = "length bs" and ?P = "\<lambda>j. hm_of bs j = h"
  have hE: "h \<noteq> EMPTY_BUCKET" using chains_bound[OF c] h by auto
  show fdne: "fd_of bs h \<noteq> NULL_DELTA" if "\<exists>j<length bs. hm_of bs j = h"
  proof -
    from that obtain j where j: "j < ?n" "hm_of bs j = h" by auto
    from chains_first[OF c j(1)] j(2) hE show ?thesis by simp
  qed
  show "chain_of bs h = Some (filter ?P [0..<?n])"
  proof (cases "fd_of bs h = NULL_DELTA")
    case True
    have "filter ?P [0..<?n] = []"
    proof (rule filter_upt_empty)
      fix j assume "j < ?n"
      then show "\<not> ?P j" using fdne True by auto
    qed
    then show ?thesis using True by (simp add: chain_of_def fd_of_def)
  next
    case False
    from chains_home[OF c h False]
    have k: "h + fd_of bs h < ?n" "hm_of bs (h + fd_of bs h) = h" by auto
    let ?k = "h + fd_of bs h"
    have wr: "?k < word_range" using k(1) tab_ok_wr[OF t] by simp
    have sa: "sz_add h (first_delta (bs ! h)) = ?k"
      using sz_add_small[OF wr] by (simp add: fd_of_def)
    have o: "hm_of bs ?k \<noteq> EMPTY_BUCKET" using k(2) hE by simp
    from follow_spec[OF t k(1) o, of ?n]
    have f: "follow bs ?n ?k = Some (filter ?P [?k..<?n])" using k(2) by simp
    have low: "filter ?P [0..<?k] = []"
    proof (rule filter_upt_empty)
      fix j assume j: "j < ?k"
      show "\<not> ?P j"
      proof
        assume p: "?P j"
        have jn: "j < ?n" using j k(1) by simp
        from chains_first[OF c jn] p hE have "?k \<le> j" by simp
        with j show False by simp
      qed
    qed
    have "filter ?P [0..<?n] = filter ?P [0..<?k] @ filter ?P [?k..<?n]"
      using k(1) by (intro filter_upt_split) auto
    then show ?thesis using False f sa low by (simp add: chain_of_def fd_of_def)
  qed
qed

subsection \<open>The growth policy\<close>

lemma Reallocate_sizes:
  assumes g: "growable s" and h: "neighbourhood_size s \<le> h" "h \<le> c"
    and grow: "\<not> (c \<le> length (buckets s) \<and> h \<le> neighbourhood_size s)"
    and r: "Reallocate s c h = Some (Inr (ok, s'))"
  shows "growable s' \<and> objects s' = objects s \<and> neighbourhood_size s' = h \<and> length (buckets s') = c"
proof -
  from g have eo: "entries_ok s" and H: "0 < neighbourhood_size s" by (auto simp: growable_def)
  have h0: "0 < h" using H h(1) by arith
  have cm: "c \<le> max_size"
  proof (rule ccontr)
    assume "\<not> c \<le> max_size"
    moreover have "(c \<le> length (buckets s) \<and> h \<le> neighbourhood_size s) = False" using grow by simp
    ultimately have "Reallocate s c h = Some (Inl OutOfMemory)" unfolding Reallocate_def by simp
    with r show False by simp
  qed
  from Reallocate_spec[OF eo h0 h(2) cm grow] r
  have o: "objects s' = objects s" and n: "neighbourhood_size s' = h" and l: "length (buckets s') = c"
    by auto
  have "growable s'" unfolding growable_def using eo o n l h0 h(2) cm by (simp add: entries_ok_def)
  then show ?thesis using o n l by simp
qed

lemma loop_policy:
  assumes g: "growable s" and lt: "length (objects s) < length (buckets s)"
  shows "grow_capacity s = fst (rehash_policy s)"
    and "sz_mul (neighbourhood_size s) neighbourhood_modifier = snd (rehash_policy s)"
    and "neighbourhood_size s < snd (rehash_policy s)"
    and "snd (rehash_policy s) \<le> fst (rehash_policy s)"
    and "length (buckets s) \<le> fst (rehash_policy s)"
proof -
  let ?H = "neighbourhood_size s" and ?n = "length (buckets s)"
  from g have H: "0 < ?H" "?H \<le> ?n" and n: "?n \<le> max_size" by (auto simp: growable_def)
  have h3: "sz_mul ?H neighbourhood_modifier = 3 * ?H"
    using H n by (simp add: neighbourhood_modifier_def sz_mul_3)
  have n3: "sz_mul ?n size_modifier = 3 * ?n" using n by (simp add: size_modifier_def sz_mul_3)
  show "grow_capacity s = fst (rehash_policy s)"
    using lt by (simp add: grow_capacity_def rehash_policy_def h3 n3 size_hm_def capacity_def mult.commute)
  show "sz_mul ?H neighbourhood_modifier = snd (rehash_policy s)"
    using lt by (simp add: rehash_policy_def h3 size_hm_def capacity_def mult.commute)
  show "?H < snd (rehash_policy s)"
    using lt H by (simp add: rehash_policy_def size_hm_def capacity_def)
  show "snd (rehash_policy s) \<le> fst (rehash_policy s)"
    using lt H by (simp add: rehash_policy_def size_hm_def capacity_def)
  show "?n \<le> fst (rehash_policy s)"
    using lt H by (simp add: rehash_policy_def size_hm_def capacity_def)
qed

lemma HandleCollision_loop_rehash:
  "growable s \<Longrightarrow> length (objects s) < length (buckets s) \<Longrightarrow> HandleCollision_loop s = rehash s"
proof (induction "max_size - neighbourhood_size s" arbitrary: s rule: less_induct)
  case less
  note g = less.prems(1) and lt = less.prems(2)
  note P = loop_policy[OF g lt]
  let ?c = "fst (rehash_policy s)" and ?h = "snd (rehash_policy s)"
  have e1: "HandleCollision_loop s =
     (case Reallocate s ?c ?h of
        None \<Rightarrow> None
      | Some (Inl e) \<Rightarrow> Some (Inl e)
      | Some (Inr (handle, s')) \<Rightarrow> if handle then Some (Inr s') else HandleCollision_loop s')"
    by (subst HandleCollision_loop.simps) (simp add: P(1,2))
  have e2: "rehash s =
     (case Reallocate s ?c ?h of
        None \<Rightarrow> None
      | Some (Inl e) \<Rightarrow> Some (Inl e)
      | Some (Inr (handle, s')) \<Rightarrow> if handle then Some (Inr s') else rehash s')"
    by (subst rehash.simps) simp
  have rec: "HandleCollision_loop s' = rehash s'" if r: "Reallocate s ?c ?h = Some (Inr (False, s'))" for s'
  proof -
    have grow: "\<not> (?c \<le> length (buckets s) \<and> ?h \<le> neighbourhood_size s)" using P(3) by simp
    have hh: "neighbourhood_size s \<le> ?h" using P(3) by simp
    from Reallocate_sizes[OF g hh P(4) grow r]
    have s': "growable s'" "objects s' = objects s" "neighbourhood_size s' = ?h"
      "length (buckets s') = ?c" by auto
    have lt': "length (objects s') < length (buckets s')" using s'(2,4) lt P(5) by simp
    have "?h \<le> max_size" using s'(1) s'(3) by (simp add: growable_def)
    then have m: "max_size - neighbourhood_size s' < max_size - neighbourhood_size s"
      using P(3) s'(3) by arith
    from less.hyps[OF m s'(1) lt'] show ?thesis .
  qed
  show ?case
  proof (cases "Reallocate s ?c ?h")
    case None
    then show ?thesis unfolding e1 e2 by simp
  next
    case (Some a)
    show ?thesis
    proof (cases a)
      case (Inl e)
      then show ?thesis unfolding e1 e2 Some by simp
    next
      case (Inr p)
      obtain ok s' where p: "p = (ok, s')" by (cases p)
      show ?thesis
      proof (cases ok)
        case True
        then show ?thesis unfolding e1 e2 Some Inr p by simp
      next
        case False
        with Some Inr p have "Reallocate s ?c ?h = Some (Inr (False, s'))" by simp
        from rec[OF this] show ?thesis unfolding e1 e2 Some Inr p using False by simp
      qed
    qed
  qed
qed

lemma HandleCollision_rehash:
  assumes g: "growable s" and lt: "length (objects s) < 3 * length (buckets s)"
  shows "HandleCollision s = rehash s"
proof (cases "length (objects s) \<ge> length (buckets s)")
  case False
  then have "HandleCollision s = HandleCollision_loop s" by (simp add: HandleCollision_def)
  with HandleCollision_loop_rehash[OF g] False show ?thesis by simp
next
  case True
  let ?H = "neighbourhood_size s" and ?n = "length (buckets s)"
  from g have H: "0 < ?H" "?H \<le> ?n" and n: "?n \<le> max_size" by (auto simp: growable_def)
  have n3: "sz_mul ?n size_modifier = 3 * ?n" using n by (simp add: size_modifier_def sz_mul_3)
  have pol: "rehash_policy s = (3 * ?n, ?H)"
    using True by (simp add: rehash_policy_def size_hm_def capacity_def)
  have e1: "HandleCollision s =
     (case Reallocate s (3 * ?n) ?H of
        None \<Rightarrow> None
      | Some (Inl e) \<Rightarrow> Some (Inl e)
      | Some (Inr (handle, s')) \<Rightarrow> if handle then Some (Inr s') else HandleCollision_loop s')"
    using True by (simp add: HandleCollision_def n3)
  have e2: "rehash s =
     (case Reallocate s (3 * ?n) ?H of
        None \<Rightarrow> None
      | Some (Inl e) \<Rightarrow> Some (Inl e)
      | Some (Inr (handle, s')) \<Rightarrow> if handle then Some (Inr s') else rehash s')"
    by (subst rehash.simps) (simp add: pol)
  have rec: "HandleCollision_loop s' = rehash s'" if r: "Reallocate s (3 * ?n) ?H = Some (Inr (False, s'))" for s'
  proof -
    have "0 < ?n" using H by arith
    then have grow: "\<not> (3 * ?n \<le> ?n \<and> ?H \<le> ?H)" by arith
    have hc: "?H \<le> 3 * ?n" using H by simp
    from Reallocate_sizes[OF g order_refl hc grow r]
    have s': "growable s'" "objects s' = objects s" "length (buckets s') = 3 * ?n" by auto
    have "length (objects s') < length (buckets s')" using s'(2,3) lt by simp
    from HandleCollision_loop_rehash[OF s'(1) this] show ?thesis .
  qed
  show ?thesis
  proof (cases "Reallocate s (3 * ?n) ?H")
    case None
    then show ?thesis unfolding e1 e2 by simp
  next
    case (Some a)
    show ?thesis
    proof (cases a)
      case (Inl e)
      then show ?thesis unfolding e1 e2 Some by simp
    next
      case (Inr p)
      obtain ok s' where p: "p = (ok, s')" by (cases p)
      show ?thesis
      proof (cases ok)
        case True
        then show ?thesis unfolding e1 e2 Some Inr p by simp
      next
        case False
        with Some Inr p have "Reallocate s (3 * ?n) ?H = Some (Inr (False, s'))" by simp
        from rec[OF this] show ?thesis unfolding e1 e2 Some Inr p using False by simp
      qed
    qed
  qed
qed

lemma policy_grows:
  assumes g: "growable s"
  shows "neighbourhood_size s \<le> snd (rehash_policy s)"
    and "snd (rehash_policy s) \<le> fst (rehash_policy s)"
    and "\<not> (fst (rehash_policy s) \<le> length (buckets s) \<and> snd (rehash_policy s) \<le> neighbourhood_size s)"
proof -
  from g have H: "0 < neighbourhood_size s" "neighbourhood_size s \<le> length (buckets s)"
    "0 < length (buckets s)"
    by (auto simp: growable_def)
  show "neighbourhood_size s \<le> snd (rehash_policy s)" by (simp add: rehash_policy_def)
  show "snd (rehash_policy s) \<le> fst (rehash_policy s)"
    using H by (simp add: rehash_policy_def capacity_def)
  show "\<not> (fst (rehash_policy s) \<le> length (buckets s) \<and> snd (rehash_policy s) \<le> neighbourhood_size s)"
    using H by (simp add: rehash_policy_def capacity_def)
qed

lemma inv_count: "inv s \<Longrightarrow> length (objects s) \<le> length (buckets s)"
proof -
  assume i: "inv s"
  from inv_table[OF i] have eo: "entries_ok s" by (simp add: table_inv_def)
  have sub: "fst ` set (objects s) \<subseteq> placed s" using i by (simp add: inv_def)
  let ?f = "\<lambda>j. case it_of (buckets s) j of Node nd \<Rightarrow> nd | _ \<Rightarrow> 0"
  have "placed s \<subseteq> ?f ` {..<length (buckets s)}"
  proof
    fix nd assume "nd \<in> placed s"
    then obtain h where "(Node nd, h) \<in> slots (buckets s)" by (auto simp: placed_def)
    from slotsE[OF this] obtain j where j: "j < length (buckets s)" "Node nd = it_of (buckets s) j"
      by auto
    have "?f j = nd" using j(2)[symmetric] by simp
    with j(1) show "nd \<in> ?f ` {..<length (buckets s)}" by (intro image_eqI[of _ _ j]) auto
  qed
  with sub have "fst ` set (objects s) \<subseteq> ?f ` {..<length (buckets s)}" by (rule subset_trans)
  then have "card (fst ` set (objects s)) \<le> card (?f ` {..<length (buckets s)})"
    by (intro card_mono) auto
  also have "\<dots> \<le> card {..<length (buckets s)}" by (rule card_image_le) simp
  finally have "card (fst ` set (objects s)) \<le> length (buckets s)" by simp
  moreover have "card (fst ` set (objects s)) = length (objects s)"
    using eo distinct_card[of "map fst (objects s)"] by (simp add: entries_ok_def)
  ultimately show ?thesis by simp
qed

text \<open>\<open>insert\<close> calls \<open>HandleCollision\<close> on a map with at most one entry more than buckets.\<close>

lemma HandleCollision_call:
  assumes i: "inv s" and l: "lookup s k = None"
    and r: "InsertObject (s\<lparr>objects := (fresh_node (objects s), k, v) # objects s\<rparr>)
              (Node (fresh_node (objects s))) = Some (j, s2)"
  shows "growable s2 \<and> size_hm s2 < 3 * capacity s2"
proof -
  note ti = inv_table[OF i]
  from ti have t: "tab_ok (neighbourhood_size s) (buckets s)" and inj: "its_inj (buckets s)"
    and H: "0 < neighbourhood_size s" "neighbourhood_size s \<le> length (buckets s)"
    and eo: "entries_ok s" and so: "slots_ok s" by (auto simp: table_inv_def)
  define nd where "nd = fresh_node (objects s)"
  define s1 where "s1 = s\<lparr>objects := (nd, k, v) # objects s\<rparr>"
  have fresh: "nd \<notin> fst ` set (objects s)" unfolding nd_def by (rule fresh_node_new)
  have knew: "k \<notin> (\<lambda>e. fst (snd e)) ` set (objects s)"
  proof
    assume "k \<in> (\<lambda>e. fst (snd e)) ` set (objects s)"
    then obtain a w where "(a, k, w) \<in> set (objects s)" by force
    from lookup_entry[OF eo this] l show False by simp
  qed
  have eo1: "entries_ok s1" using eo fresh knew by (simp add: entries_ok_def s1_def)
  have so1: "slots_ok s1" using so unfolding slots_ok_def s1_def by fastforce
  have ti1: "table_inv s1" unfolding table_inv_def using t inj H eo1 so1 by (simp add: s1_def)
  have pl1: "placed s1 = placed s" by (simp add: placed_def s1_def)
  have new: "nd \<notin> placed s1" using fresh placed_sub[OF ti] pl1 by auto
  have ent: "(nd, k, v) \<in> set (objects s1)" by (simp add: s1_def)
  from InsertObject_spec[OF ti1 ent new] r
  have o2: "objects s2 = objects s1" and l2: "length (buckets s2) = length (buckets s1)"
    and t2: "table_inv s2"
    unfolding s1_def nd_def by auto
  have "length (objects s2) = Suc (length (objects s))" using o2 by (simp add: s1_def)
  moreover have "length (buckets s2) = length (buckets s)" using l2 by (simp add: s1_def)
  moreover have "0 < length (buckets s)" using H by arith
  moreover note inv_count[OF i]
  ultimately have "length (objects s2) < 3 * length (buckets s2)" by arith
  then have "size_hm s2 < 3 * capacity s2" by (simp add: size_hm_def capacity_def)
  with table_inv_growable[OF t2] show ?thesis by simp
qed

subsection \<open>The search for the occupant to displace\<close>

lemma hop_choose_fit:
  "hop bs H start_bucket free_bucket =
     (if H \<le> sz_sub free_bucket start_bucket then
        (case choose_fit bs H free_bucket of
           None \<Rightarrow> Some (bs, None)
         | Some fit_bucket \<Rightarrow>
             (case displace bs fit_bucket free_bucket of
                None \<Rightarrow> None
              | Some bs' \<Rightarrow> hop bs' H start_bucket fit_bucket))
      else Some (bs, Some free_bucket))"
  by (subst hop.simps) (simp add: choose_fit_def Let_def del: One_nat_def)

lemma find_fit_trace_snd:
  "snd (find_fit_trace bs H f fit) = find_fit bs H f fit"
proof (induction bs H f fit rule: find_fit.induct)
  case (1 bs H f fit)
  show ?case
    by (subst find_fit_trace.simps, subst find_fit.simps) (use 1 in \<open>simp add: Let_def\<close>)
qed

lemma find_fit_trace_reads:
  "i \<in> set (fst (find_fit_trace bs H f fit)) \<Longrightarrow> 0 \<le> i \<and> i < int fit"
proof (induction bs H f fit rule: find_fit_trace.induct)
  case (1 bs H f fit)
  let ?c = "fit \<noteq> 0 \<and> H > sz_add (sz_sub f fit) 1"
  let ?t = "H > sz_sub f (object_bucket (bs ! (fit - 1)))"
  show ?case
  proof (cases ?c)
    case False
    then have "fst (find_fit_trace bs H f fit) = []" by (subst find_fit_trace.simps) auto
    with 1(2) show ?thesis by simp
  next
    case True
    show ?thesis
    proof (cases ?t)
      case c: True
      with True have "fst (find_fit_trace bs H f fit) = [int fit - 1]"
        by (subst find_fit_trace.simps) auto
      with 1(2) True show ?thesis by auto
    next
      case c: False
      with True have "fst (find_fit_trace bs H f fit) =
          (int fit - 1) # fst (find_fit_trace bs H f (fit - 1))"
        by (subst find_fit_trace.simps) (auto simp: Let_def)
      with 1(2) have "i = int fit - 1 \<or> i \<in> set (fst (find_fit_trace bs H f (fit - 1)))" by auto
      then show ?thesis
      proof
        assume "i = int fit - 1" with True show ?thesis by auto
      next
        assume "i \<in> set (fst (find_fit_trace bs H f (fit - 1)))"
        from 1(1)[OF True c this] True show ?thesis by auto
      qed
    qed
  qed
qed

text \<open>The test of line 255 is the bound of the neighbourhood when the home is not above the free bucket.\<close>

lemma test_can_move:
  assumes "object_bucket (bs ! j) \<le> f" "f < word_range"
  shows "(H > sz_sub f (hm_of bs j)) = can_move bs H f j"
proof -
  have "sz_sub f (object_bucket (bs ! j)) = f - object_bucket (bs ! j)"
    using assms by (simp add: sz_sub_small)
  then show ?thesis using assms(1) by (auto simp: can_move_def hm_of_def)
qed

lemma choose_fit_spec:
  assumes H: "0 < H" "H \<le> f" and wr: "f < word_range"
    and win: "\<And>j. f < j + H \<Longrightarrow> j < f \<Longrightarrow> object_bucket (bs ! j) \<le> j"
  shows "choose_fit bs H f = Some j \<Longrightarrow>
      f < j + H \<and> j < f \<and> can_move bs H f j \<and> (\<forall>i. j < i \<and> i < f \<longrightarrow> \<not> can_move bs H f i)"
    and "f < i + H \<Longrightarrow> i < f \<Longrightarrow> can_move bs H f i \<Longrightarrow> \<exists>j. choose_fit bs H f = Some j \<and> i \<le> j"
proof -
  define fit where "fit = find_fit bs H f f"
  note S = find_fit_spec[of bs H f f, folded fit_def]
  have fitf: "fit \<le> f" using S by simp
  have d: "sz_sub f fit = f - fit" using fitf wr by (simp add: sz_sub_small)
  have a: "sz_add (f - fit) 1 = f - fit + 1" if "fit \<noteq> 0"
  proof (rule sz_add_small)
    show "f - fit + 1 < word_range" using wr that fitf by arith
  qed
  have cf: "choose_fit bs H f = (if fit = 0 \<or> f - fit + 1 \<ge> H then None else Some (fit - 1))"
  proof (cases "fit = 0")
    case True
    then show ?thesis by (simp add: choose_fit_def fit_def[symmetric])
  next
    case False
    then show ?thesis using a[OF False] by (simp add: choose_fit_def fit_def[symmetric] d)
  qed
  have no: "\<not> can_move bs H f i" if "fit \<le> i" "i < f" "f < i + H" for i
  proof -
    have "\<not> H > sz_sub f (hm_of bs i)" using S that by blast
    moreover have "object_bucket (bs ! i) \<le> f" using win[OF that(3,2)] that(2) by arith
    ultimately show ?thesis using test_can_move[OF _ wr] by blast
  qed
  show "f < j + H \<and> j < f \<and> can_move bs H f j \<and> (\<forall>i. j < i \<and> i < f \<longrightarrow> \<not> can_move bs H f i)"
    if c: "choose_fit bs H f = Some j"
  proof -
    from c have ok: "fit \<noteq> 0" "f - fit + 1 < H" and j: "j = fit - 1"
      unfolding cf by (auto split: if_splits)
    have j1: "f < j + H" using ok j by arith
    have j2: "j < f" using ok fitf j by arith
    have "H > sz_sub f (hm_of bs (fit - 1))" using S ok d a[OF ok(1)] by simp
    moreover have "object_bucket (bs ! j) \<le> f" using win[OF j1 j2] j2 by arith
    ultimately have j3: "can_move bs H f j" using test_can_move[OF _ wr, of bs j H] j by simp
    have j4: "\<not> can_move bs H f i" if "j < i \<and> i < f" for i
    proof (rule no)
      show "fit \<le> i" using that j by arith
      show "i < f" using that by simp
      show "f < i + H" using that j1 by arith
    qed
    from j1 j2 j3 j4 show ?thesis by blast
  qed
  show "\<exists>j. choose_fit bs H f = Some j \<and> i \<le> j"
    if i: "f < i + H" "i < f" "can_move bs H f i"
  proof -
    have lt: "i < fit"
    proof (rule ccontr)
      assume "\<not> i < fit"
      then have "fit \<le> i" by simp
      from no[OF this i(2,1)] i(3) show False by simp
    qed
    then have "fit \<noteq> 0" "f - fit + 1 < H" using i(1) fitf by arith+
    then have "choose_fit bs H f = Some (fit - 1)" unfolding cf by simp
    moreover have "i \<le> fit - 1" using lt by arith
    ultimately show ?thesis by simp
  qed
qed

text \<open>At the head of the hop loop, when the loop is entered, the window lies in the table.\<close>

lemma hop_window:
  assumes inv: "hop_inv H bs start f" and far: "H \<le> sz_sub f start"
  shows "H \<le> f" and "f < word_range"
    and "f < j + H \<Longrightarrow> j < f \<Longrightarrow> object_bucket (bs ! j) \<noteq> EMPTY_BUCKET \<and> object_bucket (bs ! j) \<le> j"
proof -
  from inv have t: "tab_ok H bs" and sf: "start \<le> f" "f < length bs"
    and occ: "\<And>j. start \<le> j \<Longrightarrow> j < f \<Longrightarrow> hm_of bs j \<noteq> EMPTY_BUCKET"
    by (auto simp: hop_inv_def)
  note c = tab_okD[OF t] and wr = tab_ok_wr[OF t]
  have d1: "sz_sub f start = f - start" using sf wr by (simp add: sz_sub_small)
  show "H \<le> f" using far d1 by arith
  show "f < word_range" using sf wr by arith
  show "object_bucket (bs ! j) \<noteq> EMPTY_BUCKET \<and> object_bucket (bs ! j) \<le> j" if "f < j + H" "j < f"
  proof -
    have "start \<le> j" using far d1 that by arith
    from occ[OF this that(2)] have o: "hm_of bs j \<noteq> EMPTY_BUCKET" .
    have "j < length bs" using that(2) sf by arith
    from chains_near[OF c this o] o show ?thesis by (simp add: hm_of_def)
  qed
qed

lemma ex_find_fit: "find_fit ex_table 4 4 4 = 4"
  by (subst find_fit.simps) (simp add: ex_table_nth bk_def sz_add_eval sz_sub_eval)

lemma ex_choose_fit: "choose_fit ex_table 4 4 = Some 3"
  by (simp add: choose_fit_def ex_find_fit sz_add_eval sz_sub_eval)

text \<open>Every bucket the search reads lies in the window of the free bucket.\<close>

lemma find_fit_trace_window:
  "fit \<le> f \<Longrightarrow> f < word_range \<Longrightarrow> i \<in> set (fst (find_fit_trace bs H f fit)) \<Longrightarrow>
   int f < i + int H \<and> i < int fit"
proof (induction bs H f fit rule: find_fit_trace.induct)
  case (1 bs H f fit)
  let ?c = "fit \<noteq> 0 \<and> H > sz_add (sz_sub f fit) 1"
  let ?t = "H > sz_sub f (object_bucket (bs ! (fit - 1)))"
  note fitf = \<open>fit \<le> f\<close> and wr = \<open>f < word_range\<close> and mem = \<open>i \<in> set (fst (find_fit_trace bs H f fit))\<close>
  show ?case
  proof (cases ?c)
    case False
    then have "fst (find_fit_trace bs H f fit) = []" by (subst find_fit_trace.simps) auto
    with mem show ?thesis by simp
  next
    case True
    have d: "sz_sub f fit = f - fit" using fitf wr by (simp add: sz_sub_small)
    have a: "sz_add (f - fit) 1 = f - fit + 1"
    proof (rule sz_add_small)
      show "f - fit + 1 < word_range" using wr True fitf by arith
    qed
    have near: "f - fit + 1 < H" using True d a by simp
    have here: "int f < (int fit - 1) + int H \<and> int fit - 1 < int fit" using near True fitf by auto
    show ?thesis
    proof (cases ?t)
      case c: True
      with True have "fst (find_fit_trace bs H f fit) = [int fit - 1]"
        by (subst find_fit_trace.simps) auto
      with mem here show ?thesis by auto
    next
      case c: False
      with True have "fst (find_fit_trace bs H f fit) =
          (int fit - 1) # fst (find_fit_trace bs H f (fit - 1))"
        by (subst find_fit_trace.simps) (auto simp: Let_def)
      with mem have "i = int fit - 1 \<or> i \<in> set (fst (find_fit_trace bs H f (fit - 1)))" by auto
      then show ?thesis
      proof
        assume "i = int fit - 1" with here show ?thesis by simp
      next
        assume m: "i \<in> set (fst (find_fit_trace bs H f (fit - 1)))"
        have "fit - 1 \<le> f" using fitf by arith
        from 1(1)[OF True c this wr m] True show ?thesis by auto
      qed
    qed
  qed
qed

text \<open>
  \<open>InsertObject\<close> enters the hop loop in the situation \<open>hop_inv\<close>: the probe of lines 245-247
  has found the free bucket, and the buckets from the home bucket to it are occupied.
\<close>

lemma InsertObject_hop_inv:
  assumes ti: "table_inv s"
    and f: "probe (buckets s) (GetStartBucket s key) < length (buckets s)"
  shows "hop_inv (neighbourhood_size s) (buckets s) (GetStartBucket s key)
           (probe (buckets s) (GetStartBucket s key))"
    and "0 < neighbourhood_size s"
proof -
  let ?bs = "buckets s" and ?start = "GetStartBucket s key"
  from ti have t: "tab_ok (neighbourhood_size s) ?bs"
    and H: "0 < neighbourhood_size s" "neighbourhood_size s \<le> length ?bs"
    by (auto simp: table_inv_def)
  have "0 < length ?bs" using H by arith
  then have "?start < length ?bs" unfolding GetStartBucket_def by (rule mod_less_divisor)
  then have "?start \<le> length ?bs" by simp
  note P = probe_spec[OF this]
  show "hop_inv (neighbourhood_size s) ?bs ?start (probe ?bs ?start)"
    unfolding hop_inv_def using t P f by simp
  show "0 < neighbourhood_size s" by (rule H(1))
qed

text \<open>
  A free bucket among the first \<open>H - 1\<close> buckets: the hop loop is not entered, and
  \<open>InsertObject\<close> places the entry in the free bucket.
\<close>

lemma hop_low_edge:
  assumes inv: "hop_inv H bs start f" and low: "f + 1 < H"
  shows "hop bs H start f = Some (bs, Some f)"
    and "\<exists>bs'. install bs start f obj = Some bs' \<and> length bs' = length bs \<and>
           object_it (bs' ! f) = obj \<and> object_bucket (bs' ! f) = start"
proof -
  from inv have t: "tab_ok H bs" and sf: "start \<le> f" "f < length bs"
    and emp: "hm_of bs f = EMPTY_BUCKET" by (auto simp: hop_inv_def)
  note wr = tab_ok_wr[OF t]
  have d1: "sz_sub f start = f - start" using sf wr by (simp add: sz_sub_small)
  have "\<not> H \<le> sz_sub f start" using low unfolding d1 by arith
  then show "hop bs H start f = Some (bs, Some f)" by (subst hop.simps) simp
  have near: "f < start + H" using low by arith
  from install_views[OF t sf near emp, of obj] obtain bs' where
    i: "install bs start f obj = Some bs'" "length bs' = length bs"
       "hm_of bs' = (hm_of bs)(f := start)" "it_of bs' = (it_of bs)(f := obj)"
    by (elim exE conjE)
  have "object_it (bs' ! f) = obj" using fun_cong[OF i(4), of f] by (simp add: it_of_def)
  moreover have "object_bucket (bs' ! f) = start" using fun_cong[OF i(3), of f] by (simp add: hm_of_def)
  ultimately show "\<exists>bs'. install bs start f obj = Some bs' \<and> length bs' = length bs \<and>
           object_it (bs' ! f) = obj \<and> object_bucket (bs' ! f) = start"
    using i(1,2) by blast
qed

lemma InsertObject_low_edge:
  assumes ti: "table_inv s" and d: "deref s it = Some (key, v)"
    and f: "probe (buckets s) (GetStartBucket s key) < length (buckets s)"
    and low: "probe (buckets s) (GetStartBucket s key) + 1 < neighbourhood_size s"
  shows "\<exists>bs'. InsertObject s it = Some (probe (buckets s) (GetStartBucket s key), s\<lparr>buckets := bs'\<rparr>) \<and>
     object_it (bs' ! probe (buckets s) (GetStartBucket s key)) = it"
proof -
  let ?bs = "buckets s" and ?start = "GetStartBucket s key"
  let ?f = "probe ?bs ?start"
  note hi = InsertObject_hop_inv(1)[OF ti f]
  from hi have sf: "?start \<le> ?f" by (simp add: hop_inv_def)
  have sn: "?start < length ?bs" using sf f by arith
  note L = hop_low_edge[OF hi low]
  from L(2)[of it] obtain bs' where
    i: "install ?bs ?start ?f it = Some bs'" "object_it (bs' ! ?f) = it" by blast
  have "InsertObject s it = Some (?f, s\<lparr>buckets := bs'\<rparr>)"
    unfolding InsertObject_def d using sn f sf L(1) i(1) by (simp add: Let_def)
  with i(2) show ?thesis by blast
qed

text \<open>A step of the hop loop leads to the situation \<open>hop_inv\<close> again.\<close>

lemma hop_inv_step:
  assumes inv: "hop_inv H bs start f" and far: "H \<le> sz_sub f start"
    and c: "choose_fit bs H f = Some j"
  shows "\<exists>bs1. displace bs j f = Some bs1 \<and> hop_inv H bs1 start j"
proof -
  from inv have t: "tab_ok H bs" and sf: "start \<le> f" "f < length bs" by (auto simp: hop_inv_def)
  define fit where "fit = find_fit bs H f f"
  from c have ok: "\<not> (fit = 0 \<or> sz_add (sz_sub f fit) 1 \<ge> H)" and j: "j = fit - 1"
    by (auto simp: choose_fit_def fit_def Let_def split: if_splits)
  note st = hop_step[OF inv far fit_def ok]
  then have pre: "disp_pre H (length bs) (hm_of bs) (nx_of bs) (pv_of bs) (fd_of bs) (fit - 1) f"
    and lo: "start \<le> fit - 1" by auto
  from displace_views[OF pre tab_ok_len[OF t]] obtain bs1 where
    d: "displace bs (fit - 1) f = Some bs1" and l: "length bs1 = length bs" and
    v: "hm_of bs1 = disp_hm (hm_of bs) (fit - 1) f"
       "nx_of bs1 = disp_nx (nx_of bs) (pv_of bs) (fit - 1) f"
       "pv_of bs1 = disp_pv (nx_of bs) (pv_of bs) (fit - 1) f"
       "fd_of bs1 = disp_fd (hm_of bs) (fd_of bs) (fit - 1) f"
    by blast
  have t1: "tab_ok H bs1"
    unfolding tab_ok_def l v using chains_displace[OF pre] tab_ok_len[OF t] by simp
  from pre have p: "fit - 1 < f" "hm_of bs (fit - 1) \<noteq> EMPTY_BUCKET" "hm_of bs f = EMPTY_BUCKET"
    by (auto simp: disp_pre_def)
  have "hop_inv H bs1 start (fit - 1)"
    unfolding hop_inv_def using t1 lo p sf l inv
    by (auto simp: v disp_hm_def hop_inv_def)
  with d show ?thesis unfolding j by blast
qed

text \<open>The table of the rebuild in the run with a collision has the chain structure.\<close>

lemma ex_table_ok: "tab_ok 4 ex_table"
proof -
  have eo: "entries_ok ex_sA" by (simp add: entries_ok_def ex_sA_def)
  have "table_inv (ex_sA\<lparr>buckets := replicate 12 empty_Bucket, neighbourhood_size := 4\<rparr>)"
    by (rule table_inv_fresh[OF eo]) (simp_all add: max_size_def)
  moreover have "ex_sA\<lparr>buckets := replicate 12 empty_Bucket, neighbourhood_size := 4\<rparr> = ex_sA"
    by (simp add: ex_sA_def)
  ultimately have ti: "table_inv ex_sA" by simp
  have pl: "placed ex_sA = {}" by (simp add: placed_def ex_sA_def slots_replicate)
  have "\<exists>ok s'. reinsert ex_sA [5, 4, 3, 2] = Some (ok, s') \<and> objects s' = objects ex_sA \<and>
     hasher s' = hasher ex_sA \<and> neighbourhood_size s' = neighbourhood_size ex_sA \<and>
     length (buckets s') = length (buckets ex_sA) \<and>
     table_inv s' \<and> (ok \<longrightarrow> placed s' = placed ex_sA \<union> set [5, 4, 3, 2])"
    by (rule reinsert_spec[OF ti]) (simp_all add: pl, simp add: ex_sA_def)
  then have "table_inv ex_sB" unfolding ex_rebuild by auto
  then show ?thesis by (simp add: table_inv_def ex_sB_def)
qed

lemma ex_hop_inv: "hop_inv 4 ex_table 0 4"
proof -
  have e: "hm_of ex_table 4 = EMPTY_BUCKET" by (simp add: hm_of_def ex_table_def empty_Bucket_def)
  have o: "hm_of ex_table j \<noteq> EMPTY_BUCKET" if "j < 4" for j
  proof -
    from that have "j = 0 \<or> j = 1 \<or> j = 2 \<or> j = 3" by arith
    then show ?thesis by (auto simp: hm_of_def ex_table_nth bk_def small_ne)
  qed
  have l: "(4::nat) < length ex_table" by (simp add: ex_table_def)
  show ?thesis unfolding hop_inv_def using ex_table_ok e o l by simp
qed

lemma ex_new_hop_inv: "hop_inv 4 (replicate 4 empty_Bucket) 2 2"
proof -
  have t: "tab_ok 4 (replicate 4 empty_Bucket)" by (rule tab_ok_replicate) (simp add: max_size_def)
  have e: "hm_of (replicate 4 empty_Bucket) 2 = EMPTY_BUCKET" by (rule view_replicate) simp
  show ?thesis unfolding hop_inv_def using t e by simp
qed

lemma ex_trace: "find_fit_trace ex_table 4 4 4 = ([3], 4)"
  by (subst find_fit_trace.simps) (simp add: ex_table_nth bk_def sz_add_eval sz_sub_eval)

section \<open>Claims\<close>

text \<open>
  C1. The neighbourhood invariant. In every map built by the constructors and the public
  operations \<open>insert\<close>, \<open>erase\<close>, \<open>clear\<close> and \<open>operator[]\<close>, every occupied bucket, at
  index \<open>i\<close>, holds an entry of the list whose home \<open>hash(key) mod capacity\<close> is the
  \<open>object_bucket\<close> recorded in the bucket, and \<open>0 \<le> i - home < H\<close> for the current
  neighbourhood size \<open>H\<close>.
\<close>

theorem neighbourhood_invariant:
  assumes "reachable s" and "i < capacity s" and "object_bucket (buckets s ! i) \<noteq> EMPTY_BUCKET"
  shows "\<exists>k v. deref s (object_it (buckets s ! i)) = Some (k, v) \<and>
     object_bucket (buckets s ! i) = hasher s k mod capacity s \<and>
     object_bucket (buckets s ! i) \<le> i \<and>
     i < object_bucket (buckets s ! i) + neighbourhood_size s"
proof -
  from reachable_inv[OF assms(1)] have ti: "table_inv s" by (rule inv_table)
  have i: "i < length (buckets s)" using assms(2) by (simp add: capacity_def)
  have o: "hm_of (buckets s) i \<noteq> EMPTY_BUCKET" using assms(3) by (simp add: hm_of_def)
  from ti have "tab_ok (neighbourhood_size s) (buckets s)" by (simp add: table_inv_def)
  from chains_near[OF tab_okD[OF this] i o]
  have n: "hm_of (buckets s) i \<le> i \<and> i < hm_of (buckets s) i + neighbourhood_size s" .
  from occupied_entry[OF ti i o] n show ?thesis
    by (auto simp: hm_of_def it_of_def capacity_def)
qed

theorem neighbourhood_invariant_witness:
  "reachable ex_t5 \<and> (4::nat) < capacity ex_t5 \<and>
   object_bucket (buckets ex_t5 ! 4) \<noteq> EMPTY_BUCKET \<and>
   deref ex_t5 (object_it (buckets ex_t5 ! 4)) = Some (3, 13) \<and>
   object_bucket (buckets ex_t5 ! 4) = hasher ex_t5 3 mod capacity ex_t5 \<and>
   object_bucket (buckets ex_t5 ! 4) \<le> 4 \<and>
   4 < object_bucket (buckets ex_t5 ! 4) + neighbourhood_size ex_t5"
proof -
  have a: "(4::nat) < capacity ex_t5" by (simp add: capacity_def ex_t5_def)
  have b: "object_bucket (buckets ex_t5 ! 4) \<noteq> EMPTY_BUCKET"
    by (simp add: ex_t5_def bk_def small_ne)
  have d: "deref ex_t5 (object_it (buckets ex_t5 ! 4)) = Some (3, 13)"
    by (simp add: ex_t5_def bk_def deref_def)
  from neighbourhood_invariant[OF ex_t5_reachable a b] ex_t5_reachable a b d show ?thesis by auto
qed

text \<open>
  C2. \<open>insert\<close> never overwrites. When \<open>insert(k, v1)\<close> has returned the handle \<open>it1\<close>, a
  following \<open>insert(k, v2)\<close> returns the same handle \<open>it1\<close> and leaves the map, hence its
  size and every stored value, unchanged. The value stored for \<open>k\<close> is \<open>v1\<close> when \<open>k\<close> was
  absent before the first call, and otherwise the value that was stored before it.
\<close>

theorem insert_no_overwrite:
  assumes "reachable s" and "insert_hm s (k, v1) = Some (Inr (it1, s1))"
  shows "insert_hm s1 (k, v2) = Some (Inr (it1, s1)) \<and>
     lookup s1 k = Some (case lookup s k of None \<Rightarrow> v1 | Some v0 \<Rightarrow> v0)"
proof -
  note i = reachable_inv[OF assms(1)]
  show ?thesis
  proof (cases "lookup s k")
    case None
    from insert_hm_absent[OF i None, of v1] assms(2)
    have s1: "it1 = Node (fresh_node (objects s))" "inv s1"
      "objects s1 = (fresh_node (objects s), k, v1) # objects s" by auto
    have m: "(fresh_node (objects s), k, v1) \<in> set (objects s1)" using s1(3) by simp
    have "lookup s1 k = Some v1" using s1(3) by (simp add: lookup_def)
    with insert_hm_present_handle[OF s1(2) m, of v2] s1(1) None show ?thesis by simp
  next
    case (Some v0)
    from lookup_SomeD[OF Some] obtain nd where m: "(nd, k, v0) \<in> set (objects s)" ..
    from insert_hm_present_handle[OF i m, of v1] assms(2) have e: "it1 = Node nd" "s1 = s" by auto
    from insert_hm_present_handle[OF i m, of v2] e Some show ?thesis by simp
  qed
qed

theorem insert_no_overwrite_witness:
  "reachable (HashMap_new (\<lambda>k. k) :: (nat, nat) HashMap) \<and>
   insert_hm (HashMap_new (\<lambda>k. k)) (3, 5) = Some (Inr (Node 1, ex_s1)) \<and>
   insert_hm ex_s1 (3, 7) = Some (Inr (Node 1, ex_s1)) \<and>
   lookup ex_s1 3 = Some 5"
proof -
  have r: "reachable (HashMap_new (\<lambda>k. k) :: (nat, nat) HashMap)" by (rule reachable.init)
  have "lookup (HashMap_new (\<lambda>k. k) :: (nat, nat) HashMap) 3 = None"
    by (simp add: lookup_def HashMap_new_def)
  with insert_no_overwrite[OF r ex_insert, of 7] r ex_insert show ?thesis by simp
qed

text \<open>
  The value \<open>v1\<close> of the first of two calls is not the stored value when the key was
  present before: with \<open>3 \<mapsto> 5\<close> stored, \<open>insert(3, 7)\<close> and then \<open>insert(3, 9)\<close> leave \<open>5\<close>.
\<close>

theorem insert_keeps_earlier_value:
  "reachable ex_s1 \<and>
   insert_hm ex_s1 (3, 7) = Some (Inr (Node 1, ex_s1)) \<and>
   insert_hm ex_s1 (3, 9) = Some (Inr (Node 1, ex_s1)) \<and>
   lookup ex_s1 3 = Some 5 \<and> at ex_s1 3 = Some (Inr 5)"
proof -
  note i = reachable_inv[OF ex_s1_reachable]
  have m: "(1, 3, 5) \<in> set (objects ex_s1)" by (simp add: ex_s1_def)
  have "at ex_s1 3 = Some (Inr 5)" unfolding at_spec[OF i] using ex_s1_lookup by simp
  with insert_hm_present_handle[OF i m, of 7] insert_hm_present_handle[OF i m, of 9]
    ex_s1_reachable ex_s1_lookup show ?thesis by simp
qed

text \<open>
  C3. The occupant the hop loop displaces. Let \<open>f\<close> be the free bucket, with \<open>H \<le> f\<close> as the
  guard of the hop loop ensures, and let every bucket of the window
  \<open>[f - (H - 1), f - 1]\<close> hold an entry whose home is not above it (lemma \<open>hop_window\<close>:
  this is so whenever the loop is entered). Then the bucket chosen lies in the window,
  its occupant can move to \<open>f\<close> within the neighbourhood of its home, and no bucket of
  the window above it has such an occupant: the search, which runs downward from
  \<open>f - 1\<close>, takes the candidate with the largest index, the one nearest to \<open>f\<close>. A
  candidate is chosen whenever the window has one.
\<close>

theorem hop_chooses_nearest:
  assumes "0 < H" and "H \<le> f" and "f < word_range"
    and "\<forall>j. f < j + H \<and> j < f \<longrightarrow> object_bucket (bs ! j) \<le> j"
  shows "(\<forall>j. choose_fit bs H f = Some j \<longrightarrow>
            f < j + H \<and> j < f \<and> can_move bs H f j \<and>
            (\<forall>i. j < i \<and> i < f \<longrightarrow> \<not> can_move bs H f i)) \<and>
         (\<forall>i. f < i + H \<and> i < f \<and> can_move bs H f i \<longrightarrow>
            (\<exists>j. choose_fit bs H f = Some j \<and> i \<le> j))"
proof -
  have win: "\<And>j. f < j + H \<Longrightarrow> j < f \<Longrightarrow> object_bucket (bs ! j) \<le> j" using assms(4) by blast
  note S = choose_fit_spec[OF assms(1,2,3) win]
  show ?thesis using S(1) S(2) by blast
qed

theorem hop_chooses_nearest_witness:
  "(0::nat) < 4 \<and> (4::nat) \<le> 4 \<and> (4::nat) < word_range \<and>
   object_bucket (ex_table ! 1) \<le> 1 \<and> object_bucket (ex_table ! 2) \<le> 2 \<and>
   object_bucket (ex_table ! 3) \<le> 3 \<and>
   choose_fit ex_table 4 4 = Some 3 \<and> (4::nat) < 3 + 4 \<and> (3::nat) < 4 \<and>
   can_move ex_table 4 4 3"
proof -
  have w: "(4::nat) < word_range" by (simp add: word_range_def)
  have b: "object_bucket (ex_table ! 1) \<le> 1" "object_bucket (ex_table ! 2) \<le> 2"
    "object_bucket (ex_table ! 3) \<le> 3"
    by (simp_all add: ex_table_nth bk_def)
  have h: "\<forall>j. 4 < j + 4 \<and> j < 4 \<longrightarrow> object_bucket (ex_table ! j) \<le> j"
  proof (intro allI impI)
    fix j :: nat assume "4 < j + 4 \<and> j < 4"
    then have "j = 1 \<or> j = 2 \<or> j = 3" by arith
    then show "object_bucket (ex_table ! j) \<le> j" using b by auto
  qed
  from hop_chooses_nearest[of 4 4 ex_table, OF _ _ w h] ex_choose_fit w b show ?thesis by auto
qed

text \<open>
  The candidate taken is not the one with the smallest index. In the run that inserts the
  keys 0, 1, 2, 3 and 12 (identity hasher), the last insertion rebuilds the table with
  twelve buckets; when the entry of key 0 is placed again the table is \<open>ex_table\<close>, the
  free bucket is 4 and the buckets 1, 2 and 3 of its window each hold an occupant that
  can move to it. The search takes bucket 3, and the hop loop goes on from the table in
  which the occupant of bucket 3 has moved: in the map \<open>ex_t5\<close> that the insertion returns,
  bucket 4 holds the entry that was in bucket 3 and bucket 1 has kept its entry.
\<close>

theorem hop_not_earliest:
  "reachable ex_t4 \<and> insert_hm ex_t4 (12, 14) = Some (Inr (Node 5, ex_t5)) \<and>
   reinsert ex_sA [5, 4, 3, 2] = Some (True, ex_sB) \<and> buckets ex_sB = ex_table \<and>
   InsertObject ex_sB (Node 1) = Some (3, ex_t5) \<and>
   choose_fit ex_table 4 4 = Some 3 \<and>
   (4::nat) < 1 + 4 \<and> (1::nat) < 4 \<and> can_move ex_table 4 4 1 \<and> (1::nat) < 3 \<and>
   hop ex_table 4 0 4 = (case displace ex_table 3 4 of None \<Rightarrow> None | Some bs' \<Rightarrow> hop bs' 4 0 3) \<and>
   object_it (buckets ex_t5 ! 4) = Node 4 \<and> object_it (buckets ex_t5 ! 1) = Node 2"
proof -
  have 1: "can_move ex_table 4 4 1" by (simp add: can_move_def ex_table_nth bk_def)
  have 2: "hop ex_table 4 0 4 = (case displace ex_table 3 4 of None \<Rightarrow> None | Some bs' \<Rightarrow> hop bs' 4 0 3)"
    by (subst hop_choose_fit) (simp add: ex_choose_fit sz_sub_eval)
  have 3: "buckets ex_sB = ex_table" by (simp add: ex_sB_def)
  have 4: "object_it (buckets ex_t5 ! 4) = Node 4" "object_it (buckets ex_t5 ! 1) = Node 2"
    by (simp_all add: ex_t5_def bk_def)
  from ex_t4_reachable ex_run5 ex_rebuild ex_last ex_choose_fit 1 2 3 4 show ?thesis by simp
qed

text \<open>
  C4. The growth policy. For a map whose sizes are in range and which has fewer than three
  times as many entries as buckets (lemma \<open>HandleCollision_call\<close>: so it is when
  \<open>insert\<close> calls \<open>HandleCollision\<close>), \<open>HandleCollision\<close> is the loop \<open>rehash\<close>: every
  call of \<open>Reallocate\<close> it makes has the capacity and the neighbourhood size of
  \<open>rehash_policy\<close>, that is capacity \<open>\<times> 3\<close> and \<open>H\<close> when the entry count is at least the
  capacity, else capacity \<open>\<times> 3\<close> and \<open>H \<times> 3\<close> when \<open>H \<times> 3\<close> is at least the capacity, else
  the capacity and \<open>H \<times> 3\<close>. The table a call leaves has these sizes, and after a call
  that fails the entry count is below the capacity.
\<close>

theorem rehash_growth_policy:
  assumes "growable s" and "size_hm s < 3 * capacity s"
  shows "HandleCollision s = rehash s \<and>
     (\<forall>handle s'. Reallocate s (fst (rehash_policy s)) (snd (rehash_policy s)) = Some (Inr (handle, s')) \<longrightarrow>
        capacity s' = fst (rehash_policy s) \<and> neighbourhood_size s' = snd (rehash_policy s) \<and>
        growable s' \<and> size_hm s' = size_hm s \<and> (\<not> handle \<longrightarrow> size_hm s' < capacity s'))"
proof -
  have lt: "length (objects s) < 3 * length (buckets s)"
    using assms(2) by (simp add: size_hm_def capacity_def)
  have 1: "HandleCollision s = rehash s" by (rule HandleCollision_rehash[OF assms(1) lt])
  have 2: "capacity s' = fst (rehash_policy s) \<and> neighbourhood_size s' = snd (rehash_policy s) \<and>
        growable s' \<and> size_hm s' = size_hm s \<and> (\<not> handle \<longrightarrow> size_hm s' < capacity s')"
    if r: "Reallocate s (fst (rehash_policy s)) (snd (rehash_policy s)) = Some (Inr (handle, s'))"
    for handle s'
  proof -
    note G = policy_grows[OF assms(1)]
    from Reallocate_sizes[OF assms(1) G(1) G(2) G(3) r]
    have s': "growable s'" "objects s' = objects s" "neighbourhood_size s' = snd (rehash_policy s)"
      "length (buckets s') = fst (rehash_policy s)" by auto
    have "size_hm s < fst (rehash_policy s)"
      using assms(2) by (simp add: rehash_policy_def)
    then show ?thesis using s' by (simp add: capacity_def size_hm_def)
  qed
  from 1 2 show ?thesis by blast
qed

theorem rehash_growth_policy_witness:
  "growable ex_s2 \<and> size_hm ex_s2 < 3 * capacity ex_s2 \<and> rehash_policy ex_s2 = (12, 4) \<and>
   HandleCollision ex_s2 = rehash ex_s2 \<and> rehash ex_s2 = Some (Inr ex_t5) \<and>
   Reallocate ex_s2 12 4 = Some (Inr (True, ex_t5)) \<and>
   capacity ex_t5 = 12 \<and> neighbourhood_size ex_t5 = 4"
proof -
  have g: "growable ex_s2"
    by (simp add: growable_def entries_ok_def ex_s2_def max_size_def)
  have c: "size_hm ex_s2 < 3 * capacity ex_s2" by (simp add: size_hm_def capacity_def ex_s2_def)
  have p: "rehash_policy ex_s2 = (12, 4)"
    by (simp add: rehash_policy_def size_hm_def capacity_def ex_s2_def)
  note T = rehash_growth_policy[OF g c, unfolded p fst_conv snd_conv]
  from T have 1: "HandleCollision ex_s2 = rehash ex_s2" by simp
  from T ex_realloc have 2: "capacity ex_t5 = 12 \<and> neighbourhood_size ex_t5 = 4" by blast
  from 1 2 g c p ex_collision ex_realloc show ?thesis by simp
qed

text \<open>
  C5. The chain invariant. In every map built by the constructors and the public
  operations, for every bucket index \<open>h\<close>, following \<open>first_delta\<close> from bucket \<open>h\<close> and
  then \<open>next_delta\<close> ends, and the buckets visited are, in this order, the buckets of
  the table whose recorded home is \<open>h\<close>, by increasing index: each occupied bucket with
  home \<open>h\<close> is visited once and no other bucket is. When there is such a bucket,
  \<open>first_delta\<close> of bucket \<open>h\<close> is not \<open>NULL_DELTA\<close>.
\<close>

theorem chain_invariant:
  assumes "reachable s" and "h < capacity s"
  shows "\<exists>xs. chain_of (buckets s) h = Some xs \<and>
     xs = filter (\<lambda>i. object_bucket (buckets s ! i) = h) [0..<capacity s] \<and>
     sorted_wrt (<) xs \<and>
     set xs = {i. i < capacity s \<and> object_bucket (buckets s ! i) \<noteq> EMPTY_BUCKET \<and>
                  object_bucket (buckets s ! i) = h} \<and>
     (xs \<noteq> [] \<longrightarrow> first_delta (buckets s ! h) \<noteq> NULL_DELTA)"
proof -
  from reachable_inv[OF assms(1)] have "table_inv s" by (rule inv_table)
  then have t: "tab_ok (neighbourhood_size s) (buckets s)" by (simp add: table_inv_def)
  have h: "h < length (buckets s)" using assms(2) by (simp add: capacity_def)
  have hE: "h \<noteq> EMPTY_BUCKET" using chains_bound[OF tab_okD[OF t]] h by auto
  define xs where "xs = filter (\<lambda>i. object_bucket (buckets s ! i) = h) [0..<capacity s]"
  have 1: "chain_of (buckets s) h = Some xs"
    using chain_of_spec(1)[OF t h] by (simp add: xs_def hm_of_def capacity_def)
  have 2: "sorted_wrt (<) xs" unfolding xs_def by (rule sorted_wrt_filter) simp
  have 3: "set xs = {i. i < capacity s \<and> object_bucket (buckets s ! i) \<noteq> EMPTY_BUCKET \<and>
                  object_bucket (buckets s ! i) = h}"
    using hE by (auto simp: xs_def)
  have 4: "first_delta (buckets s ! h) \<noteq> NULL_DELTA" if "xs \<noteq> []"
  proof -
    from that obtain j where "j \<in> set xs" by (cases xs) auto
    then have "\<exists>j<length (buckets s). hm_of (buckets s) j = h"
      by (auto simp: xs_def hm_of_def capacity_def)
    from chain_of_spec(2)[OF t h this] show ?thesis by (simp add: fd_of_def)
  qed
  from 1 2 3 4 show ?thesis unfolding xs_def by blast
qed

theorem chain_invariant_witness:
  "reachable ex_t5 \<and> (0::nat) < capacity ex_t5 \<and> chain_of (buckets ex_t5) 0 = Some [0, 3] \<and>
   first_delta (buckets ex_t5 ! 0) \<noteq> NULL_DELTA"
proof -
  have a: "(0::nat) < capacity ex_t5" by (simp add: capacity_def ex_t5_def)
  have b: "[0..<capacity ex_t5] = [0, 1, 2, 3, 4, 5, 6, 7, 8, 9, 10, 11]"
    by (simp add: capacity_def ex_t5_def upt_12)
  have c: "filter (\<lambda>i. object_bucket (buckets ex_t5 ! i) = 0) [0, 1, 2, 3, 4, 5, 6, 7, 8, 9, 10, 11] = [0, 3]"
    by (simp add: ex_t5_def bk_def empty_Bucket_def small_ne)
  from chain_invariant[OF ex_t5_reachable a] ex_t5_reachable a show ?thesis
    unfolding b c by auto
qed

text \<open>
  C6. \<open>at(k)\<close> throws (\<open>NotFound\<close>) exactly when no entry of the list has the key \<open>k\<close>;
  when such an entry exists \<open>at(k)\<close> returns its value. \<open>find\<close> and \<open>erase\<close> always return
  normally, and \<open>insert\<close> returns or throws the allocation failure, never \<open>NotFound\<close>.
\<close>

theorem at_not_found:
  assumes "reachable s"
  shows "(at s k = Some (Inl NotFound) \<longleftrightarrow> lookup s k = None) \<and>
     (\<forall>v. lookup s k = Some v \<longrightarrow> at s k = Some (Inr v)) \<and>
     (\<exists>it. find_hm s k = Some it) \<and>
     (\<exists>s'. erase s k = Some s') \<and>
     (\<exists>r. insert_hm s kv = Some r \<and> r \<noteq> Inl NotFound)"
proof -
  note i = reachable_inv[OF assms]
  have 1: "at s k = Some (Inl NotFound) \<longleftrightarrow> lookup s k = None"
    unfolding at_spec[OF i] by (cases "lookup s k") auto
  have 2: "\<forall>v. lookup s k = Some v \<longrightarrow> at s k = Some (Inr v)"
    unfolding at_spec[OF i] by simp
  have 3: "\<exists>it. find_hm s k = Some it"
    unfolding find_hm_spec(1)[OF i] by (cases "lookup s k") auto
  have 4: "\<exists>s'. erase s k = Some s'"
  proof (cases "lookup s k")
    case None from erase_absent[OF i None] show ?thesis by simp
  next
    case (Some v) from erase_present[OF i Some] show ?thesis by auto
  qed
  have 5: "\<exists>r. insert_hm s kv = Some r \<and> r \<noteq> Inl NotFound"
  proof (cases "lookup s (fst kv)")
    case None
    from insert_hm_absent[OF i None, of "snd kv"] show ?thesis by auto
  next
    case (Some v)
    from insert_hm_present[OF i Some, of "snd kv"] show ?thesis by auto
  qed
  from 1 2 3 4 5 show ?thesis by blast
qed

theorem at_not_found_witness:
  "reachable ex_s1 \<and> at ex_s1 3 = Some (Inr 5) \<and> at ex_s1 4 = Some (Inl NotFound) \<and>
   (\<exists>it. find_hm ex_s1 4 = Some it) \<and> (\<exists>s'. erase ex_s1 4 = Some s') \<and>
   (\<exists>r. insert_hm ex_s1 (4, 0) = Some r \<and> r \<noteq> Inl NotFound)"
proof -
  have n: "lookup ex_s1 4 = None" by (simp add: lookup_def ex_s1_def)
  from at_not_found[OF ex_s1_reachable, of 3 "(4, 0)"] ex_s1_lookup
  have a: "at ex_s1 3 = Some (Inr 5)" by simp
  from at_not_found[OF ex_s1_reachable, of 4 "(4, 0)"] n a ex_s1_reachable show ?thesis by simp
qed

text \<open>
  C7. \<open>erase(k)\<close> returns, and afterwards \<open>find(k)\<close> is \<open>end()\<close>. When \<open>k\<close> is absent the map
  is left as it was, so its size is unchanged. Every other key keeps its entry: its
  lookup and the result of \<open>at\<close> are the same before and after.
\<close>

theorem erase_semantics:
  assumes "reachable s"
  shows "\<exists>s'. erase s k = Some s' \<and> find_hm s' k = Some End \<and>
     (lookup s k = None \<longrightarrow> s' = s) \<and>
     (\<forall>k'. k' \<noteq> k \<longrightarrow> lookup s' k' = lookup s k' \<and> at s' k' = at s k')"
proof -
  note i = reachable_inv[OF assms]
  show ?thesis
  proof (cases "lookup s k")
    case None
    from erase_absent[OF i None] find_hm_spec(1)[OF i, of k] None show ?thesis by simp
  next
    case (Some v)
    from erase_present[OF i Some] obtain s' where
      s': "erase s k = Some s'" "inv s'" "lookup s' = (lookup s)(k := None)" by auto
    have "find_hm s' k = Some End" unfolding find_hm_spec(1)[OF s'(2)] using s'(3) by simp
    moreover have "\<forall>k'. k' \<noteq> k \<longrightarrow> lookup s' k' = lookup s k' \<and> at s' k' = at s k'"
      unfolding at_spec[OF i] at_spec[OF s'(2)] using s'(3) by simp
    ultimately show ?thesis using s'(1) Some by simp
  qed
qed

theorem erase_semantics_witness:
  "reachable ex_s1 \<and> (\<exists>s'. erase ex_s1 3 = Some s' \<and> find_hm s' 3 = Some End \<and>
     (lookup ex_s1 3 = None \<longrightarrow> s' = ex_s1) \<and>
     (\<forall>k'. k' \<noteq> 3 \<longrightarrow> lookup s' k' = lookup ex_s1 k' \<and> at s' k' = at ex_s1 k')) \<and>
   erase ex_s1 4 = Some ex_s1"
proof -
  have n: "lookup ex_s1 4 = None" by (simp add: lookup_def ex_s1_def)
  from erase_semantics[OF ex_s1_reachable, of 4] n have "erase ex_s1 4 = Some ex_s1" by auto
  with erase_semantics[OF ex_s1_reachable, of 3] ex_s1_reachable show ?thesis by simp
qed

text \<open>
  C8. \<open>clear\<close> resets the container to its initial configuration: afterwards the size
  is 0, \<open>find\<close> returns \<open>end()\<close> for every key, the neighbourhood size is 4 and the
  table has 4 buckets.
\<close>

theorem clear_resets:
  "size_hm (clear s) = 0 \<and> find_hm (clear s) key = Some End \<and>
   neighbourhood_size (clear s) = 4 \<and> capacity (clear s) = 4"
proof -
  have m: "hasher s key mod min_neighbourhood_size < min_neighbourhood_size"
    by (simp add: min_neighbourhood_size_def)
  have "FindObject (clear s) key = Some (length (buckets (clear s)))"
    using m by (simp add: FindObject_def GetStartBucket_def clear_def empty_Bucket_def)
  then have "find_hm (clear s) key = Some End"
    by (simp add: find_hm_def)
  then show ?thesis
    by (simp add: size_hm_def capacity_def clear_def min_neighbourhood_size_def)
qed

text \<open>
  C9. The capacity invariant. After construction and after every public operation the
  table has at least one bucket and at least as many buckets as the neighbourhood size.
\<close>

theorem capacity_invariant:
  assumes "reachable s"
  shows "0 < capacity s \<and> neighbourhood_size s \<le> capacity s"
proof -
  from reachable_inv[OF assms] have "table_inv s" by (rule inv_table)
  then show ?thesis by (auto simp: table_inv_def capacity_def)
qed

theorem capacity_invariant_witness:
  "reachable ex_t5 \<and> 0 < capacity ex_t5 \<and> neighbourhood_size ex_t5 \<le> capacity ex_t5 \<and>
   capacity ex_t5 = 12 \<and> neighbourhood_size ex_t5 = 4"
proof -
  have "capacity ex_t5 = 12 \<and> neighbourhood_size ex_t5 = 4" by (simp add: capacity_def ex_t5_def)
  with capacity_invariant[OF ex_t5_reachable] ex_t5_reachable show ?thesis by simp
qed

text \<open>
  C10. The low edge of the table. At the head of the hop loop of a placement (the
  situation \<open>hop_inv\<close>: the free bucket \<open>f\<close> is empty and the buckets from the home bucket
  up to it are occupied; by the lemmas \<open>InsertObject_hop_inv\<close> and \<open>hop_inv_step\<close> this is the
  situation in \<open>InsertObject\<close>) the loop ends with a result, so that no bucket outside the
  table is read or written. When \<open>f\<close> is among the first \<open>H - 1\<close> buckets the loop is not
  entered: no search runs, the table is left as it is and the entry is written into
  bucket \<open>f\<close> (lemma \<open>InsertObject_low_edge\<close>), so no failure is reported. When the loop is
  entered, \<open>H \<le> f\<close>; the search reads only buckets of the window \<open>[f - (H - 1), f - 1]\<close>,
  which have an index above \<open>0\<close> and are occupied, and it ends with the early
  \<open>return buckets_.end()\<close> exactly when no occupant of the window can move to \<open>f\<close>.
\<close>

theorem placement_low_edge:
  assumes "hop_inv H bs start f" and "0 < H"
  shows "(\<exists>bs' r. hop bs H start f = Some (bs', r) \<and> length bs' = length bs) \<and>
     (f + 1 < H \<longrightarrow>
        hop bs H start f = Some (bs, Some f) \<and>
        (\<exists>bs'. install bs start f obj = Some bs' \<and> length bs' = length bs \<and>
           object_it (bs' ! f) = obj \<and> object_bucket (bs' ! f) = start)) \<and>
     (H \<le> sz_sub f start \<longrightarrow>
        H \<le> f \<and>
        snd (find_fit_trace bs H f f) = find_fit bs H f f \<and>
        (\<forall>i \<in> set (fst (find_fit_trace bs H f f)). 0 < i \<and> int f < i + int H \<and> i < int f) \<and>
        (\<forall>j. f < j + H \<and> j < f \<longrightarrow> object_bucket (bs ! j) \<noteq> EMPTY_BUCKET) \<and>
        (choose_fit bs H f = None \<longleftrightarrow> \<not> (\<exists>j. f < j + H \<and> j < f \<and> can_move bs H f j)))"
proof -
  from assms(1) have t: "tab_ok H bs" and sf: "start \<le> f" "f < length bs"
    by (auto simp: hop_inv_def)
  note wr = tab_ok_wr[OF t]
  have fw: "f < word_range" using sf wr by arith
  have d1: "sz_sub f start = f - start" using sf wr by (simp add: sz_sub_small)
  from hop_correct[OF assms(1)]
  have 1: "\<exists>bs' r. hop bs H start f = Some (bs', r) \<and> length bs' = length bs" by blast
  have 2: "hop bs H start f = Some (bs, Some f) \<and>
        (\<exists>bs'. install bs start f obj = Some bs' \<and> length bs' = length bs \<and>
           object_it (bs' ! f) = obj \<and> object_bucket (bs' ! f) = start)" if "f + 1 < H"
    using hop_low_edge(1)[OF assms(1) that] hop_low_edge(2)[OF assms(1) that, of obj] by simp
  have 3: "H \<le> f \<and>
        snd (find_fit_trace bs H f f) = find_fit bs H f f \<and>
        (\<forall>i \<in> set (fst (find_fit_trace bs H f f)). 0 < i \<and> int f < i + int H \<and> i < int f) \<and>
        (\<forall>j. f < j + H \<and> j < f \<longrightarrow> object_bucket (bs ! j) \<noteq> EMPTY_BUCKET) \<and>
        (choose_fit bs H f = None \<longleftrightarrow> \<not> (\<exists>j. f < j + H \<and> j < f \<and> can_move bs H f j))"
    if far: "H \<le> sz_sub f start"
  proof -
    note W = hop_window[OF assms(1) far]
    have a: "H \<le> f" by (rule W(1))
    have b: "snd (find_fit_trace bs H f f) = find_fit bs H f f" by (rule find_fit_trace_snd)
    have c: "0 < i \<and> int f < i + int H \<and> i < int f" if "i \<in> set (fst (find_fit_trace bs H f f))" for i
    proof -
      from find_fit_trace_window[OF order_refl fw that]
      have "int f < i + int H" "i < int f" by auto
      moreover have "0 < i" using \<open>int f < i + int H\<close> a by arith
      ultimately show ?thesis by simp
    qed
    have d: "object_bucket (bs ! j) \<noteq> EMPTY_BUCKET" if "f < j + H \<and> j < f" for j
      using W(3)[of j] that by simp
    have win: "\<And>j. f < j + H \<Longrightarrow> j < f \<Longrightarrow> object_bucket (bs ! j) \<le> j" using W(3) by simp
    have S1: "f < j + H \<and> j < f \<and> can_move bs H f j" if "choose_fit bs H f = Some j" for j
      using choose_fit_spec(1)[OF assms(2) a fw, of bs j] win that by blast
    have S2: "\<exists>j. choose_fit bs H f = Some j" if "f < i + H" "i < f" "can_move bs H f i" for i
      using choose_fit_spec(2)[OF assms(2) a fw, of bs i] win that by blast
    have e: "choose_fit bs H f = None \<longleftrightarrow> \<not> (\<exists>j. f < j + H \<and> j < f \<and> can_move bs H f j)"
    proof
      assume n: "choose_fit bs H f = None"
      show "\<not> (\<exists>j. f < j + H \<and> j < f \<and> can_move bs H f j)"
      proof
        assume "\<exists>j. f < j + H \<and> j < f \<and> can_move bs H f j"
        then obtain j where "f < j + H" "j < f" "can_move bs H f j" by blast
        from S2[OF this] n show False by simp
      qed
    next
      assume n: "\<not> (\<exists>j. f < j + H \<and> j < f \<and> can_move bs H f j)"
      show "choose_fit bs H f = None"
      proof (rule ccontr)
        assume "choose_fit bs H f \<noteq> None"
        then obtain j where "choose_fit bs H f = Some j" by auto
        from S1[OF this] n show False by blast
      qed
    qed
    from a b c d e show ?thesis by blast
  qed
  from 1 2 3 show ?thesis by blast
qed

theorem placement_low_edge_witness:
  "hop_inv 4 (replicate 4 empty_Bucket) 2 2 \<and> (2::nat) + 1 < 4 \<and>
   hop (replicate 4 empty_Bucket) 4 2 2 = Some (replicate 4 empty_Bucket, Some 2) \<and>
   hop_inv 4 ex_table 0 4 \<and> (4::nat) \<le> sz_sub 4 0 \<and>
   fst (find_fit_trace ex_table 4 4 4) = [3] \<and> choose_fit ex_table 4 4 = Some 3 \<and>
   (\<exists>j. 4 < j + 4 \<and> j < 4 \<and> can_move ex_table 4 4 j) \<and>
   (\<exists>bs' r. hop ex_table 4 0 4 = Some (bs', r) \<and> length bs' = length ex_table)"
proof -
  have far: "(4::nat) \<le> sz_sub 4 0" by (simp add: sz_sub_eval)
  note A = placement_low_edge[OF ex_new_hop_inv, of] and B = placement_low_edge[OF ex_hop_inv]
  have 1: "hop (replicate 4 empty_Bucket) 4 2 2 = Some (replicate 4 empty_Bucket, Some 2)"
    using A[OF zero_less_numeral] by simp
  have 2: "\<exists>j. 4 < j + 4 \<and> j < 4 \<and> can_move ex_table 4 4 j"
  proof -
    from B[OF zero_less_numeral] far
    have "choose_fit ex_table 4 4 = None \<longleftrightarrow> \<not> (\<exists>j. 4 < j + 4 \<and> j < 4 \<and> can_move ex_table 4 4 j)"
      by blast
    with ex_choose_fit show ?thesis by auto
  qed
  have 3: "\<exists>bs' r. hop ex_table 4 0 4 = Some (bs', r) \<and> length bs' = length ex_table"
    using B[OF zero_less_numeral] by blast
  from 1 2 3 ex_new_hop_inv ex_hop_inv far ex_trace ex_choose_fit show ?thesis by simp
qed

text \<open>
  A free bucket among the first \<open>H - 1\<close> buckets, no occupant that can be displaced, and
  no failure. With the identity hasher, \<open>insert(2, 7)\<close> into a new map finds the free bucket
  2 above the empty buckets 0 and 1; the hop loop is not entered and the entry is placed
  in bucket 2. The search of lines 253-260, applied to this table and this free bucket,
  would not end with a failure either: the test of line 255 wraps around on the home
  \<open>EMPTY_BUCKET\<close> of the empty bucket 1, and the search takes this bucket.
\<close>

theorem low_edge_no_failure:
  "insert_hm (HashMap_new (\<lambda>k. k)) (2, 7) = Some (Inr (Node 1, ex_u1)) \<and>
   buckets (HashMap_new (\<lambda>k. k) :: (nat, nat) HashMap) = replicate 4 empty_Bucket \<and>
   probe (replicate 4 empty_Bucket) 2 = 2 \<and> (2::nat) + 1 < 4 \<and>
   object_bucket (replicate 4 empty_Bucket ! 0) = EMPTY_BUCKET \<and>
   object_bucket (replicate 4 empty_Bucket ! 1) = EMPTY_BUCKET \<and>
   hop (replicate 4 empty_Bucket) 4 2 2 = Some (replicate 4 empty_Bucket, Some 2) \<and>
   object_it (buckets ex_u1 ! 2) = Node 1 \<and> object_bucket (buckets ex_u1 ! 2) = 2 \<and>
   choose_fit (replicate 4 empty_Bucket) 4 2 = Some 1"
proof -
  have 1: "buckets (HashMap_new (\<lambda>k. k) :: (nat, nat) HashMap) = replicate 4 empty_Bucket"
    by (simp add: HashMap_new_def min_neighbourhood_size_def)
  have 2: "probe (replicate 4 empty_Bucket) 2 = 2"
    by (subst probe.simps) (simp add: replicate_4 empty_Bucket_def)
  have 3: "object_bucket (replicate 4 empty_Bucket ! 0) = EMPTY_BUCKET"
    "object_bucket (replicate 4 empty_Bucket ! 1) = EMPTY_BUCKET"
    by (simp_all add: empty_Bucket_def)
  have 4: "hop (replicate 4 empty_Bucket) 4 2 2 = Some (replicate 4 empty_Bucket, Some 2)"
    by (subst hop.simps) (simp add: sz_sub_eval)
  have 5: "object_it (buckets ex_u1 ! 2) = Node 1" "object_bucket (buckets ex_u1 ! 2) = 2"
    by (simp_all add: ex_u1_def bk_def)
  have s: "sz_sub 2 EMPTY_BUCKET = 3"
    by (simp add: sz_sub_def EMPTY_BUCKET_def SIZE_MAX_def word_range_def)
  have f: "find_fit (replicate 4 empty_Bucket) 4 2 2 = 2"
    by (subst find_fit.simps) (simp add: replicate_4 empty_Bucket_def s sz_add_eval sz_sub_eval)
  have 6: "choose_fit (replicate 4 empty_Bucket) 4 2 = Some 1"
    by (simp add: choose_fit_def f sz_add_eval sz_sub_eval)
  from ex_low 1 2 3 4 5 6 show ?thesis by simp
qed

end
